(* ===== verification/Prelude.thy ===== *)
theory Prelude
  imports
    Main
    "HOL-Library.Word"
    "HOL-Library.FSet"
    "HOL-Library.Finite_Map"
    "HOL-Library.List_Lexorder"
    "HOL-Library.Char_ord"
    "HOL-Library.Multiset"
begin

unbundle bit_operations_syntax

text \<open>
  Shared vocabulary of the development: the machine integer types, the representation
  of Rust strings and byte vectors, the result type used for fallible code, and the
  string routines of the standard library that several crates call (splitting, trimming,
  replacing, joining, decimal and hexadecimal rendering).

  A Rust \<^verbatim>\<open>String\<close> is a UTF-8 byte sequence; it is modelled as a HOL \<^typ>\<open>string\<close>
  whose characters are the bytes, so that the library's lexicographic order on lists is
  the order of \<^verbatim>\<open>str\<close> and of \<^verbatim>\<open>[u8; N]\<close>.  A \<^verbatim>\<open>Result<T, E>\<close> is a value of the sum type
  \<open>'e + 'a\<close> with the error on the left.  A \<^verbatim>\<open>HashSet\<close> or \<^verbatim>\<open>BTreeSet\<close> is a finite set
  (\<^typ>\<open>'a fset\<close>), a \<^verbatim>\<open>HashMap\<close> or \<^verbatim>\<open>BTreeMap\<close> a finite map or a partial function.
\<close>

section \<open>Machine types\<close>

type_synonym u8 = "8 word"
type_synonym u16 = "16 word"
type_synonym u32 = "32 word"
type_synonym u64 = "64 word"
type_synonym bytes = "u8 list"

text \<open>A BLAKE3 digest, \<^verbatim>\<open>[u8; 32]\<close>; the width is the predicate \<open>wf_hash\<close>.\<close>

type_synonym blake3_hash = "u8 list"

definition wf_hash :: "blake3_hash \<Rightarrow> bool" where
  "wf_hash h \<longleftrightarrow> length h = 32"

text \<open>The largest \<^verbatim>\<open>usize\<close> of the 64-bit targets the tool is built for.\<close>

definition usize_max :: nat where
  "usize_max = 2 ^ 64 - 1"

definition saturating_add :: "nat \<Rightarrow> nat \<Rightarrow> nat" where
  "saturating_add a b = min usize_max (a + b)"

definition saturating_mul :: "nat \<Rightarrow> nat \<Rightarrow> nat" where
  "saturating_mul a b = min usize_max (a * b)"

named_theorems result_simps \<open>monadic plumbing of fallible operations\<close>
named_theorems str_simps \<open>executable facts on the string routines\<close>

section \<open>Results\<close>

text \<open>The \<^verbatim>\<open>?\<close> operator of Rust: stop at the first error.\<close>

definition bind_result :: "'e + 'a \<Rightarrow> ('a \<Rightarrow> 'e + 'b) \<Rightarrow> 'e + 'b" where
  "bind_result r f = (case r of Inl e \<Rightarrow> Inl e | Inr x \<Rightarrow> f x)"

lemma bind_result_simps [simp, result_simps]:
  "bind_result (Inl e) f = Inl e"
  "bind_result (Inr x) f = f x"
  by (simp_all add: bind_result_def)

lemma bind_result_Inr_iff [result_simps]:
  "bind_result r f = Inr y \<longleftrightarrow> (\<exists>x. r = Inr x \<and> f x = Inr y)"
  by (cases r) simp_all

lemma bind_result_cong [fundef_cong]:
  "r = r' \<Longrightarrow> (\<And>x. r' = Inr x \<Longrightarrow> f x = g x) \<Longrightarrow> bind_result r f = bind_result r' g"
  by (cases r') simp_all

definition map_result :: "('a \<Rightarrow> 'b) \<Rightarrow> 'e + 'a \<Rightarrow> 'e + 'b" where
  "map_result f r = (case r of Inl e \<Rightarrow> Inl e | Inr x \<Rightarrow> Inr (f x))"

lemma map_result_simps [simp, result_simps]:
  "map_result f (Inl e) = Inl e"
  "map_result f (Inr x) = Inr (f x)"
  by (simp_all add: map_result_def)

lemma map_result_Inr_iff [result_simps]:
  "map_result f r = Inr y \<longleftrightarrow> (\<exists>x. r = Inr x \<and> y = f x)"
  by (cases r) auto

text \<open>\<^verbatim>\<open>iter().map(f).collect::<Result<Vec<_>, _>>()\<close>: left to right, first error wins.\<close>

fun traverse :: "('a \<Rightarrow> 'e + 'b) \<Rightarrow> 'a list \<Rightarrow> 'e + 'b list" where
  "traverse f [] = Inr []"
| "traverse f (x # xs) =
     bind_result (f x) (\<lambda>y. bind_result (traverse f xs) (\<lambda>ys. Inr (y # ys)))"

lemma traverse_length: "traverse f xs = Inr ys \<Longrightarrow> length ys = length xs"
  by (induction xs arbitrary: ys) (auto simp: result_simps)

lemma traverse_Inr_iff:
  "traverse f xs = Inr ys \<longleftrightarrow> list_all2 (\<lambda>x y. f x = Inr y) xs ys"
  by (induction xs arbitrary: ys) (auto simp: result_simps list_all2_Cons1)

section \<open>Finite sets and maps\<close>

lemma sorted_list_of_fset_distinct [simp]: "distinct (sorted_list_of_fset S)"
  by (simp add: sorted_list_of_fset.rep_eq)

lemma sorted_list_of_fset_sorted [simp]: "sorted (sorted_list_of_fset S)"
  by (simp add: sorted_list_of_fset.rep_eq)

lemma length_sorted_list_of_fset [simp]: "length (sorted_list_of_fset S) = fcard S"
  by (simp add: sorted_list_of_fset.rep_eq fcard.rep_eq)

lemma sorted_list_of_fset_empty [simp]: "sorted_list_of_fset {||} = []"
  by (simp add: sorted_list_of_fset.rep_eq)

lemma sorted_list_of_fset_finsert [simp]:
  "sorted_list_of_fset (finsert x S) = insort x (sorted_list_of_fset (S |-| {|x|}))"
  by (simp add: sorted_list_of_fset.rep_eq)

lemma sorted_list_of_fset_eq_Nil_iff [simp]: "sorted_list_of_fset S = [] \<longleftrightarrow> S = {||}"
  by (metis fset_of_list_simps(1) sorted_list_of_fset_empty sorted_list_of_fset_simps(2))

lemma sorted_list_of_fset_unique:
  "sorted xs \<Longrightarrow> distinct xs \<Longrightarrow> set xs = fset S \<Longrightarrow> sorted_list_of_fset S = xs"
  by (simp add: sorted_list_of_fset.rep_eq) (metis sorted_list_of_set.idem_if_sorted_distinct)

lemma sorted_distinct_eqI:
  fixes xs :: "'a :: linorder list"
  assumes "sorted xs" "distinct xs" "sorted ys" "distinct ys" "set xs = set ys"
  shows "xs = ys"
  using assms by (simp add: sorted_distinct_set_unique)

lemma fmsubset_lookup: "m \<subseteq>\<^sub>f m' \<Longrightarrow> fmlookup m i = Some x \<Longrightarrow> fmlookup m' i = Some x"
  by (simp add: fmsubset_alt_def fmpred_iff)

lemma fmsubset_refl [simp]: "m \<subseteq>\<^sub>f m"
  by (simp add: fmsubset_alt_def fmpred_iff)

lemma fmsubset_trans: "m \<subseteq>\<^sub>f m' \<Longrightarrow> m' \<subseteq>\<^sub>f m'' \<Longrightarrow> m \<subseteq>\<^sub>f m''"
  by (simp add: fmsubset_alt_def fmpred_iff)

lemma fmsubset_dom: "m \<subseteq>\<^sub>f m' \<Longrightarrow> i |\<in>| fmdom m \<Longrightarrow> i |\<in>| fmdom m'"
  by (metis fmlookup_dom_iff fmsubset_lookup)

text \<open>A visited node is expanded: its dependencies are visited or on the stack.\<close>

definition expanded :: "('a \<times> 'a) set \<Rightarrow> 'a set \<Rightarrow> 'a set \<Rightarrow> bool" where
  "expanded r V W \<longleftrightarrow> r `` V \<subseteq> V \<union> W"

lemma expanded_closed:
  assumes "expanded r V {}" and "F \<subseteq> V" and "V \<subseteq> r\<^sup>* `` F"
  shows "V = r\<^sup>* `` F"
proof
  show "r\<^sup>* `` F \<subseteq> V"
  proof
    fix y assume "y \<in> r\<^sup>* `` F"
    then obtain x where "(x, y) \<in> r\<^sup>*" "x \<in> F" by blast
    then show "y \<in> V"
    proof (induction rule: rtrancl_induct)
      case (step y z)
      with assms(1) show ?case by (auto simp: expanded_def)
    qed (use assms(2) in blast)
  qed
qed (rule assms(3))

text \<open>\<^verbatim>\<open>sort(); dedup()\<close> on a vector.\<close>

definition sort_dedup :: "'a :: linorder list \<Rightarrow> 'a list" where
  "sort_dedup xs = remdups_adj (sort xs)"

lemma sorted_remdups_adj_distinct:
  "sorted xs \<Longrightarrow> distinct (remdups_adj (xs :: 'a :: linorder list))"
proof (induction xs rule: remdups_adj.induct)
  case (3 x y xs)
  then show ?case by (cases "x = y") (auto dest: order_antisym)
qed simp_all

lemma sort_dedup_props [simp]:
  "sorted (sort_dedup xs)" "distinct (sort_dedup xs)" "set (sort_dedup xs) = set xs"
  by (simp_all add: sort_dedup_def sorted_remdups_adj sorted_remdups_adj_distinct)

lemma sort_dedup_cong: "set xs = set ys \<Longrightarrow> sort_dedup xs = sort_dedup ys"
  by (rule sorted_distinct_eqI) simp_all

lemma sort_dedup_id: "sorted xs \<Longrightarrow> distinct xs \<Longrightarrow> sort_dedup xs = xs"
  by (rule sorted_distinct_eqI) simp_all

section \<open>Strings\<close>

text \<open>\<^verbatim>\<open>slice.join(sep)\<close>.\<close>

fun join :: "string \<Rightarrow> string list \<Rightarrow> string" where
  "join sep [] = []"
| "join sep [s] = s"
| "join sep (s # t # ts) = s @ sep @ join sep (t # ts)"

text \<open>\<^verbatim>\<open>str::strip_prefix\<close>.\<close>

fun strip_prefix :: "string \<Rightarrow> string \<Rightarrow> string option" where
  "strip_prefix [] s = Some s"
| "strip_prefix (p # ps) [] = None"
| "strip_prefix (p # ps) (c # cs) = (if p = c then strip_prefix ps cs else None)"

lemma strip_prefix_Some_iff [str_simps]: "strip_prefix p s = Some t \<longleftrightarrow> s = p @ t"
  by (induction p s rule: strip_prefix.induct) auto

lemma strip_prefix_Nil [simp]: "p \<noteq> [] \<Longrightarrow> strip_prefix p [] = None"
  by (cases p) simp_all

lemma strip_prefix_append [simp, str_simps]: "strip_prefix p (p @ t) = Some t"
  by (simp add: strip_prefix_Some_iff)

definition starts_with :: "string \<Rightarrow> string \<Rightarrow> bool" where
  "starts_with s p \<longleftrightarrow> strip_prefix p s \<noteq> None"

text \<open>\<^verbatim>\<open>str::split_once(char)\<close>: at the first occurrence.\<close>

fun split_once :: "char \<Rightarrow> string \<Rightarrow> (string \<times> string) option" where
  "split_once d [] = None"
| "split_once d (c # cs) =
     (if c = d then Some ([], cs)
      else map_option (\<lambda>(a, b). (c # a, b)) (split_once d cs))"

lemma split_once_Some_iff [str_simps]:
  "split_once d s = Some (a, b) \<longleftrightarrow> s = a @ d # b \<and> d \<notin> set a"
proof (induction s arbitrary: a)
  case (Cons c cs)
  then show ?case by (cases a) auto
qed simp

lemma split_once_None_iff [str_simps]: "split_once d s = None \<longleftrightarrow> d \<notin> set s"
  by (induction s) auto

lemma split_once_append [simp, str_simps]:
  "d \<notin> set a \<Longrightarrow> split_once d (a @ d # b) = Some (a, b)"
  by (simp add: split_once_Some_iff)

text \<open>\<^verbatim>\<open>str::replace\<close> of one character by another.\<close>

definition replace_char :: "char \<Rightarrow> char \<Rightarrow> string \<Rightarrow> string" where
  "replace_char a b s = List.map (\<lambda>c. if c = a then b else c) s"

text \<open>\<^verbatim>\<open>trim_start_matches(c)\<close> and \<^verbatim>\<open>trim_end_matches(c)\<close>.\<close>

definition trim_start_char :: "char \<Rightarrow> string \<Rightarrow> string" where
  "trim_start_char c s = dropWhile (\<lambda>x. x = c) s"

definition trim_end_char :: "char \<Rightarrow> string \<Rightarrow> string" where
  "trim_end_char c s = rev (dropWhile (\<lambda>x. x = c) (rev s))"

text \<open>
  \<^verbatim>\<open>str::trim\<close> removes the characters with the Unicode property White\_Space; on the
  UTF-8 bytes of a string these are the sequences listed here.
\<close>

definition utf8_ws :: "nat list list" where
  "utf8_ws =
     [[9], [10], [11], [12], [13], [32], [0xC2, 0x85], [0xC2, 0xA0], [0xE1, 0x9A, 0x80],
      [0xE2, 0x80, 0x80], [0xE2, 0x80, 0x81], [0xE2, 0x80, 0x82], [0xE2, 0x80, 0x83],
      [0xE2, 0x80, 0x84], [0xE2, 0x80, 0x85], [0xE2, 0x80, 0x86], [0xE2, 0x80, 0x87],
      [0xE2, 0x80, 0x88], [0xE2, 0x80, 0x89], [0xE2, 0x80, 0x8A], [0xE2, 0x80, 0xA8],
      [0xE2, 0x80, 0xA9], [0xE2, 0x80, 0xAF], [0xE2, 0x81, 0x9F], [0xE3, 0x80, 0x80]]"

definition utf8_ws_strings :: "string list" where
  "utf8_ws_strings = List.map (List.map char_of) utf8_ws"

fun strip_any :: "string list \<Rightarrow> string \<Rightarrow> string option" where
  "strip_any [] s = None"
| "strip_any (p # ps) s =
     (case strip_prefix p s of Some t \<Rightarrow> Some t | None \<Rightarrow> strip_any ps s)"

lemma strip_any_shorter:
  "strip_any ps s = Some t \<Longrightarrow> [] \<notin> set ps \<Longrightarrow> length t < length s"
  by (induction ps) (auto simp: strip_prefix_Some_iff neq_Nil_conv split: option.splits)

fun trim_prefixes_fuel :: "nat \<Rightarrow> string list \<Rightarrow> string \<Rightarrow> string" where
  "trim_prefixes_fuel 0 ps s = s"
| "trim_prefixes_fuel (Suc n) ps s =
     (case strip_any ps s of None \<Rightarrow> s | Some t \<Rightarrow> trim_prefixes_fuel n ps t)"

text \<open>Every step removes a byte, so as much fuel as there are bytes is enough.\<close>

definition trim_start :: "string \<Rightarrow> string" where
  "trim_start s = trim_prefixes_fuel (length s) utf8_ws_strings s"

definition trim_end :: "string \<Rightarrow> string" where
  "trim_end s = rev (trim_prefixes_fuel (length s) (List.map rev utf8_ws_strings) (rev s))"

definition trim :: "string \<Rightarrow> string" where
  "trim s = trim_end (trim_start s)"

text \<open>A string whose first and last bytes are printable ASCII is already trimmed.\<close>

definition ascii_graphic :: "char \<Rightarrow> bool" where
  "ascii_graphic c \<longleftrightarrow> 32 < (of_char c :: nat) \<and> (of_char c :: nat) < 128"

lemma strip_any_not_head:
  "\<forall>p\<in>set ps. p \<noteq> [] \<and> \<not> ascii_graphic (hd p) \<Longrightarrow> ascii_graphic c \<Longrightarrow> strip_any ps (c # s) = None"
  by (induction ps) (auto simp: strip_prefix_Some_iff neq_Nil_conv split: option.splits)

lemma utf8_ws_ends:
  "p \<in> set utf8_ws_strings \<Longrightarrow> p \<noteq> [] \<and> \<not> ascii_graphic (hd p) \<and> \<not> ascii_graphic (last p)"
  by (auto simp: utf8_ws_strings_def utf8_ws_def ascii_graphic_def)

lemma trim_graphic [simp]:
  assumes "s \<noteq> []" "ascii_graphic (hd s)" "ascii_graphic (last s)"
  shows "trim s = s"
proof -
  have st: "trim_prefixes_fuel n ps t = t" if "strip_any ps t = None" for n ps t
    using that by (cases n) simp_all
  from assms obtain c u where s: "s = c # u" "ascii_graphic c" by (cases s) auto
  then have "strip_any utf8_ws_strings s = None"
    using utf8_ws_ends by (simp add: strip_any_not_head)
  then have 1: "trim_start s = s" by (simp add: trim_start_def st)
  obtain d v where r: "rev s = d # v" "ascii_graphic d"
    using assms by (cases "rev s") (auto simp: hd_rev [symmetric])
  have "strip_any (List.map rev utf8_ws_strings) (d # v) = None"
    using utf8_ws_ends r(2) by (intro strip_any_not_head) (auto simp: hd_rev)
  then show ?thesis unfolding trim_def 1 trim_end_def r(1) using r(1)
    by (simp add: st)
qed

lemma trim_prefixes_fuel_enough:
  "length s \<le> n \<Longrightarrow> [] \<notin> set ps \<Longrightarrow> strip_any ps (trim_prefixes_fuel n ps s) = None"
proof (induction n arbitrary: s)
  case 0
  have "strip_any ps [] = None" if "[] \<notin> set ps" for ps
    using that by (induction ps) auto
  with 0 show ?case by simp
next
  case (Suc n)
  show ?case
  proof (cases "strip_any ps s")
    case None
    then show ?thesis by simp
  next
    case (Some t)
    with Suc.prems have "length t \<le> n" using strip_any_shorter by fastforce
    with Suc.IH Suc.prems(2) Some show ?thesis by simp
  qed
qed

section \<open>Numbers as text\<close>

definition digit_char :: "nat \<Rightarrow> char" where
  "digit_char d = char_of (48 + d)"

text \<open>Decimal rendering, as \<^verbatim>\<open>{}\<close> does for unsigned integers.\<close>

fun nat_dec :: "nat \<Rightarrow> string" where
  "nat_dec n = (if n < 10 then [digit_char n] else nat_dec (n div 10) @ [digit_char (n mod 10)])"

declare nat_dec.simps [simp del]

text \<open>\<^verbatim>\<open>{:0w}\<close>: left padding with zeros.\<close>

definition pad_dec :: "nat \<Rightarrow> nat \<Rightarrow> string" where
  "pad_dec w n = (let s = nat_dec n in replicate (w - length s) (CHR ''0'') @ s)"

definition hex_digit :: "nat \<Rightarrow> char" where
  "hex_digit d = (if d < 10 then char_of (48 + d) else char_of (87 + d))"

text \<open>\<^verbatim>\<open>{:02x}\<close> of a byte.\<close>

definition hex_byte :: "u8 \<Rightarrow> string" where
  "hex_byte b = [hex_digit (unat b div 16), hex_digit (unat b mod 16)]"

text \<open>Bytes of a string and back (\<^verbatim>\<open>as_bytes\<close>).\<close>

definition byte_of_char :: "char \<Rightarrow> u8" where
  "byte_of_char c = word_of_nat (of_char c)"

definition char_of_byte :: "u8 \<Rightarrow> char" where
  "char_of_byte b = char_of (unat b)"

definition str_bytes :: "string \<Rightarrow> bytes" where
  "str_bytes s = List.map byte_of_char s"

definition bytes_str :: "bytes \<Rightarrow> string" where
  "bytes_str bs = List.map char_of_byte bs"

lemma unat_byte_of_char [simp]: "unat (byte_of_char c) = of_char c"
proof -
  have "(of_char c :: nat) < 256" by (rule nat_of_char_less_256)
  then show ?thesis by (simp add: byte_of_char_def unat_of_nat)
qed

lemma char_of_byte_of_char [simp]: "char_of_byte (byte_of_char c) = c"
  by (simp add: char_of_byte_def)

lemma unat_u8_less: "unat (b :: u8) < 256"
proof -
  have "unat b < 2 ^ LENGTH(8)" by (rule unsigned_less)
  then show ?thesis by simp
qed

lemma byte_of_char_of_byte [simp]: "byte_of_char (char_of_byte b) = b"
proof -
  have "unat b < 256" by (rule unat_u8_less)
  then show ?thesis by (simp add: byte_of_char_def char_of_byte_def)
qed

lemma bytes_str_bytes [simp]: "bytes_str (str_bytes s) = s"
  by (simp add: bytes_str_def str_bytes_def o_def)

lemma str_bytes_str [simp]: "str_bytes (bytes_str bs) = bs"
  by (simp add: bytes_str_def str_bytes_def o_def)

lemma str_bytes_inj [simp]: "str_bytes s = str_bytes t \<longleftrightarrow> s = t"
  by (metis bytes_str_bytes)

lemma length_str_bytes [simp]: "length (str_bytes s) = length s"
  by (simp add: str_bytes_def)

end
