(* ===== verification/Ids.thy ===== *)
theory Ids
  imports Prelude
begin

text \<open>
  Content-addressed identifiers (\<^verbatim>\<open>arc-store-types/src/newtypes.rs\<close>).  The four newtypes
  \<^verbatim>\<open>ChangeId\<close>, \<^verbatim>\<open>BlobId\<close>, \<^verbatim>\<open>SnapshotId\<close> and \<^verbatim>\<open>MutationId\<close> wrap the same 32 bytes, and
  their \<^verbatim>\<open>From\<close> conversions are the identity, so they are synonyms here; their derived
  order is the byte-lexicographic order of the wrapped array.
\<close>

type_synonym change_id = blake3_hash
type_synonym blob_id = blake3_hash
type_synonym snapshot_id = blake3_hash
type_synonym mutation_id = blake3_hash

section \<open>Hexadecimal text\<close>

text \<open>The offending character is kept as its code point (\<^verbatim>\<open>c as char\<close> of a byte).\<close>

datatype parse_hex_error = InvalidLength nat | InvalidCharacter nat

text \<open>The UTF-8 bytes of a code point below 256.\<close>

definition utf8_latin1 :: "nat \<Rightarrow> string" where
  "utf8_latin1 n =
     (if n < 128 then [char_of n] else [char_of (192 + n div 64), char_of (128 + n mod 64)])"

fun parse_hex_error_display :: "parse_hex_error \<Rightarrow> string" where
  "parse_hex_error_display (InvalidLength got) = ''expected 64 hex chars, got '' @ nat_dec got"
| "parse_hex_error_display (InvalidCharacter ch) =
     ''invalid hex character '' @ [CHR 0x27] @ utf8_latin1 ch @ [CHR 0x27]
       @ '': expected [0-9a-fA-F]''"

definition hash_to_hex :: "blake3_hash \<Rightarrow> string" where
  "hash_to_hex h = concat (List.map hex_byte h)"

definition nybble :: "u8 \<Rightarrow> parse_hex_error + u8" where
  "nybble c =
     (if 48 \<le> c \<and> c \<le> 57 then Inr (c - 48)
      else if 97 \<le> c \<and> c \<le> 102 then Inr (c - 97 + 10)
      else if 65 \<le> c \<and> c \<le> 70 then Inr (c - 65 + 10)
      else Inl (InvalidCharacter (unat c)))"

text \<open>The loop over the 32 byte pairs, high digit first, stopping at the first error.\<close>

fun decode_pairs :: "bytes \<Rightarrow> parse_hex_error + bytes" where
  "decode_pairs (a # b # rest) =
     bind_result (nybble a) (\<lambda>hi.
     bind_result (nybble b) (\<lambda>lo.
     bind_result (decode_pairs rest) (\<lambda>out. Inr ((push_bit 4 hi OR lo) # out))))"
| "decode_pairs _ = Inr []"

definition decode_hex_32 :: "string \<Rightarrow> parse_hex_error + blake3_hash" where
  "decode_hex_32 input =
     (if length input \<noteq> 64 then Inl (InvalidLength (length input))
      else decode_pairs (str_bytes input))"

text \<open>With the \<^verbatim>\<open>std\<close> feature the error is lifted to its rendered text.\<close>

definition lift_parse_result :: "parse_hex_error + 'a \<Rightarrow> string + 'a" where
  "lift_parse_result r = (case r of Inl e \<Rightarrow> Inl (parse_hex_error_display e) | Inr x \<Rightarrow> Inr x)"

definition change_id_to_hex :: "change_id \<Rightarrow> string" where
  "change_id_to_hex i = hash_to_hex i"

definition change_id_from_hex :: "string \<Rightarrow> string + change_id" where
  "change_id_from_hex input = lift_parse_result (decode_hex_32 input)"

definition blob_id_from_hex :: "string \<Rightarrow> string + blob_id" where
  "blob_id_from_hex input = lift_parse_result (decode_hex_32 input)"

definition snapshot_id_from_hex :: "string \<Rightarrow> string + snapshot_id" where
  "snapshot_id_from_hex input = lift_parse_result (decode_hex_32 input)"

definition mutation_id_from_hex :: "string \<Rightarrow> string + mutation_id" where
  "mutation_id_from_hex input = lift_parse_result (decode_hex_32 input)"

section \<open>Lemmas\<close>

lemma length_hash_to_hex [simp]: "length (hash_to_hex h) = 2 * length h"
  by (induction h) (simp_all add: hash_to_hex_def hex_byte_def)

text \<open>The value of a hexadecimal digit, on code points.\<close>

definition hex_val :: "nat \<Rightarrow> nat option" where
  "hex_val n =
     (if 48 \<le> n \<and> n \<le> 57 then Some (n - 48)
      else if 97 \<le> n \<and> n \<le> 102 then Some (n - 87)
      else if 65 \<le> n \<and> n \<le> 70 then Some (n - 55) else None)"

lemma hex_val_less: "hex_val n = Some d \<Longrightarrow> d < 16"
  by (auto simp: hex_val_def split: if_splits)

lemma nybble_hex_val:
  "nybble c = (case hex_val (unat c) of None \<Rightarrow> Inl (InvalidCharacter (unat c))
                                      | Some d \<Rightarrow> Inr (word_of_nat d))"
proof -
  have le: "(n \<le> c) = (unat n \<le> unat c)" "(c \<le> n) = (unat c \<le> unat n)" for n :: u8
    by (simp_all add: word_le_nat_alt)
  have sub: "word_of_nat (unat c - k) = c - word_of_nat k" if "k \<le> unat c" for k
    using that by (simp add: of_nat_diff)
  show ?thesis
    by (auto simp: nybble_def hex_val_def le sub)
qed

lemma nybble_Inr_iff: "nybble c = Inr d \<longleftrightarrow> (\<exists>k. hex_val (unat c) = Some k \<and> d = word_of_nat k)"
  by (auto simp: nybble_hex_val split: option.splits)

lemma hex_digit_val: "d < 16 \<Longrightarrow> hex_val (of_char (hex_digit d)) = Some d"
  by (auto simp: hex_val_def hex_digit_def)

lemma nybble_hex_digit [simp]:
  "d < 16 \<Longrightarrow> nybble (byte_of_char (hex_digit d)) = Inr (word_of_nat d)"
  by (simp add: nybble_hex_val hex_digit_val)

lemma nybbles_join:
  assumes "h < 16" "l < 16"
  shows "unat (push_bit 4 (word_of_nat h) OR (word_of_nat l :: u8)) = h * 16 + l"
proof -
  have "push_bit 4 h OR l = h * 16 + l"
  proof -
    have "l = take_bit 4 l" using assms by (simp add: take_bit_eq_mod)
    then have "push_bit 4 h OR l = push_bit 4 h + l"
      by (metis (no_types) disjunctive_add bit_push_bit_iff bit_take_bit_iff linorder_not_less)
    then show ?thesis by (simp add: push_bit_eq_mult)
  qed
  moreover have "unat (push_bit 4 (word_of_nat h) OR (word_of_nat l :: u8))
      = take_bit 8 (push_bit 4 h OR l)"
    by (simp add: unsigned_or_eq unsigned_push_bit_eq unsigned_of_nat take_bit_or take_bit_push_bit)
  ultimately show ?thesis using assms by (simp add: take_bit_eq_mod)
qed

text \<open>ASCII lower case, the canonical form of the accepted digits.\<close>

definition ascii_lower :: "char \<Rightarrow> char" where
  "ascii_lower c =
     (let n = of_char c :: nat in if 65 \<le> n \<and> n \<le> 90 then char_of (n + 32) else c)"

lemma of_char_ascii_lower:
  "(of_char (ascii_lower c) :: nat) =
     (if 65 \<le> (of_char c :: nat) \<and> (of_char c :: nat) \<le> 90 then of_char c + 32 else of_char c)"
  by (simp add: ascii_lower_def Let_def)

lemma of_char_hex_digit:
  "k < 16 \<Longrightarrow> (of_char (hex_digit k) :: nat) = (if k < 10 then 48 + k else 87 + k)"
  by (simp add: hex_digit_def)

lemma hex_val_iff_digit:
  "hex_val (of_char c) = Some k \<longleftrightarrow> k < 16 \<and> ascii_lower c = hex_digit k"
proof (cases "k < 16")
  case True
  have "ascii_lower c = hex_digit k \<longleftrightarrow>
      (of_char (ascii_lower c) :: nat) = of_char (hex_digit k)"
    by (metis of_char_eq_iff)
  with True show ?thesis
    by (auto simp: hex_val_def of_char_ascii_lower of_char_hex_digit split: if_splits)
next
  case False
  then show ?thesis using hex_val_less by blast
qed

lemma hex_byte_join_iff:
  assumes "h < 16" "l < 16"
  shows "push_bit 4 (word_of_nat h) OR word_of_nat l = (b :: u8) \<longleftrightarrow>
         hex_byte b = [hex_digit h, hex_digit l]"
proof -
  have inj: "hex_digit i = hex_digit j \<longleftrightarrow> i = j" if "i < 16" "j < 16" for i j
    using that hex_digit_val by (metis option.inject)
  have "unat b div 16 < 16" "unat b mod 16 < 16"
    using unat_u8_less [of b] by simp_all
  then have "hex_byte b = [hex_digit h, hex_digit l] \<longleftrightarrow> unat b div 16 = h \<and> unat b mod 16 = l"
    using assms by (simp add: hex_byte_def inj)
  moreover have "push_bit 4 (word_of_nat h) OR word_of_nat l = b \<longleftrightarrow> h * 16 + l = unat b"
    using nybbles_join [OF assms] by (metis word_unat_eq_iff)
  moreover have "h * 16 + l = unat b \<longleftrightarrow> unat b div 16 = h \<and> unat b mod 16 = l"
  proof
    assume e: "h * 16 + l = unat b"
    show "unat b div 16 = h \<and> unat b mod 16 = l"
      unfolding e [symmetric] using assms by simp
  qed auto
  ultimately show ?thesis by simp
qed

lemma hex_pair_iff:
  "(\<exists>hi lo. hex_val (of_char x) = Some hi \<and> hex_val (of_char y) = Some lo \<and>
      b = push_bit 4 (word_of_nat hi) OR word_of_nat lo) \<longleftrightarrow>
   hex_byte b = [ascii_lower x, ascii_lower y]" (is "?L \<longleftrightarrow> ?R")
proof
  assume ?L
  then show ?R by (auto simp: hex_val_iff_digit hex_byte_join_iff [symmetric])
next
  assume R: ?R
  let ?h = "unat b div 16" and ?l = "unat b mod 16"
  have lt: "?h < 16" "?l < 16" using unat_u8_less [of b] by simp_all
  from R lt have "hex_val (of_char x) = Some ?h" "hex_val (of_char y) = Some ?l"
    by (simp_all add: hex_val_iff_digit hex_byte_def)
  moreover from R lt have "push_bit 4 (word_of_nat ?h) OR word_of_nat ?l = b"
    by (subst hex_byte_join_iff) (simp_all add: hex_byte_def)
  ultimately show ?L by metis
qed

lemma decode_pairs_iff:
  "even (length bs) \<Longrightarrow>
   decode_pairs (str_bytes bs) = Inr h \<longleftrightarrow> List.map ascii_lower bs = hash_to_hex h"
proof (induction bs arbitrary: h rule: induct_list012)
  case 1
  then show ?case by (cases h) (auto simp: str_bytes_def hash_to_hex_def hex_byte_def)
next
  case (2 x)
  then show ?case by simp
next
  case (3 x y zs)
  have IH: "decode_pairs (str_bytes zs) = Inr t \<longleftrightarrow> List.map ascii_lower zs = hash_to_hex t" for t
    using 3 by simp
  have "decode_pairs (str_bytes (x # y # zs)) = Inr h \<longleftrightarrow>
      (\<exists>hi lo t. hex_val (of_char x) = Some hi \<and> hex_val (of_char y) = Some lo \<and>
        List.map ascii_lower zs = hash_to_hex t \<and>
        h = (push_bit 4 (word_of_nat hi) OR word_of_nat lo) # t)"
    by (simp add: str_bytes_def result_simps nybble_Inr_iff)
       (auto simp: IH [unfolded str_bytes_def])
  also have "\<dots> \<longleftrightarrow> List.map ascii_lower (x # y # zs) = hash_to_hex h"
  proof (cases h)
    case Nil
    then show ?thesis by (simp add: hash_to_hex_def)
  next
    case (Cons b t)
    then have "(\<exists>hi lo u. hex_val (of_char x) = Some hi \<and> hex_val (of_char y) = Some lo \<and>
        List.map ascii_lower zs = hash_to_hex u \<and>
        h = (push_bit 4 (word_of_nat hi) OR word_of_nat lo) # u) \<longleftrightarrow>
        hex_byte b = [ascii_lower x, ascii_lower y] \<and> List.map ascii_lower zs = hash_to_hex t"
      by (auto simp: hex_pair_iff [symmetric])
    then show ?thesis
      by (auto simp: Cons hash_to_hex_def hex_byte_def)
  qed
  finally show ?case .
qed

lemma change_id_from_hex_decode: "change_id_from_hex s = Inr h \<longleftrightarrow> decode_hex_32 s = Inr h"
  by (simp add: change_id_from_hex_def lift_parse_result_def split: sum.splits)

lemma decode_hex_32_iff:
  "decode_hex_32 s = Inr h \<longleftrightarrow> wf_hash h \<and> List.map ascii_lower s = hash_to_hex h"
proof -
  have "length s = 64 \<longleftrightarrow> length h = 32" if "List.map ascii_lower s = hash_to_hex h"
    using arg_cong [OF that, of length] by simp
  then show ?thesis
    by (auto simp: decode_hex_32_def wf_hash_def decode_pairs_iff)
qed

lemma ascii_lower_hex_digit [simp]: "k < 16 \<Longrightarrow> ascii_lower (hex_digit k) = hex_digit k"
  using hex_digit_val hex_val_iff_digit by blast

lemma ascii_lower_hash_to_hex [simp]: "List.map ascii_lower (hash_to_hex h) = hash_to_hex h"
proof (induction h)
  case (Cons b t)
  have "unat b div 16 < 16" "unat b mod 16 < 16" using unat_u8_less [of b] by simp_all
  with Cons show ?case by (simp add: hash_to_hex_def hex_byte_def)
qed (simp add: hash_to_hex_def)

lemma decode_hash_to_hex [simp]: "wf_hash h \<Longrightarrow> decode_hex_32 (hash_to_hex h) = Inr h"
  by (simp add: decode_hex_32_iff)

text \<open>
  \<^verbatim>\<open>ChangeId::from_hex\<close> accepts exactly the texts that are, up to letter case, the
  rendering of a 32-byte digest, and returns that digest; parsing a rendered id is
  therefore the identity, and no other text parses.
\<close>

theorem change_id_hex_roundtrip:
  "change_id_from_hex s = Inr h \<longleftrightarrow> wf_hash h \<and> List.map ascii_lower s = change_id_to_hex h"
  by (simp add: change_id_from_hex_decode decode_hex_32_iff change_id_to_hex_def)

end
