(* ===== verification/Atoms.thy ===== *)
theory Atoms
  imports Ids
begin

text \<open>
  The atom vocabulary (\<^verbatim>\<open>arc-algebra-types/src/lib.rs\<close>): spacetime coordinates with their
  \<^verbatim>\<open>arc://\<close> text form, the eight kinds of structural edit, the AST paths an atom touches
  and its one-line rendering.

  \<^verbatim>\<open>blake3::Hash::to_hex\<close> and \<^verbatim>\<open>blake3::Hash::from_hex\<close> belong to the \<^verbatim>\<open>blake3\<close> crate and
  are parameters of the definitions that call them.
\<close>

type_synonym node_path = "string list"

section \<open>Spacetime coordinates\<close>

record spacetime_coordinate =
  sc_namespace :: string
  sc_repo :: string
  sc_hash :: blake3_hash

datatype coordinate_error =
    MissingScheme | MissingHash | MissingRepo | NestedRepo | EmptyPart | BadHash

fun coordinate_error_message :: "coordinate_error \<Rightarrow> string" where
  "coordinate_error_message MissingScheme =
     ''coordinate must start with '' @ [CHR 0x27] @ ''arc://'' @ [CHR 0x27]"
| "coordinate_error_message MissingHash =
     ''coordinate must include '' @ [CHR 0x27] @ ''@<hash>'' @ [CHR 0x27]"
| "coordinate_error_message MissingRepo =
     ''coordinate must include '' @ [CHR 0x27] @ ''<namespace>/<repo>'' @ [CHR 0x27]"
| "coordinate_error_message NestedRepo =
     ''coordinate repo must not contain '' @ [CHR 0x27] @ ''/'' @ [CHR 0x27]"
| "coordinate_error_message EmptyPart = ''namespace and repo must be non-empty''"
| "coordinate_error_message BadHash =
     ''coordinate hash must be 64 lowercase/uppercase hex chars''"

definition from_uri ::
  "(string \<Rightarrow> blake3_hash option) \<Rightarrow> string \<Rightarrow> coordinate_error + spacetime_coordinate" where
  "from_uri hash_from_hex uri =
     (case strip_prefix ''arc://'' uri of
        None \<Rightarrow> Inl MissingScheme
      | Some body \<Rightarrow>
     (case split_once (CHR ''@'') body of
        None \<Rightarrow> Inl MissingHash
      | Some (repo_part, hash_hex) \<Rightarrow>
     (case split_once (CHR ''/'') repo_part of
        None \<Rightarrow> Inl MissingRepo
      | Some (namespace, repo) \<Rightarrow>
        if CHR ''/'' \<in> set repo then Inl NestedRepo
        else if namespace = [] \<or> repo = [] then Inl EmptyPart
        else (case hash_from_hex hash_hex of
                None \<Rightarrow> Inl BadHash
              | Some h \<Rightarrow>
                  Inr \<lparr>sc_namespace = namespace, sc_repo = repo, sc_hash = h\<rparr>))))"

definition to_uri :: "(blake3_hash \<Rightarrow> string) \<Rightarrow> spacetime_coordinate \<Rightarrow> string" where
  "to_uri hash_hex c =
     ''arc://'' @ sc_namespace c @ ''/'' @ sc_repo c @ ''@'' @ hash_hex (sc_hash c)"

section \<open>Atoms\<close>

datatype atom =
    Insert node_path blake3_hash
  | Delete node_path blake3_hash
  | Move node_path node_path
  | SemanticsPreserving node_path string
  | Directory node_path
  | Blob string blake3_hash u64
  | Mount node_path spacetime_coordinate
  | Conflict "blake3_hash list" "blake3_hash list" node_path

fun paths :: "atom \<Rightarrow> node_path list" where
  "paths (Insert at h) = [at]"
| "paths (Delete at h) = [at]"
| "paths (Move frm to) = [frm, to]"
| "paths (SemanticsPreserving at d) = [at]"
| "paths (Directory p) = [p]"
| "paths (Blob p h n) = []"
| "paths (Mount p c) = [p]"
| "paths (Conflict bases sides at) = [at]"

fun atom_display :: "(blake3_hash \<Rightarrow> string) \<Rightarrow> atom \<Rightarrow> string" where
  "atom_display hx (Insert at h) = ''Insert '' @ join ''/'' at"
| "atom_display hx (Delete at h) = ''Delete '' @ join ''/'' at"
| "atom_display hx (Move frm to) = ''Move '' @ join ''/'' frm @ '' -> '' @ join ''/'' to"
| "atom_display hx (SemanticsPreserving at d) =
     ''SemanticsPreserving '' @ join ''/'' at @ '' '' @ d"
| "atom_display hx (Directory p) = ''Directory '' @ join ''/'' p"
| "atom_display hx (Blob p h n) = ''Blob '' @ p @ '' '' @ nat_dec (unat n) @ ''B''"
| "atom_display hx (Mount p c) = ''Mount '' @ join ''/'' p @ '' '' @ to_uri hx c"
| "atom_display hx (Conflict bases sides at) =
     ''Conflict '' @ nat_dec (length bases) @ ''/'' @ nat_dec (length sides) @ '' ''
       @ join ''/'' at"

text \<open>The \<^verbatim>\<open>matches!(_, Atom::Move { .. })\<close> test.\<close>

fun is_move :: "atom \<Rightarrow> bool" where
  "is_move (Move frm to) = True"
| "is_move _ = False"

section \<open>Lemmas\<close>

text \<open>The coordinates that have a text form.\<close>

definition coordinate_ok :: "spacetime_coordinate \<Rightarrow> bool" where
  "coordinate_ok c \<longleftrightarrow> sc_namespace c \<noteq> [] \<and> sc_repo c \<noteq> [] \<and>
     CHR ''/'' \<notin> set (sc_namespace c) \<and> CHR ''/'' \<notin> set (sc_repo c) \<and>
     CHR ''@'' \<notin> set (sc_namespace c) \<and> CHR ''@'' \<notin> set (sc_repo c)"

lemma from_uri_Inr_iff:
  "from_uri unhex uri = Inr c \<longleftrightarrow>
   coordinate_ok c \<and> (\<exists>t. unhex t = Some (sc_hash c) \<and>
     uri = ''arc://'' @ sc_namespace c @ ''/'' @ sc_repo c @ ''@'' @ t)" (is "?L \<longleftrightarrow> ?R")
proof
  assume ?L
  then show ?R
    by (auto simp: from_uri_def coordinate_ok_def strip_prefix_Some_iff split_once_Some_iff
        split: option.splits if_splits)
next
  assume ?R
  then obtain t where ok: "coordinate_ok c" and t: "unhex t = Some (sc_hash c)"
    and uri: "uri = ''arc://'' @ (sc_namespace c @ CHR ''/'' # sc_repo c) @ CHR ''@'' # t"
    by auto
  from ok have "split_once (CHR ''@'') ((sc_namespace c @ CHR ''/'' # sc_repo c) @ CHR ''@'' # t)
      = Some (sc_namespace c @ CHR ''/'' # sc_repo c, t)"
    by (intro split_once_append) (simp add: coordinate_ok_def)
  moreover from ok have "split_once (CHR ''/'') (sc_namespace c @ CHR ''/'' # sc_repo c)
      = Some (sc_namespace c, sc_repo c)"
    by (intro split_once_append) (simp add: coordinate_ok_def)
  ultimately show ?L
    using ok t unfolding from_uri_def uri strip_prefix_append by (simp add: coordinate_ok_def)
qed

text \<open>
  Parsing the rendering of a coordinate gives the coordinate back exactly when its
  namespace and repository name are non-empty and free of the two separators; the only
  thing assumed of the \<^verbatim>\<open>blake3\<close> crate is that it parses its own hexadecimal rendering.
\<close>

theorem coordinate_uri_roundtrip:
  assumes "unhex (hx (sc_hash c)) = Some (sc_hash c)"
  shows "from_uri unhex (to_uri hx c) = Inr c \<longleftrightarrow> coordinate_ok c"
proof
  assume "coordinate_ok c"
  with assms show "from_uri unhex (to_uri hx c) = Inr c"
    unfolding from_uri_Inr_iff to_uri_def by blast
qed (simp add: from_uri_Inr_iff)

definition sample_coordinate :: spacetime_coordinate where
  "sample_coordinate =
     \<lparr>sc_namespace = ''org'', sc_repo = ''repo'', sc_hash = replicate 32 0xAA\<rparr>"

theorem coordinate_uri_roundtrip_witness:
  "from_uri (\<lambda>t. case decode_hex_32 t of Inl e \<Rightarrow> None | Inr h \<Rightarrow> Some h)
     (to_uri hash_to_hex sample_coordinate) = Inr sample_coordinate"
proof -
  have "wf_hash (sc_hash sample_coordinate)"
    by (simp add: sample_coordinate_def wf_hash_def)
  then have h: "(case decode_hex_32 (hash_to_hex (sc_hash sample_coordinate)) of
      Inl e \<Rightarrow> None | Inr h \<Rightarrow> Some h) = Some (sc_hash sample_coordinate)"
    by simp
  have "coordinate_ok sample_coordinate"
    by (simp add: coordinate_ok_def sample_coordinate_def)
  then show ?thesis
    using coordinate_uri_roundtrip
      [of "\<lambda>t. case decode_hex_32 t of Inl e \<Rightarrow> None | Inr h \<Rightarrow> Some h" hash_to_hex,
        OF h] by simp
qed

end
