(* ===== verification/Changes.thy ===== *)
theory Changes
  imports Atoms
begin

text \<open>
  Changes, their authors and their content-addressed identity
  (\<^verbatim>\<open>arc-change/src/change.rs\<close>, \<^verbatim>\<open>arc-store-types/src/author.rs\<close>).

  BLAKE3, bincode and Ed25519 are third-party crates.  They appear as the fields of the
  record \<open>crypto\<close>, a parameter of every definition that hashes, serialises, signs or
  verifies; theorems state what they need of them as hypotheses.
\<close>

section \<open>Authors\<close>

type_synonym public_key = bytes
type_synonym signature = bytes

datatype author =
    Human string string public_key
  | AI string public_key
  | Server string public_key
  | Transient string public_key

text \<open>
  The confidence of an AI author is an \<^verbatim>\<open>f32\<close>; the code compares it by \<^verbatim>\<open>to_bits\<close>, so it is
  kept as its bit pattern and the equality of the datatype is the equality of the code.
\<close>

datatype author_type =
    HumanType
  | AIType u32 "public_key option"

text \<open>The \<^verbatim>\<open>matches!(author, Author::AI { .. })\<close> test.\<close>

fun is_ai :: "author \<Rightarrow> bool" where
  "is_ai (AI model sponsor) = True"
| "is_ai _ = False"

section \<open>Changes\<close>

record change =
  ch_id :: blake3_hash
  ch_deps :: "blake3_hash fset"
  ch_atoms :: "atom list"
  ch_intent :: string
  ch_author :: author
  ch_signature :: signature
  ch_collapsed_from :: "blake3_hash option"
  ch_author_type :: author_type
  ch_is_ghost :: bool

text \<open>What the change id is computed from: sorted dependencies, atoms, intent, author.\<close>

type_synonym id_payload = "blake3_hash list \<times> atom list \<times> string \<times> author"

record 'sk crypto =
  blake3 :: "bytes \<Rightarrow> blake3_hash"
  bincode_id_payload :: "id_payload \<Rightarrow> bytes"
  ed_sign :: "'sk \<Rightarrow> blake3_hash \<Rightarrow> signature"
  ed_key_ok :: "public_key \<Rightarrow> bool"
  ed_verify :: "public_key \<Rightarrow> blake3_hash \<Rightarrow> signature \<Rightarrow> bool"
  ed_from_seed :: "bytes \<Rightarrow> 'sk"

fun canonicalize_atom :: "atom \<Rightarrow> atom" where
  "canonicalize_atom (Conflict bases sides at) = Conflict bases (sort sides) at"
| "canonicalize_atom a = a"

definition canonicalize_atoms_for_id :: "atom list \<Rightarrow> atom list" where
  "canonicalize_atoms_for_id atoms = List.map canonicalize_atom atoms"

definition id_payload_of ::
  "blake3_hash fset \<Rightarrow> atom list \<Rightarrow> string \<Rightarrow> author \<Rightarrow> id_payload" where
  "id_payload_of deps atoms intent author =
     (sorted_list_of_fset deps, canonicalize_atoms_for_id atoms, intent, author)"

definition compute_id ::
  "('sk, 'x) crypto_scheme \<Rightarrow> blake3_hash fset \<Rightarrow> atom list \<Rightarrow> string \<Rightarrow> author \<Rightarrow> blake3_hash"
where
  "compute_id K deps atoms intent author =
     blake3 K (bincode_id_payload K (id_payload_of deps atoms intent author))"

definition new_with_metadata ::
  "('sk, 'x) crypto_scheme \<Rightarrow> blake3_hash fset \<Rightarrow> atom list \<Rightarrow> string \<Rightarrow> author \<Rightarrow>
   author_type \<Rightarrow> bool \<Rightarrow> 'sk \<Rightarrow> change" where
  "new_with_metadata K deps atoms intent author author_type is_ghost sk =
     (let i = compute_id K deps atoms intent author
      in \<lparr>ch_id = i, ch_deps = deps, ch_atoms = atoms, ch_intent = intent,
          ch_author = author, ch_signature = ed_sign K sk i, ch_collapsed_from = None,
          ch_author_type = author_type, ch_is_ghost = is_ghost\<rparr>)"

definition change_new ::
  "('sk, 'x) crypto_scheme \<Rightarrow> blake3_hash fset \<Rightarrow> atom list \<Rightarrow> string \<Rightarrow> author \<Rightarrow> 'sk \<Rightarrow> change"
where
  "change_new K deps atoms intent author sk =
     new_with_metadata K deps atoms intent author HumanType False sk"

definition rewritten_or_resigned ::
  "('sk, 'x) crypto_scheme \<Rightarrow> change \<Rightarrow> blake3_hash fset \<Rightarrow> atom list \<Rightarrow> string \<Rightarrow> author \<Rightarrow>
   'sk \<Rightarrow> change" where
  "rewritten_or_resigned K original deps atoms intent author sk =
     (let i = compute_id K deps atoms intent author
      in if i = ch_id original \<and> author = ch_author original
         then \<lparr>ch_id = i, ch_deps = deps, ch_atoms = atoms, ch_intent = intent,
               ch_author = author, ch_signature = ch_signature original,
               ch_collapsed_from = ch_collapsed_from original,
               ch_author_type = ch_author_type original,
               ch_is_ghost = ch_is_ghost original\<rparr>
         else \<lparr>ch_id = i, ch_deps = deps, ch_atoms = atoms, ch_intent = intent,
               ch_author = author, ch_signature = ed_sign K sk i,
               ch_collapsed_from = ch_collapsed_from original,
               ch_author_type = ch_author_type original,
               ch_is_ghost = ch_is_ghost original\<rparr>)"

definition new_canonical ::
  "('sk, 'x) crypto_scheme \<Rightarrow> blake3_hash fset \<Rightarrow> atom list \<Rightarrow> string \<Rightarrow> author \<Rightarrow> 'sk \<Rightarrow>
   blake3_hash \<Rightarrow> change" where
  "new_canonical K deps atoms intent author sk original_id =
     (let i = compute_id K deps atoms intent author
      in \<lparr>ch_id = i, ch_deps = deps, ch_atoms = atoms, ch_intent = intent,
          ch_author = author, ch_signature = ed_sign K sk i,
          ch_collapsed_from = Some original_id, ch_author_type = HumanType,
          ch_is_ghost = False\<rparr>)"

definition new_canonical_from_seed ::
  "('sk, 'x) crypto_scheme \<Rightarrow> blake3_hash fset \<Rightarrow> atom list \<Rightarrow> string \<Rightarrow> author \<Rightarrow> bytes \<Rightarrow>
   blake3_hash \<Rightarrow> change" where
  "new_canonical_from_seed K deps atoms intent author seed original_id =
     new_canonical K deps atoms intent author (ed_from_seed K seed) original_id"

text \<open>The key that vouches for a change: the human sponsor's for an AI author.\<close>

fun author_key :: "author \<Rightarrow> public_key" where
  "author_key (Human name email key) = key"
| "author_key (AI model human_sponsor) = human_sponsor"
| "author_key (Server canonical_id key) = key"
| "author_key (Transient session_id key) = key"

definition verify_signature :: "('sk, 'x) crypto_scheme \<Rightarrow> change \<Rightarrow> bool" where
  "verify_signature K c =
     (if compute_id K (ch_deps c) (ch_atoms c) (ch_intent c) (ch_author c) \<noteq> ch_id c
      then False
      else if \<not> ed_key_ok K (author_key (ch_author c)) then False
      else ed_verify K (author_key (ch_author c)) (ch_id c) (ch_signature c))"

definition erased :: "change \<Rightarrow> change" where
  "erased c =
     \<lparr>ch_id = ch_id c, ch_deps = {||}, ch_atoms = [], ch_intent = [],
      ch_author = ch_author c, ch_signature = ch_signature c,
      ch_collapsed_from = ch_collapsed_from c, ch_author_type = ch_author_type c,
      ch_is_ghost = ch_is_ghost c\<rparr>"

section \<open>Canonical form\<close>

text \<open>Equality of atoms up to the order of the sides of a conflict.\<close>

definition same_atom :: "atom \<Rightarrow> atom \<Rightarrow> bool" where
  "same_atom a b \<longleftrightarrow>
     (case a of
        Conflict b1 s1 p1 \<Rightarrow> (case b of
            Conflict b2 s2 p2 \<Rightarrow> b1 = b2 \<and> mset s1 = mset s2 \<and> p1 = p2
          | _ \<Rightarrow> False)
      | _ \<Rightarrow> a = b)"

lemma canonicalize_atom_eq_iff: "canonicalize_atom a = canonicalize_atom b \<longleftrightarrow> same_atom a b"
proof -
  have eq: "sort s = sort t \<longleftrightarrow> mset s = mset t" for s t :: "blake3_hash list"
  proof
    assume "sort s = sort t"
    then have "mset (sort s) = mset (sort t)" by simp
    then show "mset s = mset t" by simp
  qed (intro properties_for_sort, simp_all)
  show ?thesis
    by (cases a; cases b; simp add: same_atom_def eq)
qed

lemma canonicalize_atoms_eq_iff:
  "canonicalize_atoms_for_id xs = canonicalize_atoms_for_id ys \<longleftrightarrow> list_all2 same_atom xs ys"
proof (induction xs arbitrary: ys)
  case (Cons x xs)
  then show ?case
    by (cases ys) (auto simp: canonicalize_atoms_for_id_def canonicalize_atom_eq_iff)
qed (auto simp: canonicalize_atoms_for_id_def)

lemma sorted_list_of_fset_inject [simp]:
  "sorted_list_of_fset S = sorted_list_of_fset T \<longleftrightarrow> S = T"
  by (metis sorted_list_of_fset_simps(2))

lemma id_payload_eq_iff:
  "id_payload_of d a i u = id_payload_of d' a' i' u' \<longleftrightarrow>
   d = d' \<and> list_all2 same_atom a a' \<and> i = i' \<and> u = u'"
  by (auto simp: id_payload_of_def canonicalize_atoms_eq_iff)

text \<open>
  No collision between two payloads: what the code relies on BLAKE3 and bincode for,
  stated for the two payloads at hand.
\<close>

definition no_collision :: "('sk, 'x) crypto_scheme \<Rightarrow> id_payload \<Rightarrow> id_payload \<Rightarrow> bool" where
  "no_collision K p q \<longleftrightarrow>
     (blake3 K (bincode_id_payload K p) = blake3 K (bincode_id_payload K q) \<longrightarrow> p = q)"

definition change_payload :: "change \<Rightarrow> id_payload" where
  "change_payload c = id_payload_of (ch_deps c) (ch_atoms c) (ch_intent c) (ch_author c)"

lemma compute_id_eq_iff:
  "no_collision K (id_payload_of d a i u) (id_payload_of d' a' i' u') \<Longrightarrow>
   compute_id K d a i u = compute_id K d' a' i' u' \<longleftrightarrow>
   d = d' \<and> list_all2 same_atom a a' \<and> i = i' \<and> u = u'"
  unfolding compute_id_def no_collision_def by (metis id_payload_eq_iff)

lemma verify_signature_id:
  "verify_signature K c \<Longrightarrow> ch_id c = blake3 K (bincode_id_payload K (change_payload c))"
  by (simp add: verify_signature_def compute_id_def change_payload_def split: if_splits)

lemma verified_same_content:
  assumes "verify_signature K c" and "verify_signature K c'" and "ch_id c = ch_id c'"
    and "no_collision K (change_payload c) (change_payload c')"
  shows "ch_deps c = ch_deps c' \<and> list_all2 same_atom (ch_atoms c) (ch_atoms c') \<and>
    ch_intent c = ch_intent c' \<and> ch_author c = ch_author c'"
  using assms verify_signature_id [OF assms(1)] verify_signature_id [OF assms(2)]
  unfolding no_collision_def change_payload_def by (metis id_payload_eq_iff)

text \<open>
  A toy instance of the cryptographic interface for the witnesses: payloads are told apart
  by intent, number of dependencies and number of atoms; keys sign by prefixing.
\<close>

definition toy_crypto :: "bytes crypto" where
  "toy_crypto =
     \<lparr>blake3 = (\<lambda>bs. bs),
      bincode_id_payload = (\<lambda>(deps, atoms, intent, author).
        [word_of_nat (length deps), word_of_nat (length atoms)] @ str_bytes intent),
      ed_sign = (\<lambda>sk m. sk @ m), ed_key_ok = (\<lambda>pk. pk \<noteq> []),
      ed_verify = (\<lambda>pk m sig. sig = pk @ m), ed_from_seed = (\<lambda>seed. seed)\<rparr>"

section \<open>Identity\<close>

text \<open>
  The id is content-addressed and independent of merge order: barring a hash collision
  between the two payloads, two computed ids are equal exactly when dependencies, intent
  and author agree and the atoms agree up to the order of the sides of each conflict.
\<close>

theorem change_identity:
  assumes "no_collision K (id_payload_of d a i u) (id_payload_of d' a' i' u')"
  shows "compute_id K d a i u = compute_id K d' a' i' u' \<longleftrightarrow>
    d = d' \<and> list_all2 same_atom a a' \<and> i = i' \<and> u = u'"
  using assms by (rule compute_id_eq_iff)

theorem change_identity_witness:
  "compute_id toy_crypto {||} [Conflict [] [[2], [1]] [''f'']] ''m'' (AI ''x'' [7])
     = compute_id toy_crypto {||} [Conflict [] [[1], [2]] [''f'']] ''m'' (AI ''x'' [7])"
proof -
  have "no_collision toy_crypto
      (id_payload_of {||} [Conflict [] [[2], [1]] [''f'']] ''m'' (AI ''x'' [7]))
      (id_payload_of {||} [Conflict [] [[1], [2]] [''f'']] ''m'' (AI ''x'' [7]))"
    by (simp add: no_collision_def id_payload_eq_iff same_atom_def)
  from change_identity [OF this] show ?thesis by (simp add: same_atom_def)
qed

text \<open>
  C33.  Tamper evidence: two changes that both pass verification and carry the same id are
  the same content (barring a collision between their payloads), so no field covered by
  the id can be replaced under it.
\<close>

theorem verified_content_unique:
  assumes "verify_signature K c" and "verify_signature K c'" and "ch_id c = ch_id c'"
    and "no_collision K (change_payload c) (change_payload c')"
  shows "ch_deps c = ch_deps c' \<and> list_all2 same_atom (ch_atoms c) (ch_atoms c') \<and>
    ch_intent c = ch_intent c' \<and> ch_author c = ch_author c'"
  using assms by (rule verified_same_content)

definition sample_change :: change where
  "sample_change = change_new toy_crypto {||} [Insert [''f''] [1]] ''m'' (Human ''n'' ''e'' [7]) [7]"

theorem verified_content_unique_witness:
  "ch_atoms (sample_change\<lparr>ch_is_ghost := True\<rparr>) \<noteq> [] \<and>
   list_all2 same_atom (ch_atoms sample_change) (ch_atoms (sample_change\<lparr>ch_is_ghost := True\<rparr>))"
proof -
  have v: "verify_signature toy_crypto sample_change"
    "verify_signature toy_crypto (sample_change\<lparr>ch_is_ghost := True\<rparr>)"
    by (simp_all add: verify_signature_def sample_change_def change_new_def new_with_metadata_def
        Let_def toy_crypto_def)
  have "no_collision toy_crypto (change_payload sample_change)
      (change_payload (sample_change\<lparr>ch_is_ghost := True\<rparr>))"
    by (simp add: no_collision_def change_payload_def)
  from verified_content_unique [OF v _ this] show ?thesis
    by (simp add: sample_change_def change_new_def new_with_metadata_def Let_def)
qed

section \<open>Signing\<close>

lemmas constructor_defs = change_new_def new_with_metadata_def new_canonical_def
  new_canonical_from_seed_def rewritten_or_resigned_def Let_def

text \<open>The signing key belongs to the author, for the Ed25519 operations of \<open>K\<close>.\<close>

definition key_of_author :: "('sk, 'x) crypto_scheme \<Rightarrow> 'sk \<Rightarrow> author \<Rightarrow> bool" where
  "key_of_author K sk author \<longleftrightarrow> ed_key_ok K (author_key author) \<and>
     (\<forall>m. ed_verify K (author_key author) m (ed_sign K sk m))"

lemma change_new_simps [simp]:
  "ch_deps (change_new K d a i u sk) = d"
  "ch_atoms (change_new K d a i u sk) = a"
  "ch_intent (change_new K d a i u sk) = i"
  "ch_author (change_new K d a i u sk) = u"
  "ch_id (change_new K d a i u sk) = compute_id K d a i u"
  by (simp_all add: constructor_defs)

lemma rewritten_or_resigned_simps [simp]:
  "ch_deps (rewritten_or_resigned K c d a i u sk) = d"
  "ch_atoms (rewritten_or_resigned K c d a i u sk) = a"
  "ch_intent (rewritten_or_resigned K c d a i u sk) = i"
  "ch_author (rewritten_or_resigned K c d a i u sk) = u"
  "ch_id (rewritten_or_resigned K c d a i u sk) = compute_id K d a i u"
  "ch_collapsed_from (rewritten_or_resigned K c d a i u sk) = ch_collapsed_from c"
  "ch_author_type (rewritten_or_resigned K c d a i u sk) = ch_author_type c"
  "ch_is_ghost (rewritten_or_resigned K c d a i u sk) = ch_is_ghost c"
  by (simp_all add: constructor_defs)

lemma verify_change_new: "key_of_author K sk u \<Longrightarrow> verify_signature K (change_new K d a i u sk)"
  by (simp add: verify_signature_def constructor_defs key_of_author_def)

lemma verify_rewritten_or_resigned:
  "key_of_author K sk u \<Longrightarrow> verify_signature K c \<Longrightarrow>
   verify_signature K (rewritten_or_resigned K c d a i u sk)"
  by (auto simp: verify_signature_def constructor_defs key_of_author_def split: if_splits)

text \<open>
  Every constructor produces a change that verifies, when the signing key belongs to
  the author; a rewrite verifies when, in addition, the change it rewrites did, and it
  keeps the provenance metadata and, for an unchanged payload, the original signature.
\<close>

theorem constructors_verify:
  assumes "key_of_author K sk u"
  shows "verify_signature K (new_with_metadata K d a i u t g sk) \<and>
    verify_signature K (new_canonical K d a i u sk orig) \<and>
    (verify_signature K c \<longrightarrow>
       verify_signature K (rewritten_or_resigned K c d a i u sk) \<and>
       (compute_id K d a i u = ch_id c \<and> u = ch_author c \<longrightarrow>
          ch_signature (rewritten_or_resigned K c d a i u sk) = ch_signature c))"
  using assms verify_rewritten_or_resigned [OF assms]
  by (auto simp: verify_signature_def constructor_defs key_of_author_def)

theorem constructors_verify_witness:
  "verify_signature toy_crypto
     (new_canonical toy_crypto {|[1]|} [] ''m'' (Server ''s'' [9]) [9] [3])"
proof -
  have "key_of_author toy_crypto [9] (Server ''s'' [9])"
    by (simp add: key_of_author_def toy_crypto_def)
  from constructors_verify [OF this] show ?thesis by blast
qed

text \<open>
  A tombstone keeps the id but not the content: the erasure of a verified change
  verifies only if the change was already empty (barring a collision with the empty
  payload), so an erased payload can never pass for the original one.
\<close>

theorem erased_does_not_verify:
  assumes "verify_signature K c"
    and "no_collision K (change_payload c) (change_payload (erased c))"
  shows "verify_signature K (erased c) \<longleftrightarrow> erased c = c"
proof
  assume "verify_signature K (erased c)"
  from verified_same_content [OF assms(1) this _ assms(2)]
  show "erased c = c" by (cases c) (auto simp: erased_def)
qed (simp add: assms(1))

theorem erased_does_not_verify_witness: "\<not> verify_signature toy_crypto (erased sample_change)"
proof -
  have v: "verify_signature toy_crypto sample_change"
    by (simp add: verify_signature_def sample_change_def change_new_def new_with_metadata_def
        Let_def toy_crypto_def)
  have "no_collision toy_crypto (change_payload sample_change)
      (change_payload (erased sample_change))"
    by (simp add: no_collision_def change_payload_def id_payload_of_def sample_change_def
        erased_def constructor_defs toy_crypto_def canonicalize_atoms_for_id_def)
  from erased_does_not_verify [OF v this] show ?thesis
    by (simp add: sample_change_def erased_def constructor_defs)
qed

end
