(* ===== verification/ContentHash.thy ===== *)
theory ContentHash
  imports Changes
begin

text \<open>
  The field-level hashing contract \<^verbatim>\<open>ContentHash\<close> (\<^verbatim>\<open>arc-change/src/content_hash.rs\<close>).
  \<^verbatim>\<open>hash_update\<close> appends bytes to an incremental BLAKE3 hasher, so an implementation is the
  byte string it feeds; \<^verbatim>\<open>content_hash\<close> hashes that string from a fresh hasher.
\<close>

type_synonym 'a hash_update = "'a \<Rightarrow> bytes"

definition content_hash :: "(bytes \<Rightarrow> blake3_hash) \<Rightarrow> 'a hash_update \<Rightarrow> 'a \<Rightarrow> blake3_hash" where
  "content_hash blake3_of upd x = blake3_of (upd x)"

text \<open>\<^verbatim>\<open>to_le_bytes\<close>.\<close>

definition to_le_bytes :: "'a :: len word \<Rightarrow> bytes" where
  "to_le_bytes w = List.map (\<lambda>i. ucast (drop_bit (8 * i) w)) [0 ..< LENGTH('a) div 8]"

definition hu_bool :: "bool hash_update" where
  "hu_bool b = [if b then 1 else 0]"

definition hu_u8 :: "u8 hash_update" where
  "hu_u8 w = [w]"

definition hu_u16 :: "u16 hash_update" where
  "hu_u16 w = to_le_bytes w"

definition hu_u32 :: "u32 hash_update" where
  "hu_u32 w = to_le_bytes w"

definition hu_u64 :: "u64 hash_update" where
  "hu_u64 w = to_le_bytes w"

text \<open>Signed integers feed the bytes of their two's complement representation.\<close>

definition hu_i32 :: "u32 hash_update" where
  "hu_i32 w = to_le_bytes w"

definition hu_i64 :: "u64 hash_update" where
  "hu_i64 w = to_le_bytes w"

definition hu_usize :: "nat hash_update" where
  "hu_usize n = hu_u64 (word_of_nat n)"

definition hu_serialized :: "('a \<Rightarrow> bytes) \<Rightarrow> 'a hash_update" where
  "hu_serialized bincode x = (let bs = bincode x in hu_u64 (word_of_nat (length bs)) @ bs)"

definition hu_array :: "bytes hash_update" where
  "hu_array bs = hu_u64 (word_of_nat (length bs)) @ bs"

definition hu_str :: "string hash_update" where
  "hu_str s = (let bs = str_bytes s in hu_u64 (word_of_nat (length bs)) @ bs)"

definition hu_slice :: "'a hash_update \<Rightarrow> 'a list hash_update" where
  "hu_slice upd xs = hu_u64 (word_of_nat (length xs)) @ concat (List.map upd xs)"

definition hu_option :: "'a hash_update \<Rightarrow> 'a option hash_update" where
  "hu_option upd v = (case v of None \<Rightarrow> hu_u8 0 | Some x \<Rightarrow> hu_u8 1 @ upd x)"

text \<open>A hash set, given as its elements in the iteration order of the run.\<close>

definition hu_hashset :: "(bytes \<Rightarrow> blake3_hash) \<Rightarrow> 'a hash_update \<Rightarrow> 'a list hash_update" where
  "hu_hashset blake3_of upd xs =
     (let digests = sort (List.map (content_hash blake3_of upd) xs)
      in hu_u64 (word_of_nat (length digests)) @ concat (List.map hu_array digests))"

section \<open>Self-delimiting updates\<close>

text \<open>
  Clients concatenate the updates of several fields.  What makes that unambiguous is that
  an update is self-delimiting: from a stream that starts with it, both the value and the
  rest can be recovered.
\<close>

locale self_delimiting =
  fixes upd :: "'a hash_update"
    and ok :: "'a \<Rightarrow> bool"
  assumes delimited:
    "ok x \<Longrightarrow> ok y \<Longrightarrow> upd x @ s = upd y @ t \<Longrightarrow> x = y \<and> s = t"
begin

lemma inject:
  assumes "ok x" and "ok y"
  shows "upd x = upd y \<longleftrightarrow> x = y"
proof
  assume "upd x = upd y"
  then have "upd x @ [] = upd y @ []" by (rule arg_cong)
  with assms show "x = y" by (blast dest: delimited)
qed (rule arg_cong)

lemma concat_delimited:
  "list_all ok xs \<Longrightarrow> list_all ok ys \<Longrightarrow> length xs = length ys \<Longrightarrow>
   concat (List.map upd xs) @ s = concat (List.map upd ys) @ t \<Longrightarrow> xs = ys \<and> s = t"
proof (induction xs arbitrary: ys)
  case (Cons x xs)
  from Cons.prems(3) obtain y zs where ys: "ys = y # zs" by (cases ys) auto
  with Cons.prems have "upd x @ (concat (List.map upd xs) @ s) = upd y @ (concat (List.map upd zs) @ t)"
    by simp
  moreover from Cons.prems ys have "ok x" "ok y" by simp_all
  ultimately have "x = y"
    and "concat (List.map upd xs) @ s = concat (List.map upd zs) @ t"
    by (blast dest: delimited)+
  with Cons.IH Cons.prems ys show ?case by auto
qed simp

lemma option_delimited:
  assumes "pred_option ok x" and "pred_option ok y"
    and "hu_option upd x @ s = hu_option upd y @ t"
  shows "x = y \<and> s = t"
proof (cases x)
  case None
  with assms(3) show ?thesis by (cases y) (simp_all add: hu_option_def hu_u8_def)
next
  case (Some a)
  with assms(3) obtain b where y: "y = Some b" and "upd a @ s = upd b @ t"
    by (cases y) (simp_all add: hu_option_def hu_u8_def)
  moreover from Some y assms(1,2) have "ok a" "ok b" by simp_all
  ultimately show ?thesis using Some delimited [of a b s t] by simp
qed

text \<open>Equal content hashes mean equal values, unless BLAKE3 collides on these inputs.\<close>

lemma content_hash_inject:
  assumes "ok x" and "ok y" and "blake3_of (upd x) = blake3_of (upd y) \<Longrightarrow> upd x = upd y"
  shows "content_hash blake3_of upd x = content_hash blake3_of upd y \<longleftrightarrow> x = y"
  unfolding content_hash_def using assms(3) inject [OF assms(1,2)] by blast

end

lemma length_to_le_bytes [simp]: "length (to_le_bytes (w :: 'a :: len word)) = LENGTH('a) div 8"
  by (simp add: to_le_bytes_def)

lemma to_le_bytes_inject:
  assumes "8 dvd LENGTH('a :: len)" and "to_le_bytes (v :: 'a word) = to_le_bytes w"
  shows "v = w"
proof (rule bit_word_eqI)
  fix n assume n: "n < LENGTH('a)"
  then have i: "n div 8 < LENGTH('a) div 8"
    using assms(1) by (auto elim!: dvdE)
  from arg_cong [OF assms(2), of "\<lambda>bs. bs ! (n div 8)"] i
  have "(ucast (drop_bit (8 * (n div 8)) v) :: u8) = ucast (drop_bit (8 * (n div 8)) w)"
    by (simp add: to_le_bytes_def)
  from arg_cong [OF this, of "\<lambda>b. bit b (n mod 8)"]
  show "bit v n = bit w n" by (simp add: bit_simps)
qed

lemma self_delimiting_le:
  "8 dvd LENGTH('a) \<Longrightarrow> self_delimiting (to_le_bytes :: 'a :: len word \<Rightarrow> bytes) (\<lambda>_. True)"
  by unfold_locales (metis append_eq_append_conv length_to_le_bytes to_le_bytes_inject)

interpretation hu16: self_delimiting hu_u16 "\<lambda>_. True"
  using self_delimiting_le [where 'a = 16] by (simp add: hu_u16_def [abs_def])

interpretation hu32: self_delimiting hu_u32 "\<lambda>_. True"
  using self_delimiting_le [where 'a = 32] by (simp add: hu_u32_def [abs_def])

interpretation hu64: self_delimiting hu_u64 "\<lambda>_. True"
  using self_delimiting_le [where 'a = 64] by (simp add: hu_u64_def [abs_def])

interpretation hu8: self_delimiting hu_u8 "\<lambda>_. True"
  by unfold_locales (simp add: hu_u8_def)

interpretation hubool: self_delimiting hu_bool "\<lambda>_. True"
  by unfold_locales (simp add: hu_bool_def split: if_splits)

text \<open>A length fits the \<^verbatim>\<open>u64\<close> prefix: no vector of the program is longer.\<close>

definition fits_u64 :: "nat \<Rightarrow> bool" where
  "fits_u64 n \<longleftrightarrow> n < 2 ^ 64"

lemma length_prefix_delimited:
  assumes "fits_u64 m" "fits_u64 n"
    and "hu_u64 (word_of_nat m) @ s = hu_u64 (word_of_nat n) @ t"
  shows "m = n \<and> s = t"
proof -
  from hu64.delimited [OF _ _ assms(3)]
  have "(word_of_nat m :: u64) = word_of_nat n" and "s = t" by auto
  moreover from this(1) have "m = n"
    using assms(1,2) by (simp add: fits_u64_def word_of_nat_eq_iff take_bit_nat_eq_self)
  ultimately show ?thesis by simp
qed

context self_delimiting
begin

lemma slice_delimited:
  assumes "fits_u64 (length xs)" "list_all ok xs" "fits_u64 (length ys)" "list_all ok ys"
    and "hu_slice upd xs @ s = hu_slice upd ys @ t"
  shows "xs = ys \<and> s = t"
proof -
  from assms(5) have "hu_u64 (word_of_nat (length xs)) @ (concat (List.map upd xs) @ s)
      = hu_u64 (word_of_nat (length ys)) @ (concat (List.map upd ys) @ t)"
    by (simp add: hu_slice_def)
  from length_prefix_delimited [OF assms(1,3) this]
  show ?thesis using concat_delimited [OF assms(2,4)] by blast
qed

end

lemma self_delimiting_slice:
  "self_delimiting upd ok \<Longrightarrow>
   self_delimiting (hu_slice upd) (\<lambda>xs. fits_u64 (length xs) \<and> list_all ok xs)"
  by (rule self_delimiting.intro) (blast dest: self_delimiting.slice_delimited)

lemma self_delimiting_option:
  "self_delimiting upd ok \<Longrightarrow> self_delimiting (hu_option upd) (pred_option ok)"
  by (rule self_delimiting.intro) (blast dest: self_delimiting.option_delimited)

interpretation huarr: self_delimiting hu_array "\<lambda>bs. fits_u64 (length bs)"
proof
  fix x y s t :: bytes
  assume ok: "fits_u64 (length x)" "fits_u64 (length y)" and eq: "hu_array x @ s = hu_array y @ t"
  from eq have "hu_u64 (word_of_nat (length x)) @ (x @ s) = hu_u64 (word_of_nat (length y)) @ (y @ t)"
    by (simp add: hu_array_def)
  from length_prefix_delimited [OF ok this] have "length x = length y" "x @ s = y @ t" by simp_all
  then show "x = y \<and> s = t" by simp
qed

interpretation hustr: self_delimiting hu_str "\<lambda>s. fits_u64 (length s)"
proof
  fix x y :: string and s t
  assume ok: "fits_u64 (length x)" "fits_u64 (length y)" and eq: "hu_str x @ s = hu_str y @ t"
  have "hu_str z = hu_array (str_bytes z)" for z by (simp add: hu_str_def hu_array_def Let_def)
  with eq show "x = y \<and> s = t"
    using huarr.delimited [of "str_bytes x" "str_bytes y" s t] ok by simp
qed

text \<open>
  Updates compose without ambiguity: from a stream that starts with the update of a
  list of optional strings (two levels of length prefix and tag) both the list and the rest
  of the stream are determined.
\<close>

theorem string_list_update_delimited:
  assumes "fits_u64 (length xs)" "list_all (pred_option (\<lambda>s. fits_u64 (length s))) xs"
    and "fits_u64 (length ys)" "list_all (pred_option (\<lambda>s. fits_u64 (length s))) ys"
    and "hu_slice (hu_option hu_str) xs @ s = hu_slice (hu_option hu_str) ys @ t"
  shows "xs = ys \<and> s = t"
  by (rule self_delimiting.delimited
      [OF self_delimiting_slice [OF self_delimiting_option [OF hustr.self_delimiting_axioms]]])
    (use assms in simp_all)

theorem string_list_update_delimited_witness:
  "hu_slice (hu_option hu_str) [Some ''a'', None] @ [1] \<noteq> hu_slice (hu_option hu_str) [Some ''a''] @ [0, 1]"
  using string_list_update_delimited [of "[Some ''a'', None]" "[Some ''a'']" "[1]" "[0, 1]"]
  by (auto simp: fits_u64_def)

text \<open>
  The update of a hash set does not depend on the order in which the set is iterated,
  and barring collisions it determines the digests of the elements.
\<close>

theorem hashset_update_order_irrelevant:
  "mset xs = mset ys \<Longrightarrow> hu_hashset blake3_of upd xs = hu_hashset blake3_of upd ys"
proof -
  assume "mset xs = mset ys"
  then have "sort (List.map (content_hash blake3_of upd) xs)
      = sort (List.map (content_hash blake3_of upd) ys)"
    by (metis mset_map sorted_list_of_multiset_mset)
  then show ?thesis by (simp add: hu_hashset_def Let_def)
qed

theorem hashset_update_order_irrelevant_witness:
  "hu_hashset (\<lambda>bs. bs) hu_str [''b'', ''a''] = hu_hashset (\<lambda>bs. bs) hu_str [''a'', ''b'']"
  by (rule hashset_update_order_irrelevant) simp

end
