(* ===== verification/Frontier.thy ===== *)
theory Frontier
  imports Ids
begin

text \<open>
  Frontiers (\<^verbatim>\<open>arc-algebra-types/src/frontier.rs\<close>): the set of head hashes of a DAG, kept as
  a sorted vector without duplicates, and the set algebra used by sync negotiation.
\<close>

datatype frontier = Frontier (heads: "blake3_hash list")

definition frontier_empty :: frontier where
  "frontier_empty = Frontier []"

definition frontier_single :: "blake3_hash \<Rightarrow> frontier" where
  "frontier_single h = Frontier [h]"

definition frontier_new :: "blake3_hash list \<Rightarrow> frontier" where
  "frontier_new hs = Frontier (sort_dedup hs)"

definition from_hashes :: "blake3_hash list \<Rightarrow> frontier" where
  "from_hashes hs = frontier_new hs"

definition frontier_is_empty :: "frontier \<Rightarrow> bool" where
  "frontier_is_empty f \<longleftrightarrow> heads f = []"

definition frontier_len :: "frontier \<Rightarrow> nat" where
  "frontier_len f = length (heads f)"

definition frontier_contains :: "frontier \<Rightarrow> blake3_hash \<Rightarrow> bool" where
  "frontier_contains f h \<longleftrightarrow> list_ex (\<lambda>x. x = h) (heads f)"

definition compute_missing ::
  "frontier \<Rightarrow> frontier \<Rightarrow> (blake3_hash \<Rightarrow> bool) \<Rightarrow> blake3_hash list" where
  "compute_missing self other reachable_from_self =
     filter (\<lambda>h. \<not> reachable_from_self h) (heads other)"

definition frontier_merge :: "frontier \<Rightarrow> frontier \<Rightarrow> frontier" where
  "frontier_merge f g = frontier_new (heads f @ heads g)"

definition frontier_covers ::
  "frontier \<Rightarrow> frontier \<Rightarrow> (blake3_hash \<Rightarrow> bool) \<Rightarrow> bool" where
  "frontier_covers self other reachable_from_self = list_all reachable_from_self (heads other)"

definition frontier_intersection :: "frontier \<Rightarrow> frontier \<Rightarrow> frontier" where
  "frontier_intersection f g = frontier_new (filter (\<lambda>h. frontier_contains g h) (heads f))"

definition frontier_difference :: "frontier \<Rightarrow> frontier \<Rightarrow> frontier" where
  "frontier_difference f g = frontier_new (filter (\<lambda>h. \<not> frontier_contains g h) (heads f))"

text \<open>\<^verbatim>\<open>Display\<close>: eight bytes of each head in hexadecimal, then an ellipsis (U+2026).\<close>

definition frontier_display :: "frontier \<Rightarrow> string" where
  "frontier_display f =
     ''Frontier('' @
     join '' '' (List.map (\<lambda>h. concat (List.map hex_byte (take 8 h)) @
       [char_of (0xE2 :: nat), char_of (0x80 :: nat), char_of (0xA6 :: nat)]) (heads f)) @ '')''"

section \<open>Canonical set representations\<close>

text \<open>
  The contract between the frontier and its clients in the sync layer: a representation of
  finite sets with an invariant under which equal sets are represented equally.
\<close>

locale canonical_set =
  fixes abs :: "'r \<Rightarrow> 'a set"
    and inv :: "'r \<Rightarrow> bool"
    and uni :: "'r \<Rightarrow> 'r \<Rightarrow> 'r"
    and int :: "'r \<Rightarrow> 'r \<Rightarrow> 'r"
    and dif :: "'r \<Rightarrow> 'r \<Rightarrow> 'r"
  assumes inv_uni: "inv (uni r s)"
    and inv_int: "inv (int r s)"
    and inv_dif: "inv (dif r s)"
    and abs_uni: "abs (uni r s) = abs r \<union> abs s"
    and abs_int: "abs (int r s) = abs r \<inter> abs s"
    and abs_dif: "abs (dif r s) = abs r - abs s"
    and canonical: "inv r \<Longrightarrow> inv s \<Longrightarrow> abs r = abs s \<Longrightarrow> r = s"
begin

lemma eqI: "inv r \<Longrightarrow> inv s \<Longrightarrow> (\<And>x. x \<in> abs r \<longleftrightarrow> x \<in> abs s) \<Longrightarrow> r = s"
  by (rule canonical) auto

lemma uni_commute: "uni r s = uni s r"
  by (rule eqI) (auto simp: inv_uni abs_uni)

lemma uni_assoc: "uni (uni r s) t = uni r (uni s t)"
  by (rule eqI) (auto simp: inv_uni abs_uni)

lemma uni_idem: "inv r \<Longrightarrow> uni r r = r"
  by (rule eqI) (auto simp: inv_uni abs_uni)

lemma int_commute: "int r s = int s r"
  by (rule eqI) (auto simp: inv_int abs_int)

lemma int_assoc: "int (int r s) t = int r (int s t)"
  by (rule eqI) (auto simp: inv_int abs_int)

lemma absorb: "inv r \<Longrightarrow> uni r (int r s) = r"
  by (rule eqI) (auto simp: inv_uni abs_uni abs_int)

lemma uni_int_distrib: "uni r (int s t) = int (uni r s) (uni r t)"
  by (rule eqI) (auto simp: inv_uni inv_int abs_uni abs_int)

lemma split_parts: "inv r \<Longrightarrow> uni (dif r s) (int r s) = r"
  by (rule eqI) (auto simp: inv_uni abs_uni abs_int abs_dif)

lemma parts_disjoint: "abs (dif r s) \<inter> abs (int r s) = {}"
  by (auto simp: abs_int abs_dif)

lemma fold_uni_abs: "abs (fold uni rs r) = abs r \<union> (\<Union>s\<in>set rs. abs s)"
  by (induction rs arbitrary: r) (auto simp: abs_uni)

lemma fold_uni_inv: "inv r \<Longrightarrow> inv (fold uni rs r)"
  by (induction rs arbitrary: r) (auto simp: inv_uni)

text \<open>Gossip converges: merging any reordering of the same replies gives one result.\<close>

lemma fold_uni_order_irrelevant:
  "inv r \<Longrightarrow> set rs = set ss \<Longrightarrow> fold uni rs r = fold uni ss r"
  by (rule canonical) (simp_all add: fold_uni_abs fold_uni_inv)

end

definition frontier_wf :: "frontier \<Rightarrow> bool" where
  "frontier_wf f \<longleftrightarrow> sorted (heads f) \<and> distinct (heads f)"

definition frontier_set :: "frontier \<Rightarrow> blake3_hash set" where
  "frontier_set f = set (heads f)"

lemma frontier_new_simps [simp]:
  "frontier_wf (frontier_new hs)" "frontier_set (frontier_new hs) = set hs"
  by (simp_all add: frontier_wf_def frontier_new_def frontier_set_def)

lemma frontier_contains_iff [simp]: "frontier_contains f h \<longleftrightarrow> h \<in> frontier_set f"
  by (simp add: frontier_contains_def frontier_set_def list_ex_iff)

lemma frontier_canonical:
  "frontier_wf f \<Longrightarrow> frontier_wf g \<Longrightarrow> frontier_set f = frontier_set g \<Longrightarrow> f = g"
  by (cases f; cases g) (auto simp: frontier_wf_def frontier_set_def intro: sorted_distinct_eqI)

interpretation frontiers: canonical_set frontier_set frontier_wf frontier_merge
  frontier_intersection frontier_difference
  by unfold_locales
    (auto simp: frontier_merge_def frontier_intersection_def frontier_difference_def
      frontier_set_def [symmetric] intro: frontier_canonical)

lemma frontier_wf_constructors [simp]:
  "frontier_wf frontier_empty" "frontier_wf (frontier_single h)" "frontier_wf (from_hashes hs)"
  by (simp_all add: frontier_wf_def frontier_empty_def frontier_single_def from_hashes_def
      frontier_new_def)

text \<open>
  Merging is a join: on frontiers in canonical form it is commutative, associative and
  idempotent, and it is exactly the union of the head sets.
\<close>

theorem frontier_merge_semilattice:
  "frontier_merge f g = frontier_merge g f \<and>
   frontier_merge (frontier_merge f g) k = frontier_merge f (frontier_merge g k) \<and>
   (frontier_wf f \<longrightarrow> frontier_merge f f = f) \<and>
   frontier_wf (frontier_merge f g) \<and>
   frontier_set (frontier_merge f g) = frontier_set f \<union> frontier_set g"
  using frontiers.uni_commute frontiers.uni_assoc frontiers.uni_idem frontiers.inv_uni
    frontiers.abs_uni by blast

theorem frontier_merge_semilattice_witness:
  "frontier_merge (frontier_new [[2], [1], [2]]) (frontier_new [[2], [1], [2]])
     = frontier_new [[2], [1], [2]]"
  using frontier_merge_semilattice [THEN conjunct2, THEN conjunct2, THEN conjunct1]
    frontier_new_simps(1) by blast

text \<open>
  The order in which replies are merged does not matter, and a frontier is partitioned
  by any other one into what they share and what is missing.
\<close>

theorem frontier_gossip_converges:
  assumes "frontier_wf f" and "set gs = set ks"
  shows "fold frontier_merge gs f = fold frontier_merge ks f \<and>
    frontier_merge (frontier_difference f g) (frontier_intersection f g) = f \<and>
    frontier_set (frontier_difference f g) \<inter> frontier_set (frontier_intersection f g) = {}"
  using assms frontiers.fold_uni_order_irrelevant frontiers.split_parts frontiers.parts_disjoint
  by blast

theorem frontier_gossip_converges_witness:
  "fold frontier_merge [frontier_single [1], frontier_single [2]] (frontier_single [0]) =
   fold frontier_merge [frontier_single [2], frontier_single [1], frontier_single [2]]
     (frontier_single [0])"
  using frontier_gossip_converges
    [of "frontier_single [0]" "[frontier_single [1], frontier_single [2]]"
      "[frontier_single [2], frontier_single [1], frontier_single [2]]"] by auto

lemma compute_missing_iff:
  "h \<in> set (compute_missing self other reach) \<longleftrightarrow> h \<in> frontier_set other \<and> \<not> reach h"
  by (simp add: compute_missing_def frontier_set_def)

lemma covers_iff_nothing_missing:
  "frontier_covers self other reach \<longleftrightarrow> compute_missing self other reach = []"
  by (simp add: frontier_covers_def compute_missing_def filter_empty_conv list_all_iff)

end
