(* ===== verification/Sparse.thy ===== *)
theory Sparse
  imports Atoms
begin

text \<open>
  Sparse checkouts (\<^verbatim>\<open>arc-algebra/src/sparse.rs\<close>): normalised include prefixes and the
  matcher that decides which files, AST paths and atoms are inside the boundary.
\<close>

text \<open>The \<^verbatim>\<open>while s.starts_with("./")\<close> loop.\<close>

fun strip_dot_slash :: "string \<Rightarrow> string" where
  "strip_dot_slash (a # b # s) =
     (if a = CHR ''.'' \<and> b = CHR ''/'' then strip_dot_slash s else a # b # s)"
| "strip_dot_slash s = s"

definition normalize_path :: "string \<Rightarrow> string" where
  "normalize_path path =
     (let s = replace_char (CHR 0x5C) (CHR ''/'') (trim path)
      in trim_end_char (CHR ''/'') (trim_start_char (CHR ''/'') (strip_dot_slash s)))"

text \<open>A \<^verbatim>\<open>SparsePattern\<close> is its normalised text.\<close>

definition sparse_pattern_new :: "string \<Rightarrow> string option" where
  "sparse_pattern_new input =
     (let s = replace_char (CHR 0x5C) (CHR ''/'') (trim input);
          s = strip_dot_slash s;
          s = trim_end_char (CHR ''/'') (trim_start_char (CHR ''/'') s)
      in if s = [] then None else Some s)"

definition pattern_matches_path :: "string \<Rightarrow> string \<Rightarrow> bool" where
  "pattern_matches_path pat path =
     (let p = normalize_path path
      in if p = pat then True
         else starts_with p pat \<and> length pat < length p \<and> p ! length pat = CHR ''/'')"

record sparse_matcher =
  patterns :: "string list"

definition from_patterns :: "string list \<Rightarrow> sparse_matcher" where
  "from_patterns ps = \<lparr>patterns = List.map_filter sparse_pattern_new ps\<rparr>"

definition is_full :: "sparse_matcher \<Rightarrow> bool" where
  "is_full m \<longleftrightarrow> patterns m = []"

definition matches_file_path :: "sparse_matcher \<Rightarrow> string \<Rightarrow> bool" where
  "matches_file_path m file_path =
     (if is_full m then True
      else list_ex (\<lambda>p. pattern_matches_path p file_path) (patterns m))"

definition matches_node_path :: "sparse_matcher \<Rightarrow> node_path \<Rightarrow> bool" where
  "matches_node_path m path =
     (if is_full m then True
      else if length path < 2 then False
      else (path ! 0 = ''file'' \<or> path ! 0 = ''dir'') \<and> matches_file_path m (path ! 1))"

definition matches_atom :: "sparse_matcher \<Rightarrow> atom \<Rightarrow> bool" where
  "matches_atom m a = (if is_full m then True else list_ex (matches_node_path m) (paths a))"

section \<open>Lemmas\<close>

lemma sparse_pattern_new_normalize:
  "sparse_pattern_new s = (if normalize_path s = [] then None else Some (normalize_path s))"
  by (simp add: sparse_pattern_new_def normalize_path_def Let_def)

text \<open>
  The match is on whole path components: a pattern covers itself and what lies strictly
  below it, and never a sibling that merely shares its first characters.
\<close>

lemma pattern_matches_path_iff:
  "pattern_matches_path pat path \<longleftrightarrow>
   normalize_path path = pat \<or> (\<exists>rest. normalize_path path = pat @ ''/'' @ rest)"
proof -
  have "starts_with p pat \<and> length pat < length p \<and> p ! length pat = CHR ''/'' \<longleftrightarrow>
      (\<exists>rest. p = pat @ ''/'' @ rest)" for p
    by (auto simp: starts_with_def strip_prefix_Some_iff neq_Nil_conv nth_append)
  then show ?thesis by (auto simp: pattern_matches_path_def Let_def)
qed

lemma matches_atom_blob: "matches_atom m (Blob p h n) \<longleftrightarrow> is_full m"
  by (simp add: matches_atom_def)

text \<open>
  A matcher built from raw patterns admits a file exactly when the pattern list has no
  usable entry (a full checkout) or the normalised file is one of the normalised patterns or
  lies below one of them as a directory.
\<close>

theorem sparse_boundary:
  "matches_file_path (from_patterns ps) file \<longleftrightarrow>
   (\<forall>p\<in>set ps. normalize_path p = []) \<or>
   (\<exists>p\<in>set ps. normalize_path p \<noteq> [] \<and>
      (normalize_path file = normalize_path p \<or>
       (\<exists>rest. normalize_path file = normalize_path p @ ''/'' @ rest)))"
proof -
  have set: "q \<in> set (patterns (from_patterns ps)) \<longleftrightarrow>
      (\<exists>p\<in>set ps. q = normalize_path p \<and> q \<noteq> [])" for q
    unfolding from_patterns_def sparse_matcher.simps
    by (induction ps) (auto simp: sparse_pattern_new_normalize)
  have empty: "is_full m \<longleftrightarrow> (\<forall>q. q \<notin> set (patterns m))" for m
    by (simp add: is_full_def)
  have full: "is_full (from_patterns ps) \<longleftrightarrow> (\<forall>p\<in>set ps. normalize_path p = [])"
    unfolding empty set by blast
  have ex: "list_ex P (patterns (from_patterns ps)) \<longleftrightarrow>
      (\<exists>p\<in>set ps. normalize_path p \<noteq> [] \<and> P (normalize_path p))" for P
    unfolding list_ex_iff Bex_def by (simp only: set) blast
  have "matches_file_path (from_patterns ps) file \<longleftrightarrow>
      is_full (from_patterns ps) \<or>
      list_ex (\<lambda>p. pattern_matches_path p file) (patterns (from_patterns ps))"
    by (simp add: matches_file_path_def)
  then show ?thesis
    by (simp only: full ex pattern_matches_path_iff)
qed

theorem sparse_boundary_witness:
  "matches_file_path (from_patterns [''./src/'', ''/'']) ''src/a.rs'' \<and>
   \<not> matches_file_path (from_patterns [''./src/'', ''/'']) ''srcx''"
proof -
  have n: "normalize_path ''./src/'' = ''src''" "normalize_path ''/'' = []"
    "normalize_path ''src/a.rs'' = ''src/a.rs''" "normalize_path ''srcx'' = ''srcx''"
    by (simp_all add: normalize_path_def ascii_graphic_def replace_char_def trim_start_char_def trim_end_char_def)
  show ?thesis unfolding sparse_boundary by (simp add: n)
qed

end
