(* ===== verification/Apply.thy ===== *)
theory Apply
  imports Changes Sparse
begin

text \<open>
  Replay (\<^verbatim>\<open>arc-algebra/src/apply.rs\<close>): the materialised state, the optional blame map and
  the application of one change to them, atom by atom, with the AI permission boundary and
  the sparse boundary.

  Both maps are updated in place by the code, and what an erroneous change wrote before its
  error stays written; the model returns them next to the error.  The blob store, the
  \<^verbatim>\<open>ignore\<close> crate's matcher, \<^verbatim>\<open>blake3::Hash::to_hex\<close> and bincode are the fields of the
  environment record.
\<close>

type_synonym materialized_state = "node_path \<rightharpoonup> bytes"
type_synonym blame_state = "node_path \<rightharpoonup> blake3_hash"

text \<open>The \<^verbatim>\<open>BlobStore\<close> trait of \<^verbatim>\<open>arc-algebra/src/lib.rs\<close>.\<close>

record blob_store =
  read_blob :: "blake3_hash \<Rightarrow> string + bytes"
  contains_blob :: "blake3_hash \<Rightarrow> bool"

record replay_env = blob_store +
  agent_ignored :: "string \<Rightarrow> bool \<Rightarrow> bool"
  hash_hex :: "blake3_hash \<Rightarrow> string"
  bincode_atom :: "atom \<Rightarrow> string + bytes"

datatype apply_error =
    SecurityViolation string
  | CasRead node_path string
  | CausalityViolation node_path
  | MoveUnsupported
  | SemanticsPreservingUnsupported
  | TokenSerialize string

type_synonym apply_result =
  "materialized_state \<times> blame_state option \<times> apply_error option"

section \<open>The permission boundary\<close>

text \<open>The workspace path an AST path stands for, and whether it is a directory.\<close>

fun checked_path :: "node_path \<Rightarrow> (string \<times> bool) option" where
  "checked_path (kind # path # rest) =
     (if kind = ''file'' then Some (path, False)
      else if kind = ''dir'' then Some (path, True) else None)"
| "checked_path _ = None"

fun agentignore_check :: "'x replay_env_scheme \<Rightarrow> node_path list \<Rightarrow> apply_error option" where
  "agentignore_check env [] = None"
| "agentignore_check env (p # ps) =
     (case checked_path p of
        None \<Rightarrow> agentignore_check env ps
      | Some (path, is_dir) \<Rightarrow>
          if path = ''.agentignore'' \<or> agent_ignored env path is_dir
          then Some (SecurityViolation path)
          else agentignore_check env ps)"

section \<open>Atoms\<close>

definition put_blame :: "node_path \<Rightarrow> blake3_hash \<Rightarrow> blame_state option \<Rightarrow> blame_state option"
where
  "put_blame k c b = map_option (\<lambda>m. m(k \<mapsto> c)) b"

definition drop_blame :: "node_path \<Rightarrow> blame_state option \<Rightarrow> blame_state option" where
  "drop_blame k b = map_option (\<lambda>m. m(k := None)) b"

definition blob_token :: "blake3_hash \<Rightarrow> bytes" where
  "blob_token h = str_bytes ''ARC_BLOB_REF:'' @ h"

definition mount_token :: "(blake3_hash \<Rightarrow> string) \<Rightarrow> spacetime_coordinate \<Rightarrow> bytes" where
  "mount_token hx c = str_bytes (''ARC_MOUNT:'' @ to_uri hx c)"

definition conflict_token :: "bytes \<Rightarrow> bytes" where
  "conflict_token payload = str_bytes ''ARC_CONFLICT_REF:'' @ payload"

fun apply_atom ::
  "'x replay_env_scheme \<Rightarrow> blake3_hash \<Rightarrow> atom \<Rightarrow> materialized_state \<Rightarrow> blame_state option \<Rightarrow>
   apply_result" where
  "apply_atom env cid (Insert at content_hash) st bl =
     (case read_blob env content_hash of
        Inl e \<Rightarrow> (st, bl, Some (CasRead at e))
      | Inr bs \<Rightarrow> (st(at \<mapsto> bs), put_blame at cid bl, None))"
| "apply_atom env cid (Delete at prior_hash) st bl =
     (case st at of
        None \<Rightarrow> (st, bl, Some (CausalityViolation at))
      | Some _ \<Rightarrow> (st(at := None), drop_blame at bl, None))"
| "apply_atom env cid (Directory path) st bl =
     ((case st path of None \<Rightarrow> st(path \<mapsto> []) | Some _ \<Rightarrow> st), put_blame path cid bl, None)"
| "apply_atom env cid (Move frm to) st bl = (st, bl, Some MoveUnsupported)"
| "apply_atom env cid (SemanticsPreserving at d) st bl =
     (st, bl, Some SemanticsPreservingUnsupported)"
| "apply_atom env cid (Blob path hash sz) st bl =
     (let key = [''file'', path]
      in (st(key \<mapsto> blob_token hash), put_blame key cid bl, None))"
| "apply_atom env cid (Mount path coordinate) st bl =
     (st(path \<mapsto> mount_token (hash_hex env) coordinate), put_blame path cid bl, None)"
| "apply_atom env cid (Conflict bases sides at) st bl =
     (case bincode_atom env (Conflict bases sides at) of
        Inl e \<Rightarrow> (st, bl, Some (TokenSerialize e))
      | Inr payload \<Rightarrow> (st(at \<mapsto> conflict_token payload), put_blame at cid bl, None))"

definition outside_sparse :: "sparse_matcher option \<Rightarrow> atom \<Rightarrow> bool" where
  "outside_sparse sparse a =
     (case sparse of None \<Rightarrow> False | Some m \<Rightarrow> \<not> matches_atom m a)"

fun apply_atoms ::
  "'x replay_env_scheme \<Rightarrow> bool \<Rightarrow> sparse_matcher option \<Rightarrow> blake3_hash \<Rightarrow> atom list \<Rightarrow>
   materialized_state \<Rightarrow> blame_state option \<Rightarrow> apply_result" where
  "apply_atoms env ai sparse cid [] st bl = (st, bl, None)"
| "apply_atoms env ai sparse cid (a # as) st bl =
     (case (if ai then agentignore_check env (paths a) else None) of
        Some e \<Rightarrow> (st, bl, Some e)
      | None \<Rightarrow>
          if outside_sparse sparse a then apply_atoms env ai sparse cid as st bl
          else (case apply_atom env cid a st bl of
                  (st', bl', Some e) \<Rightarrow> (st', bl', Some e)
                | (st', bl', None) \<Rightarrow> apply_atoms env ai sparse cid as st' bl'))"

definition apply_change_scoped ::
  "'x replay_env_scheme \<Rightarrow> sparse_matcher option \<Rightarrow> change \<Rightarrow> materialized_state \<Rightarrow>
   blame_state option \<Rightarrow> apply_result" where
  "apply_change_scoped env sparse c st bl =
     apply_atoms env (is_ai (ch_author c)) sparse (ch_id c) (ch_atoms c) st bl"

definition apply_change ::
  "'x replay_env_scheme \<Rightarrow> change \<Rightarrow> materialized_state \<Rightarrow> blame_state option \<Rightarrow> apply_result"
where
  "apply_change env c st bl = apply_change_scoped env None c st bl"

section \<open>Effects of atoms\<close>

text \<open>
  The state transformer of one atom depends on the state in a uniform way: it fails, does
  nothing, or writes, removes or ensures one key.  Everything about replay that does not
  mention blame is a statement about these effects.
\<close>

datatype effect = Fail | Skip | Write node_path bytes | Remove node_path | Ensure node_path

fun effect_key :: "effect \<Rightarrow> node_path option" where
  "effect_key (Write k v) = Some k"
| "effect_key (Remove k) = Some k"
| "effect_key (Ensure k) = Some k"
| "effect_key _ = None"

fun run_effect :: "effect \<Rightarrow> materialized_state \<Rightarrow> materialized_state option" where
  "run_effect Fail st = None"
| "run_effect Skip st = Some st"
| "run_effect (Write k v) st = Some (st(k \<mapsto> v))"
| "run_effect (Remove k) st = (if st k = None then None else Some (st(k := None)))"
| "run_effect (Ensure k) st = Some (if st k = None then st(k \<mapsto> []) else st)"

fun atom_effect :: "'x replay_env_scheme \<Rightarrow> atom \<Rightarrow> effect" where
  "atom_effect env (Insert at h) =
     (case read_blob env h of Inl e \<Rightarrow> Fail | Inr bs \<Rightarrow> Write at bs)"
| "atom_effect env (Delete at h) = Remove at"
| "atom_effect env (Directory p) = Ensure p"
| "atom_effect env (Move frm to) = Fail"
| "atom_effect env (SemanticsPreserving at d) = Fail"
| "atom_effect env (Blob p h n) = Write [''file'', p] (blob_token h)"
| "atom_effect env (Mount p c) = Write p (mount_token (hash_hex env) c)"
| "atom_effect env (Conflict bs ss at) =
     (case bincode_atom env (Conflict bs ss at) of
        Inl e \<Rightarrow> Fail | Inr v \<Rightarrow> Write at (conflict_token v))"

definition step_effect ::
  "'x replay_env_scheme \<Rightarrow> bool \<Rightarrow> sparse_matcher option \<Rightarrow> atom \<Rightarrow> effect" where
  "step_effect env ai sparse a =
     (if ai \<and> agentignore_check env (paths a) \<noteq> None then Fail
      else if outside_sparse sparse a then Skip else atom_effect env a)"

fun run_effects :: "effect list \<Rightarrow> materialized_state \<Rightarrow> materialized_state option" where
  "run_effects [] st = Some st"
| "run_effects (e # es) st = Option.bind (run_effect e st) (run_effects es)"

lemma run_effects_append [simp]:
  "run_effects (es @ fs) st = Option.bind (run_effects es st) (run_effects fs)"
  by (induction es arbitrary: st) (auto split: bind_split)

lemma run_effects_append_fun:
  "run_effects (es @ fs) = (\<lambda>st. Option.bind (run_effects es st) (run_effects fs))"
  by (rule ext) simp

text \<open>The state reached by a successful application.\<close>

definition replayed :: "apply_result \<Rightarrow> materialized_state option" where
  "replayed r = (case r of (st, bl, None) \<Rightarrow> Some st | (st, bl, Some e) \<Rightarrow> None)"

lemma replayed_simps [simp]:
  "replayed (st, bl, None) = Some st"
  "replayed (st, bl, Some e) = None"
  by (simp_all add: replayed_def)

lemma apply_atom_effect:
  "replayed (apply_atom env cid a st bl) = run_effect (atom_effect env a) st"
  by (cases a) (auto simp: Let_def split: sum.splits option.splits)

lemma replayed_apply_atoms:
  "replayed (apply_atoms env ai sparse cid as st bl)
     = run_effects (List.map (step_effect env ai sparse) as) st"
proof (induction as arbitrary: st bl)
  case (Cons a as)
  show ?case
  proof (cases "(if ai then agentignore_check env (paths a) else None)")
    case None
    then have eff: "step_effect env ai sparse a =
        (if outside_sparse sparse a then Skip else atom_effect env a)"
      by (auto simp: step_effect_def split: if_splits)
    obtain st' bl' e where r: "apply_atom env cid a st bl = (st', bl', e)"
      by (metis prod_cases3)
    have run: "run_effect (atom_effect env a) st = replayed (st', bl', e)"
      by (metis apply_atom_effect r)
    show ?thesis
      by (cases e) (simp_all add: None eff r run Cons.IH)
  next
    case (Some e)
    then have "step_effect env ai sparse a = Fail"
      by (auto simp: step_effect_def split: if_splits)
    with Some show ?thesis by simp
  qed
qed simp

definition change_effects ::
  "'x replay_env_scheme \<Rightarrow> sparse_matcher option \<Rightarrow> change \<Rightarrow> effect list" where
  "change_effects env sparse c =
     List.map (step_effect env (is_ai (ch_author c)) sparse) (ch_atoms c)"

lemma replayed_apply_change_scoped:
  "replayed (apply_change_scoped env sparse c st bl) = run_effects (change_effects env sparse c) st"
  by (simp add: apply_change_scoped_def replayed_apply_atoms change_effects_def)

section \<open>Properties of replay\<close>

definition atom_keys :: "atom \<Rightarrow> node_path set" where
  "atom_keys a = (case a of Blob p h n \<Rightarrow> {[''file'', p]} | _ \<Rightarrow> set (paths a))"

lemma run_effect_frame:
  "run_effect e st = Some st' \<Longrightarrow> effect_key e \<noteq> Some k \<Longrightarrow> st' k = st k"
  by (cases e) (auto split: if_splits)

lemma run_effects_frame:
  "run_effects es st = Some st' \<Longrightarrow> Some k \<notin> effect_key ` set es \<Longrightarrow> st' k = st k"
  by (induction es arbitrary: st) (force dest: run_effect_frame split: bind_splits)+

lemma step_effect_key: "effect_key (step_effect env ai sparse a) = Some k \<Longrightarrow> k \<in> atom_keys a"
  by (cases a) (auto simp: step_effect_def atom_keys_def split: if_splits sum.splits)

text \<open>
  Frame: a successful application of a change leaves every path alone that none of its
  atoms is about; the paths an atom is about are the ones it lists and, for a \<^verbatim>\<open>Blob\<close>, the
  file it names.
\<close>

theorem apply_change_frame:
  assumes "apply_change_scoped env sparse c st bl = (st', bl', None)"
    and "\<forall>a\<in>set (ch_atoms c). k \<notin> atom_keys a"
  shows "st' k = st k"
proof -
  from assms(1) have "run_effects (change_effects env sparse c) st = Some st'"
    by (metis replayed_apply_change_scoped replayed_simps(1))
  then show ?thesis
    by (rule run_effects_frame)
      (use assms(2) in \<open>auto simp: change_effects_def dest: step_effect_key [OF sym]\<close>)
qed

definition toy_env :: replay_env where
  "toy_env = \<lparr>read_blob = (\<lambda>h. Inr h), contains_blob = (\<lambda>h. True),
     agent_ignored = (\<lambda>p d. p = ''secret''), hash_hex = hash_to_hex,
     bincode_atom = (\<lambda>a. Inr [])\<rparr>"

definition ai_blob_change :: change where
  "ai_blob_change = \<lparr>ch_id = [1], ch_deps = {||}, ch_atoms = [Blob ''.agentignore'' [5] 3],
     ch_intent = ''x'', ch_author = AI ''model'' [7], ch_signature = [],
     ch_collapsed_from = None, ch_author_type = HumanType, ch_is_ghost = False\<rparr>"

lemma apply_ai_blob_change:
  "apply_change env ai_blob_change st bl =
     (st([''file'', ''.agentignore''] \<mapsto> blob_token [5]),
      put_blame [''file'', ''.agentignore''] [1] bl, None)"
  by (simp add: apply_change_def apply_change_scoped_def ai_blob_change_def outside_sparse_def
      Let_def)

theorem apply_change_frame_witness:
  "fst (apply_change_scoped toy_env None ai_blob_change (Map.empty([''a''] \<mapsto> [1])) None) [''a'']
     = Some [1]"
proof -
  have ok: "apply_change_scoped toy_env None ai_blob_change (Map.empty([''a''] \<mapsto> [1])) None
      = ((Map.empty([''a''] \<mapsto> [1]))([''file'', ''.agentignore''] \<mapsto> blob_token [5]), None, None)"
    using apply_ai_blob_change [of toy_env "Map.empty([''a''] \<mapsto> [1])" None]
    by (simp add: apply_change_def put_blame_def)
  have "((Map.empty([''a''] \<mapsto> [1]))([''file'', ''.agentignore''] \<mapsto> blob_token [5])) [''a'']
      = (Map.empty([''a''] \<mapsto> [1 :: u8])) [''a'']"
    by (rule apply_change_frame [OF ok]) (simp add: ai_blob_change_def atom_keys_def)
  with ok show ?thesis by simp
qed

lemma agentignore_check_None_iff:
  "agentignore_check env ps = None \<longleftrightarrow>
   (\<forall>p\<in>set ps. \<forall>path d. checked_path p = Some (path, d) \<longrightarrow>
      path \<noteq> ''.agentignore'' \<and> \<not> agent_ignored env path d)"
  by (induction ps) (auto split: option.splits)

lemma apply_atoms_checked:
  "apply_atoms env True sparse cid as st bl = (st', bl', None) \<Longrightarrow> a \<in> set as \<Longrightarrow>
   agentignore_check env (paths a) = None"
proof (induction as arbitrary: st bl)
  case (Cons b as)
  from Cons.prems(1) have ok: "agentignore_check env (paths b) = None"
    by (auto split: option.splits)
  show ?case
  proof (cases "a = b")
    case False
    with Cons.prems(2) have "a \<in> set as" by simp
    with Cons.prems(1) ok show ?thesis
      by (auto split: if_splits prod.splits option.splits dest: Cons.IH)
  qed (simp add: ok)
qed simp

text \<open>
  C38.  The permission boundary as implemented: if a change of an AI author is applied
  without error, then no AST path it lists is a file or directory that \<^verbatim>\<open>.agentignore\<close>
  restricts, and none is \<^verbatim>\<open>.agentignore\<close> itself.
\<close>

theorem ai_permission_boundary:
  assumes "is_ai (ch_author c)" and "apply_change_scoped env sparse c st bl = (st', bl', None)"
    and "a \<in> set (ch_atoms c)" and "p \<in> set (paths a)" and "checked_path p = Some (path, is_dir)"
  shows "path \<noteq> ''.agentignore'' \<and> \<not> agent_ignored env path is_dir"
proof -
  from assms(1,2) have "apply_atoms env True sparse (ch_id c) (ch_atoms c) st bl = (st', bl', None)"
    by (simp add: apply_change_scoped_def)
  from apply_atoms_checked [OF this assms(3)] assms(4,5) show ?thesis
    by (auto simp: agentignore_check_None_iff)
qed

definition ai_insert_change :: change where
  "ai_insert_change = ai_blob_change\<lparr>ch_atoms := [Insert [''file'', ''ok.rs''] [5]]\<rparr>"

theorem ai_permission_boundary_witness:
  "\<not> agent_ignored toy_env ''ok.rs'' False"
proof -
  have "apply_change_scoped toy_env None ai_insert_change Map.empty None
      = ([[''file'', ''ok.rs''] \<mapsto> [5]], None, None)"
    by (simp add: apply_change_scoped_def ai_insert_change_def ai_blob_change_def toy_env_def
        outside_sparse_def put_blame_def)
  from ai_permission_boundary [OF _ this, of "Insert [''file'', ''ok.rs''] [5]"
      "[''file'', ''ok.rs'']" "''ok.rs''" False]
  show ?thesis by (simp add: ai_insert_change_def ai_blob_change_def)
qed

text \<open>
  The boundary has a hole: a \<^verbatim>\<open>Blob\<close> atom lists no AST path, so an AI author's change
  that overwrites \<^verbatim>\<open>.agentignore\<close> through a \<^verbatim>\<open>Blob\<close> atom is applied without error, whatever
  the rules in force.
\<close>

theorem agentignore_blob_bypass:
  "is_ai (ch_author ai_blob_change) \<and>
   apply_change env ai_blob_change st bl =
     (st([''file'', ''.agentignore''] \<mapsto> blob_token [5]),
      put_blame [''file'', ''.agentignore''] [1] bl, None)"
  by (simp add: apply_ai_blob_change) (simp add: ai_blob_change_def)

text \<open>
  Blob atoms and sparse checkouts: under any active sparse boundary a change made of
  \<^verbatim>\<open>Blob\<close> atoms leaves the state untouched, even for files inside the boundary.
\<close>

theorem sparse_drops_blobs:
  assumes "\<not> is_full m" and "\<forall>a\<in>set (ch_atoms c). \<exists>p h n. a = Blob p h n"
  shows "apply_change_scoped env (Some m) c st bl = (st, bl, None)"
proof -
  have "apply_atoms env ai (Some m) cid as st bl = (st, bl, None)"
    if "\<forall>a\<in>set as. \<exists>p h n. a = Blob p h n" for as ai cid
    using that assms(1)
    by (induction as) (auto simp: outside_sparse_def matches_atom_blob)
  with assms(2) show ?thesis by (simp add: apply_change_scoped_def)
qed

theorem sparse_drops_blobs_witness:
  "matches_file_path \<lparr>patterns = [''assets'']\<rparr> ''assets/logo.png'' \<and>
   apply_change_scoped toy_env (Some \<lparr>patterns = [''assets'']\<rparr>)
     (ai_blob_change\<lparr>ch_atoms := [Blob ''assets/logo.png'' [5] 3]\<rparr>) Map.empty None
   = (Map.empty, None, None)"
proof
  show "matches_file_path \<lparr>patterns = [''assets'']\<rparr> ''assets/logo.png''"
    by (simp add: matches_file_path_def pattern_matches_path_def normalize_path_def starts_with_def
        ascii_graphic_def replace_char_def trim_start_char_def trim_end_char_def)
  show "apply_change_scoped toy_env (Some \<lparr>patterns = [''assets'']\<rparr>)
     (ai_blob_change\<lparr>ch_atoms := [Blob ''assets/logo.png'' [5] 3]\<rparr>) Map.empty None
   = (Map.empty, None, None)"
    by (rule sparse_drops_blobs) (simp_all add: is_full_def)
qed

end
