(* ===== verification/Commute.thy ===== *)
theory Commute
  imports Apply
begin

text \<open>
  Commutation of changes (\<^verbatim>\<open>arc-algebra/src/commute.rs\<close>): the commutativity test, the four
  gates of \<^verbatim>\<open>commute_pair\<close>, path rewriting through moves, and what the test guarantees
  about replay.
\<close>

text \<open>One path is a prefix of the other: \<^verbatim>\<open>a[..min_len] == b[..min_len]\<close>.\<close>

definition paths_overlap :: "node_path \<Rightarrow> node_path \<Rightarrow> bool" where
  "paths_overlap a b =
     (let min_len = min (length a) (length b) in take min_len a = take min_len b)"

definition file_second :: "node_path \<Rightarrow> string option" where
  "file_second p = (case p of k # f # rest \<Rightarrow> if k = ''file'' then Some f else None | _ \<Rightarrow> None)"

fun file_path_for_atom :: "atom \<Rightarrow> string option" where
  "file_path_for_atom (Insert at h) = file_second at"
| "file_path_for_atom (Delete at h) = file_second at"
| "file_path_for_atom (SemanticsPreserving at d) = file_second at"
| "file_path_for_atom (Conflict bases sides at) = file_second at"
| "file_path_for_atom (Move frm to) =
     (case file_second frm of Some f \<Rightarrow> Some f | None \<Rightarrow> file_second to)"
| "file_path_for_atom (Directory p) = file_second p"
| "file_path_for_atom (Mount p c) = file_second p"
| "file_path_for_atom (Blob p h n) = None"

definition blob_conflicts :: "atom \<Rightarrow> atom \<Rightarrow> bool" where
  "blob_conflicts a b =
     (case a of
        Blob pa ha na \<Rightarrow> (case b of
            Blob pb hb nb \<Rightarrow> pa = pb \<and> (ha \<noteq> hb \<or> na \<noteq> nb)
          | _ \<Rightarrow> file_path_for_atom b = Some pa)
      | _ \<Rightarrow> (case b of
            Blob pb hb nb \<Rightarrow> file_path_for_atom a = Some pb
          | _ \<Rightarrow> False))"

definition atom_pair_disjoint :: "atom \<Rightarrow> atom \<Rightarrow> bool" where
  "atom_pair_disjoint a b =
     (if is_move b then True
      else if blob_conflicts a b then False
      else list_all (\<lambda>pa. list_all (\<lambda>pb. \<not> paths_overlap pa pb) (paths b)) (paths a))"

definition atoms_disjoint :: "atom list \<Rightarrow> atom list \<Rightarrow> bool" where
  "atoms_disjoint atoms_a atoms_b =
     list_all (\<lambda>a. if is_move a then True else list_all (atom_pair_disjoint a) atoms_b) atoms_a"

definition commutes :: "change \<Rightarrow> change \<Rightarrow> bool" where
  "commutes a b =
     (if ch_id a |\<in>| ch_deps b \<or> ch_id b |\<in>| ch_deps a then False
      else atoms_disjoint (ch_atoms a) (ch_atoms b))"

definition is_delete_insert_same_terminal :: "atom \<Rightarrow> atom \<Rightarrow> bool" where
  "is_delete_insert_same_terminal a b =
     (case a of
        Delete del_at h \<Rightarrow> (case b of Insert ins_at k \<Rightarrow> del_at = ins_at | _ \<Rightarrow> False)
      | _ \<Rightarrow> False)"

definition ghost_conflict :: "atom list \<Rightarrow> atom list \<Rightarrow> bool" where
  "ghost_conflict atoms_a atoms_b =
     list_ex (\<lambda>a. list_ex (\<lambda>b. is_delete_insert_same_terminal a b \<or>
       is_delete_insert_same_terminal b a) atoms_b) atoms_a"

fun move_pairs :: "atom list \<Rightarrow> (node_path \<times> node_path) list" where
  "move_pairs [] = []"
| "move_pairs (Move frm to # as) = (frm, to) # move_pairs as"
| "move_pairs (a # as) = move_pairs as"

text \<open>The first move whose source is a prefix of the path wins.\<close>

fun rewrite_path :: "(node_path \<times> node_path) list \<Rightarrow> node_path \<Rightarrow> node_path" where
  "rewrite_path [] path = path"
| "rewrite_path ((frm, to) # moves) path =
     (if length frm \<le> length path \<and> take (length frm) path = frm
      then to @ drop (length frm) path else rewrite_path moves path)"

fun rewrite_atom_paths :: "(node_path \<times> node_path) list \<Rightarrow> atom \<Rightarrow> atom" where
  "rewrite_atom_paths moves (Insert at h) = Insert (rewrite_path moves at) h"
| "rewrite_atom_paths moves (Delete at h) = Delete (rewrite_path moves at) h"
| "rewrite_atom_paths moves (Move frm to) = Move (rewrite_path moves frm) (rewrite_path moves to)"
| "rewrite_atom_paths moves (SemanticsPreserving at d) =
     SemanticsPreserving (rewrite_path moves at) d"
| "rewrite_atom_paths moves other = other"

definition rewrite_paths_through_moves :: "atom list \<Rightarrow> atom list \<Rightarrow> atom list" where
  "rewrite_paths_through_moves atoms moves =
     (let pairs = move_pairs moves
      in if pairs = [] then atoms else List.map (rewrite_atom_paths pairs) atoms)"

definition commute_pair ::
  "('sk, 'x) crypto_scheme \<Rightarrow> change \<Rightarrow> change \<Rightarrow> author \<times> 'sk \<Rightarrow> (change \<times> change) option"
where
  "commute_pair K a b signer =
     (if ch_id a |\<in>| ch_deps b \<or> ch_id b |\<in>| ch_deps a then None
      else if \<not> atoms_disjoint (ch_atoms a) (ch_atoms b) then None
      else if ghost_conflict (ch_atoms a) (ch_atoms b) then None
      else
        let (author, signing_key) = signer;
            b_prime_atoms = rewrite_paths_through_moves (ch_atoms b) (ch_atoms a);
            a_prime_atoms = rewrite_paths_through_moves (ch_atoms a) (ch_atoms b);
            b_prime_deps = ffilter (\<lambda>d. d \<noteq> ch_id a) (ch_deps b);
            a_prime_deps = ffilter (\<lambda>d. d \<noteq> ch_id b) (ch_deps a);
            b_prime = change_new K b_prime_deps b_prime_atoms (ch_intent b) author signing_key;
            a_prime = change_new K a_prime_deps a_prime_atoms (ch_intent a) author signing_key
        in Some (b_prime, a_prime))"

section \<open>Symmetry\<close>

lemma paths_overlap_commute: "paths_overlap a b \<longleftrightarrow> paths_overlap b a"
  by (auto simp: paths_overlap_def min.commute Let_def)

lemma paths_overlap_refl [simp]: "paths_overlap a a"
  by (simp add: paths_overlap_def)

lemma paths_overlap_prefix_iff:
  "paths_overlap a b \<longleftrightarrow> (\<exists>c. a = b @ c) \<or> (\<exists>c. b = a @ c)"
proof (cases "length a \<le> length b")
  case True
  then show ?thesis
    by (auto simp: paths_overlap_def Let_def min_def) (metis append_take_drop_id)
next
  case False
  then show ?thesis
    by (auto simp: paths_overlap_def Let_def min_def) (metis append_take_drop_id)
qed

lemma blob_conflicts_commute: "blob_conflicts a b \<longleftrightarrow> blob_conflicts b a"
  by (auto simp: blob_conflicts_def split: atom.split)

lemma atoms_disjoint_iff:
  "atoms_disjoint as bs \<longleftrightarrow>
   (\<forall>a\<in>set as. \<forall>b\<in>set bs. is_move a \<or> is_move b \<or>
      \<not> blob_conflicts a b \<and> (\<forall>pa\<in>set (paths a). \<forall>pb\<in>set (paths b). \<not> paths_overlap pa pb))"
  by (auto simp: atoms_disjoint_def atom_pair_disjoint_def list_all_iff)

lemma atoms_disjoint_commute: "atoms_disjoint as bs \<longleftrightarrow> atoms_disjoint bs as"
  unfolding atoms_disjoint_iff using blob_conflicts_commute paths_overlap_commute by blast

lemma commutes_commute: "commutes a b \<longleftrightarrow> commutes b a"
  unfolding commutes_def using atoms_disjoint_commute by auto

text \<open>Gate 3 of \<^verbatim>\<open>commute_pair\<close> never fires: gate 2 already rejects those pairs.\<close>

lemma ghost_conflict_subsumed: "atoms_disjoint as bs \<Longrightarrow> \<not> ghost_conflict as bs"
proof -
  assume dis: "atoms_disjoint as bs"
  have "\<not> (is_delete_insert_same_terminal a b \<or> is_delete_insert_same_terminal b a)"
    if "a \<in> set as" "b \<in> set bs" for a b
  proof (cases "is_move a \<or> is_move b")
    case True
    then show ?thesis by (auto simp: is_delete_insert_same_terminal_def split: atom.split)
  next
    case False
    with dis that have "\<forall>pa\<in>set (paths a). \<forall>pb\<in>set (paths b). \<not> paths_overlap pa pb"
      unfolding atoms_disjoint_iff by blast
    then show ?thesis by (auto simp: is_delete_insert_same_terminal_def split: atom.split)
  qed
  then show ?thesis by (auto simp: ghost_conflict_def list_ex_iff)
qed

lemma commute_pair_Some:
  "commute_pair K a b (author, sk) = Some (b', a') \<longleftrightarrow>
   commutes a b \<and>
   b' = change_new K (ffilter (\<lambda>d. d \<noteq> ch_id a) (ch_deps b))
          (rewrite_paths_through_moves (ch_atoms b) (ch_atoms a)) (ch_intent b) author sk \<and>
   a' = change_new K (ffilter (\<lambda>d. d \<noteq> ch_id b) (ch_deps a))
          (rewrite_paths_through_moves (ch_atoms a) (ch_atoms b)) (ch_intent a) author sk"
  using ghost_conflict_subsumed [of "ch_atoms a" "ch_atoms b"]
  by (auto simp: commute_pair_def commutes_def Let_def)

lemma commute_pair_None_iff: "commute_pair K a b signer = None \<longleftrightarrow> \<not> commutes a b"
  using ghost_conflict_subsumed [of "ch_atoms a" "ch_atoms b"]
  by (cases signer) (auto simp: commute_pair_def commutes_def Let_def)

lemma commutes_deps_filter:
  "commutes a b \<Longrightarrow> ffilter (\<lambda>d. d \<noteq> ch_id a) (ch_deps b) = ch_deps b"
  by (rule fset_eqI) (auto simp: commutes_def split: if_splits)

text \<open>
  \<^verbatim>\<open>commute_pair\<close> succeeds exactly when \<^verbatim>\<open>commutes\<close> holds (its ghost-conflict gate adds
  nothing to the path gate), does so symmetrically, and keeps the dependencies, the intents
  and the number of atoms of both changes.
\<close>

theorem commute_pair_characterised:
  "(commute_pair K a b signer = None \<longleftrightarrow> \<not> commutes a b) \<and>
   commute_pair K b a signer = map_option (\<lambda>(x, y). (y, x)) (commute_pair K a b signer) \<and>
   (case commute_pair K a b signer of None \<Rightarrow> True
    | Some (b', a') \<Rightarrow> ch_deps b' = ch_deps b \<and> ch_deps a' = ch_deps a \<and>
        ch_intent b' = ch_intent b \<and> ch_intent a' = ch_intent a \<and>
        length (ch_atoms b') = length (ch_atoms b) \<and> length (ch_atoms a') = length (ch_atoms a))"
proof -
  obtain author sk where s: "signer = (author, sk)" by fastforce
  show ?thesis
  proof (cases "commutes a b")
    case False
    then have "commute_pair K a b signer = None" "commute_pair K b a signer = None"
      using commutes_commute by (auto simp: commute_pair_None_iff)
    with False show ?thesis by simp
  next
    case True
    then obtain b' a' where c: "commute_pair K a b signer = Some (b', a')"
      by (cases "commute_pair K a b signer") (auto simp: commute_pair_None_iff)
    from True have "commutes b a" using commutes_commute by blast
    with c have sym: "commute_pair K b a signer = Some (a', b')"
      unfolding s commute_pair_Some by blast
    have len: "length (rewrite_paths_through_moves xs ys) = length xs" for xs ys
      by (simp add: rewrite_paths_through_moves_def Let_def)
    from c True \<open>commutes b a\<close> have "ch_deps b' = ch_deps b" "ch_deps a' = ch_deps a"
      "ch_intent b' = ch_intent b" "ch_intent a' = ch_intent a"
      "length (ch_atoms b') = length (ch_atoms b)" "length (ch_atoms a') = length (ch_atoms a)"
      unfolding s commute_pair_Some by (simp_all add: commutes_deps_filter len)
    with c sym True show ?thesis by simp
  qed
qed

section \<open>Replay of commuting changes\<close>

definition independent :: "effect \<Rightarrow> effect \<Rightarrow> bool" where
  "independent e f \<longleftrightarrow> e \<in> {Fail, Skip} \<or> f \<in> {Fail, Skip} \<or> effect_key e \<noteq> effect_key f \<or>
     (\<exists>k v. e = Write k v \<and> f = Write k v)"

lemma independent_run:
  "independent e f \<Longrightarrow>
   Option.bind (run_effect e st) (run_effect f) = Option.bind (run_effect f st) (run_effect e)"
  by (cases e; cases f) (auto simp: independent_def fun_upd_twist)

lemma run_effect_past_list:
  "\<forall>f\<in>set fs. independent e f \<Longrightarrow>
   Option.bind (run_effect e st) (run_effects fs) = Option.bind (run_effects fs st) (run_effect e)"
proof (induction fs arbitrary: st)
  case Nil
  then show ?case by (cases "run_effect e st") simp_all
next
  case (Cons f fs)
  have step: "run_effects (f # fs) = (\<lambda>s. Option.bind (run_effect f s) (run_effects fs))"
    by (rule ext) simp
  have "Option.bind (run_effect e st) (run_effects (f # fs))
      = Option.bind (Option.bind (run_effect e st) (run_effect f)) (run_effects fs)"
    unfolding step by simp
  also have "\<dots> = Option.bind (Option.bind (run_effect f st) (run_effect e)) (run_effects fs)"
    using Cons.prems by (subst independent_run [of e f]) simp_all
  also have "\<dots> = Option.bind (run_effect f st) (\<lambda>s. Option.bind (run_effects fs s) (run_effect e))"
    using Cons by simp
  finally show ?case unfolding step by simp
qed

lemma run_effects_commute:
  "\<forall>e\<in>set es. \<forall>f\<in>set fs. independent e f \<Longrightarrow>
   Option.bind (run_effects es st) (run_effects fs) = Option.bind (run_effects fs st) (run_effects es)"
proof (induction es arbitrary: st)
  case Nil
  then show ?case by (cases "run_effects fs st") simp_all
next
  case (Cons e es)
  have step: "run_effects (e # es) = (\<lambda>s. Option.bind (run_effect e s) (run_effects es))"
    by (rule ext) simp
  have "Option.bind (run_effects (e # es) st) (run_effects fs)
      = Option.bind (run_effect e st) (\<lambda>s. Option.bind (run_effects fs s) (run_effects es))"
    using Cons by simp
  also have "\<dots> = Option.bind (Option.bind (run_effect e st) (run_effects fs)) (run_effects es)"
    by (simp add: bind_assoc)
  also have "\<dots> = Option.bind (Option.bind (run_effects fs st) (run_effect e)) (run_effects es)"
    using Cons.prems by (subst run_effect_past_list) auto
  finally show ?case unfolding step by simp
qed

lemma atom_effect_key_cases:
  "effect_key (atom_effect env a) = Some k \<Longrightarrow>
   (\<exists>p h n. a = Blob p h n \<and> k = [''file'', p]) \<or>
   (\<not> is_move a \<and> paths a = [k] \<and> file_path_for_atom a = file_second k)"
  by (cases a) (auto split: sum.splits)

lemma atom_effects_independent:
  assumes "is_move a \<or> is_move b \<or> \<not> blob_conflicts a b \<and>
    (\<forall>pa\<in>set (paths a). \<forall>pb\<in>set (paths b). \<not> paths_overlap pa pb)"
  shows "independent (atom_effect env a) (atom_effect env b)"
proof (cases "\<exists>k. effect_key (atom_effect env a) = Some k \<and> effect_key (atom_effect env b) = Some k")
  case False
  have "atom_effect env x \<in> {Fail, Skip}" if "effect_key (atom_effect env x) = None" for x
    using that by (cases "atom_effect env x") auto
  with False show ?thesis unfolding independent_def by (metis option.exhaust)
next
  case True
  then obtain k where ka: "effect_key (atom_effect env a) = Some k"
    and kb: "effect_key (atom_effect env b) = Some k" by blast
  have "\<not> is_move a" using ka by (cases a) simp_all
  moreover have "\<not> is_move b" using kb by (cases b) simp_all
  ultimately have nb: "\<not> blob_conflicts a b"
    and dis: "\<forall>pa\<in>set (paths a). \<forall>pb\<in>set (paths b). \<not> paths_overlap pa pb" using assms by auto
  from atom_effect_key_cases [OF ka] atom_effect_key_cases [OF kb] nb dis
  have "\<exists>p h n. a = Blob p h n \<and> b = Blob p h n"
    by (elim disjE exE conjE) (simp_all add: blob_conflicts_def file_second_def split: atom.splits)
  then show ?thesis by (auto simp: independent_def)
qed

lemma independent_weaken:
  "independent e f \<Longrightarrow> e' \<in> {Fail, Skip, e} \<Longrightarrow> f' \<in> {Fail, Skip, f} \<Longrightarrow> independent e' f'"
  by (auto simp: independent_def)

lemma step_effect_cases: "step_effect env ai sparse a \<in> {Fail, Skip, atom_effect env a}"
  by (simp add: step_effect_def)

lemma change_effects_independent:
  assumes "atoms_disjoint (ch_atoms a) (ch_atoms b)"
  shows "\<forall>e\<in>set (change_effects env sparse a). \<forall>f\<in>set (change_effects env sparse b). independent e f"
proof (intro ballI)
  fix e f assume "e \<in> set (change_effects env sparse a)" "f \<in> set (change_effects env sparse b)"
  then obtain x y where x: "x \<in> set (ch_atoms a)" "e = step_effect env (is_ai (ch_author a)) sparse x"
    and y: "y \<in> set (ch_atoms b)" "f = step_effect env (is_ai (ch_author b)) sparse y"
    by (auto simp: change_effects_def)
  have "is_move x \<or> is_move y \<or> \<not> blob_conflicts x y \<and>
    (\<forall>pa\<in>set (paths x). \<forall>pb\<in>set (paths y). \<not> paths_overlap pa pb)"
    using assms x(1) y(1) unfolding atoms_disjoint_iff by blast
  then have "independent (atom_effect env x) (atom_effect env y)"
    by (rule atom_effects_independent)
  then show "independent e f"
    unfolding x y by (rule independent_weaken) (rule step_effect_cases)+
qed

text \<open>Replaying two changes in sequence; \<open>None\<close> when either application fails.\<close>

definition replay2 ::
  "'x replay_env_scheme \<Rightarrow> sparse_matcher option \<Rightarrow> change \<Rightarrow> change \<Rightarrow> materialized_state \<Rightarrow>
   materialized_state option" where
  "replay2 env sparse c1 c2 st =
     (case apply_change_scoped env sparse c1 st None of
        (st1, bl1, Some e) \<Rightarrow> None
      | (st1, bl1, None) \<Rightarrow> replayed (apply_change_scoped env sparse c2 st1 None))"

lemma replay2_effects:
  "replay2 env sparse c1 c2 st = Option.bind (run_effects (change_effects env sparse c1) st)
     (run_effects (change_effects env sparse c2))"
proof -
  obtain st1 bl1 e where r: "apply_change_scoped env sparse c1 st None = (st1, bl1, e)"
    by (metis prod_cases3)
  have "run_effects (change_effects env sparse c1) st = replayed (st1, bl1, e)"
    by (metis r replayed_apply_change_scoped)
  with r show ?thesis
    by (cases e) (simp_all add: replay2_def replayed_apply_change_scoped)
qed

text \<open>
  C25.  Convergence: when \<^verbatim>\<open>commutes\<close> accepts two changes, replaying them in either order
  from any state succeeds or fails together and reaches the same materialised state; this
  covers every kind of atom, AI authors and sparse checkouts.
\<close>

theorem commuting_changes_converge:
  assumes "commutes a b"
  shows "replay2 env sparse a b st = replay2 env sparse b a st"
proof -
  from assms have "atoms_disjoint (ch_atoms a) (ch_atoms b)"
    by (simp add: commutes_def split: if_splits)
  then show ?thesis
    unfolding replay2_effects by (rule run_effects_commute [OF change_effects_independent])
qed

definition left_change :: change where
  "left_change = ai_insert_change\<lparr>ch_author := Human ''n'' ''e'' [7],
     ch_atoms := [Insert [''file'', ''a.rs''] [5], Blob ''logo.png'' [6] 1]\<rparr>"

definition right_change :: change where
  "right_change = left_change\<lparr>ch_id := [2],
     ch_atoms := [Insert [''file'', ''b.rs''] [8], Blob ''logo.png'' [6] 1]\<rparr>"

lemma left_right_commute: "commutes left_change right_change"
  by (simp add: commutes_def blob_conflicts_def left_change_def right_change_def ai_insert_change_def
      ai_blob_change_def atoms_disjoint_def atom_pair_disjoint_def paths_overlap_def
      file_second_def)

theorem commuting_changes_converge_witness:
  "replay2 toy_env None left_change right_change Map.empty =
     replay2 toy_env None right_change left_change Map.empty \<and>
   replay2 toy_env None left_change right_change Map.empty \<noteq> None"
proof
  show "replay2 toy_env None left_change right_change Map.empty =
     replay2 toy_env None right_change left_change Map.empty"
    using left_right_commute by (rule commuting_changes_converge)
  show "replay2 toy_env None left_change right_change Map.empty \<noteq> None"
    by (simp add: replay2_effects change_effects_def left_change_def right_change_def
        step_effect_def outside_sparse_def toy_env_def)
qed

lemma move_pairs_Nil: "\<forall>a\<in>set as. \<not> is_move a \<Longrightarrow> move_pairs as = []"
  by (induction as rule: move_pairs.induct) auto

lemma change_effects_same_atoms:
  "ch_atoms c = ch_atoms d \<Longrightarrow> is_ai (ch_author c) = is_ai (ch_author d) \<Longrightarrow>
   change_effects env sparse c = change_effects env sparse d"
  by (simp add: change_effects_def)

text \<open>
  The commuted pair replays like the original pair: for changes without moves and
  without AI authors, replaying \<open>b'\<close> and then \<open>a'\<close> gives what replaying \<open>a\<close> and then \<open>b\<close> gives.
\<close>

theorem commuted_pair_replays_alike:
  assumes "commute_pair K a b (author, sk) = Some (b', a')"
    and "\<forall>x\<in>set (ch_atoms a) \<union> set (ch_atoms b). \<not> is_move x"
    and "\<not> is_ai author" and "\<not> is_ai (ch_author a)" and "\<not> is_ai (ch_author b)"
  shows "replay2 env sparse b' a' st = replay2 env sparse a b st"
proof -
  from assms(1) have com: "commutes a b" by (simp add: commute_pair_Some)
  have "rewrite_paths_through_moves xs ys = xs" if "ys = ch_atoms a \<or> ys = ch_atoms b" for xs ys
    using that assms(2) by (auto simp: rewrite_paths_through_moves_def move_pairs_Nil)
  with assms(1) have "ch_atoms b' = ch_atoms b" "ch_atoms a' = ch_atoms a"
    "ch_author b' = author" "ch_author a' = author" by (simp_all add: commute_pair_Some)
  with assms(3-5) have "change_effects env sparse b' = change_effects env sparse b"
    "change_effects env sparse a' = change_effects env sparse a"
    by (auto intro: change_effects_same_atoms)
  then have eff: "replay2 env sparse b' a' st = replay2 env sparse b a st"
    by (simp add: replay2_effects)
  have "atoms_disjoint (ch_atoms b) (ch_atoms a)"
    using com atoms_disjoint_commute by (auto simp only: commutes_def split: if_splits)
  then show ?thesis
    unfolding eff unfolding replay2_effects
    by (rule run_effects_commute [OF change_effects_independent])
qed

theorem commuted_pair_replays_alike_witness:
  "\<exists>b' a'. commute_pair toy_crypto left_change right_change (Human ''n'' ''e'' [7], [7])
      = Some (b', a') \<and>
    replay2 toy_env None b' a' Map.empty = replay2 toy_env None left_change right_change Map.empty"
proof -
  obtain b' a' where c: "commute_pair toy_crypto left_change right_change
      (Human ''n'' ''e'' [7], [7]) = Some (b', a')"
    using left_right_commute commute_pair_None_iff by (metis not_None_eq surj_pair)
  have "replay2 toy_env None b' a' Map.empty
      = replay2 toy_env None left_change right_change Map.empty"
    by (rule commuted_pair_replays_alike [OF c])
      (simp_all add: left_change_def right_change_def ai_insert_change_def ai_blob_change_def)
  with c show ?thesis by blast
qed

end
