(* ===== verification/Inverse.thy ===== *)
theory Inverse
  imports Apply
begin

text \<open>
  Inversion (\<^verbatim>\<open>arc-algebra/src/inverse.rs\<close>): the semantic inverse of an atom and of a change,
  and what replaying it restores.
\<close>

datatype invert_error = CasMissing blake3_hash | Unsupported

fun invert_atom :: "'x blob_store_scheme \<Rightarrow> atom \<Rightarrow> invert_error + atom" where
  "invert_atom store (Insert at content_hash) =
     (if \<not> contains_blob store content_hash then Inl (CasMissing content_hash)
      else Inr (Delete at content_hash))"
| "invert_atom store (Delete at prior_hash) =
     (if \<not> contains_blob store prior_hash then Inl (CasMissing prior_hash)
      else Inr (Insert at prior_hash))"
| "invert_atom store (Move frm to) = Inr (Move to frm)"
| "invert_atom store _ = Inl Unsupported"

definition invert_change ::
  "('sk, 'y) crypto_scheme \<Rightarrow> 'x blob_store_scheme \<Rightarrow> change \<Rightarrow> author \<times> 'sk \<Rightarrow>
   invert_error + change" where
  "invert_change K store c signer =
     bind_result (traverse (invert_atom store) (rev (ch_atoms c))) (\<lambda>inverted.
       let (author, signing_key) = signer;
           intent = ''Revert: '' @ ch_intent c
       in Inr (change_new K {|ch_id c|} inverted intent author signing_key))"

section \<open>Round trips\<close>

lemma invert_atom_involutive:
  "invert_atom store a = Inr b \<Longrightarrow> invert_atom store b = Inr a"
  by (cases a) (auto split: if_splits)

lemma invert_change_Inr:
  "invert_change K store c (author, sk) = Inr d \<longleftrightarrow>
   (\<exists>as. list_all2 (\<lambda>x y. invert_atom store x = Inr y) (rev (ch_atoms c)) as \<and>
      d = change_new K {|ch_id c|} as (''Revert: '' @ ch_intent c) author sk)"
  by (auto simp: invert_change_def result_simps traverse_Inr_iff)

text \<open>
  Reverting a revert gives back the original atoms, and the revert depends on nothing
  but the change it reverts.
\<close>

theorem invert_twice:
  assumes "invert_change K store c (author, sk) = Inr d"
  shows "\<exists>e. invert_change K store d (author2, sk2) = Inr e \<and> ch_atoms e = ch_atoms c \<and>
    ch_deps d = {|ch_id c|} \<and> ch_deps e = {|ch_id d|}"
proof -
  from assms obtain as where as: "list_all2 (\<lambda>x y. invert_atom store x = Inr y) (rev (ch_atoms c)) as"
    and d: "d = change_new K {|ch_id c|} as (''Revert: '' @ ch_intent c) author sk"
    unfolding invert_change_Inr by blast
  from as have "list_all2 (\<lambda>x y. invert_atom store y = Inr x) (ch_atoms c) (rev as)"
    by (subst list_all2_rev [symmetric]) (auto elim!: list_all2_mono dest: invert_atom_involutive)
  then have "list_all2 (\<lambda>x y. invert_atom store x = Inr y) (rev (ch_atoms d)) (ch_atoms c)"
    by (simp add: d list_all2_conv_all_nth)
  then show ?thesis
    unfolding invert_change_Inr by (auto simp: d)
qed

definition revertible_change :: change where
  "revertible_change = ai_insert_change\<lparr>ch_author := Human ''n'' ''e'' [7],
     ch_atoms := [Delete [''file'', ''old''] [3], Insert [''file'', ''new''] [5]]\<rparr>"

theorem invert_twice_witness:
  "\<exists>d e. invert_change toy_crypto toy_env revertible_change (Human ''n'' ''e'' [7], [7]) = Inr d \<and>
     invert_change toy_crypto toy_env d (Human ''n'' ''e'' [7], [7]) = Inr e \<and>
     ch_atoms e = ch_atoms revertible_change"
proof -
  obtain d where d: "invert_change toy_crypto toy_env revertible_change (Human ''n'' ''e'' [7], [7]) = Inr d"
    by (simp add: invert_change_def revertible_change_def toy_env_def)
  from invert_twice [OF d, of "Human ''n'' ''e'' [7]" "[7]"] d show ?thesis by blast
qed

text \<open>
  An atom is exact in a state when it records what it does: an insertion writes a new path,
  a deletion names the blob whose content it removes.  \<open>exact_replay\<close> follows a change that
  is exact at every step.
\<close>

fun exact_atom :: "'x replay_env_scheme \<Rightarrow> materialized_state \<Rightarrow> atom \<Rightarrow> bool" where
  "exact_atom env st (Insert at h) \<longleftrightarrow> st at = None \<and> (\<exists>bs. read_blob env h = Inr bs)"
| "exact_atom env st (Delete at h) \<longleftrightarrow> (\<exists>bs. st at = Some bs \<and> read_blob env h = Inr bs)"
| "exact_atom env st _ \<longleftrightarrow> False"

fun exact_replay ::
  "'x replay_env_scheme \<Rightarrow> atom list \<Rightarrow> materialized_state \<Rightarrow> materialized_state \<Rightarrow> bool" where
  "exact_replay env [] st st' \<longleftrightarrow> st' = st"
| "exact_replay env (a # as) st st' \<longleftrightarrow> exact_atom env st a \<and>
     (\<exists>st1. run_effect (atom_effect env a) st = Some st1 \<and> exact_replay env as st1 st')"

lemma invert_effect:
  assumes "exact_atom env st a" and "run_effect (atom_effect env a) st = Some st1"
    and "invert_atom env a = Inr b"
  shows "run_effect (atom_effect env b) st1 = Some st"
proof (cases a)
  case (Insert at h)
  with assms show ?thesis by (auto split: if_splits simp: fun_upd_idem)
next
  case (Delete at h)
  with assms show ?thesis by (auto split: if_splits simp: fun_upd_idem)
qed (use assms in simp_all)

lemma invert_effects:
  assumes "exact_replay env as st st'" and "list_all2 (\<lambda>x y. invert_atom env x = Inr y) as bs"
  shows "run_effects (List.map (atom_effect env) (rev bs)) st' = Some st"
  using assms
proof (induction as arbitrary: st bs)
  case (Cons a as)
  from Cons.prems(1) obtain st1 where st1: "exact_atom env st a"
    "run_effect (atom_effect env a) st = Some st1" "exact_replay env as st1 st'" by auto
  from Cons.prems(2) obtain b cs where bs: "bs = b # cs" "invert_atom env a = Inr b"
    "list_all2 (\<lambda>x y. invert_atom env x = Inr y) as cs"
    by (auto simp: list_all2_Cons1)
  from Cons.IH [OF st1(3) bs(3)] invert_effect [OF st1(1,2) bs(2)] bs(1) show ?case by simp
qed simp



end
