(* ===== verification/Graph.thy ===== *)
theory Graph
  imports Changes
begin

text \<open>
  The change DAG (\<^verbatim>\<open>arc-store-graph/src/graph.rs\<close>): nodes, forward and reverse edges, the
  breadth-first ancestor search, Kahn's topological sort and the merge bases.

  A \<^verbatim>\<open>HashSet\<close> is iterated in an unspecified order; where the code iterates one without
  sorting, the model takes the ascending order, and the theorems characterise the results
  by conditions in which no iteration order occurs.
\<close>

record change_graph =
  nodes :: "(blake3_hash, change) fmap"
  edges :: "(blake3_hash, blake3_hash fset) fmap"
  reverse_edges :: "(blake3_hash, blake3_hash fset) fmap"

definition graph_new :: change_graph where
  "graph_new = \<lparr>nodes = fmempty, edges = fmempty, reverse_edges = fmempty\<rparr>"

text \<open>\<^verbatim>\<open>entry(k).or_default()\<close> on a map to sets.\<close>

definition entry_or_default :: "('k, 'v fset) fmap \<Rightarrow> 'k \<Rightarrow> 'v fset" where
  "entry_or_default m k = (case fmlookup m k of None \<Rightarrow> {||} | Some s \<Rightarrow> s)"

fun add_reverse ::
  "blake3_hash \<Rightarrow> blake3_hash list \<Rightarrow> (blake3_hash, blake3_hash fset) fmap \<Rightarrow>
   (blake3_hash, blake3_hash fset) fmap" where
  "add_reverse i [] m = m"
| "add_reverse i (dep # deps) m =
     add_reverse i deps (fmupd dep (finsert i (entry_or_default m dep)) m)"

definition apply_insert :: "change \<Rightarrow> change_graph \<Rightarrow> change_graph" where
  "apply_insert c g =
     (let i = ch_id c;
          r = add_reverse i (sorted_list_of_fset (ch_deps c)) (reverse_edges g);
          r' = fmupd i (entry_or_default r i) r
      in \<lparr>nodes = fmupd i c (nodes g), edges = fmupd i (ch_deps c) (edges g),
          reverse_edges = r'\<rparr>)"

definition add_change :: "change_graph \<Rightarrow> change \<Rightarrow> change_graph" where
  "add_change g c = apply_insert c g"

definition graph_inserted :: "change_graph \<Rightarrow> change \<Rightarrow> change_graph" where
  "graph_inserted g c = apply_insert c g"

definition graph_get :: "change_graph \<Rightarrow> blake3_hash \<Rightarrow> change option" where
  "graph_get g i = fmlookup (nodes g) i"

definition graph_len :: "change_graph \<Rightarrow> nat" where
  "graph_len g = fcard (fmdom (nodes g))"

definition graph_is_empty :: "change_graph \<Rightarrow> bool" where
  "graph_is_empty g \<longleftrightarrow> fmdom (nodes g) = {||}"

section \<open>Traversal\<close>

text \<open>The dependencies recorded for an id; none for an id outside the graph.\<close>

definition deps_of :: "change_graph \<Rightarrow> blake3_hash \<Rightarrow> blake3_hash fset" where
  "deps_of g i = entry_or_default (edges g) i"

definition children_of :: "change_graph \<Rightarrow> blake3_hash \<Rightarrow> blake3_hash fset" where
  "children_of g i = entry_or_default (reverse_edges g) i"

function ancestors_loop ::
  "change_graph \<Rightarrow> blake3_hash fset \<Rightarrow> blake3_hash list \<Rightarrow> blake3_hash fset" where
  "ancestors_loop g visited [] = visited"
| "ancestors_loop g visited (i # queue) =
     (if i |\<in>| visited then ancestors_loop g visited queue
      else let visited' = finsert i visited
           in ancestors_loop g visited'
                (queue @ filter (\<lambda>d. d |\<notin>| visited') (sorted_list_of_fset (deps_of g i))))"
  by pat_completeness auto

lemma deps_of_outside: "i |\<notin>| fmdom (edges g) \<Longrightarrow> deps_of g i = {||}"
  by (simp add: deps_of_def entry_or_default_def fmdom_notD)

termination ancestors_loop
proof (relation "measures [\<lambda>(g, visited, queue). fcard (fmdom (edges g) |-| visited),
    \<lambda>(g, visited, queue). length queue]", goal_cases)
  case (3 g visited i queue visited')
  show ?case
  proof (cases "i |\<in>| fmdom (edges g)")
    case True
    with 3 have "fmdom (edges g) |-| visited' |\<subset>| fmdom (edges g) |-| visited" by auto
    then show ?thesis by (simp add: pfsubset_fcard_mono)
  next
    case False
    with 3(2) have "fmdom (edges g) |-| visited' = fmdom (edges g) |-| visited" by auto
    with False show ?thesis by (simp add: deps_of_outside)
  qed
qed auto

definition ancestors :: "change_graph \<Rightarrow> blake3_hash fset \<Rightarrow> blake3_hash fset" where
  "ancestors g hs = ancestors_loop g {||} (sorted_list_of_fset hs)"

text \<open>
  The loop over the sorted children of one node: the lookup of an absent degree and the
  decrement of a zero degree panic (overflow checks on), which is \<open>None\<close>.
\<close>

fun relax ::
  "blake3_hash list \<Rightarrow> (blake3_hash \<rightharpoonup> nat) \<Rightarrow> blake3_hash list \<Rightarrow>
   ((blake3_hash \<rightharpoonup> nat) \<times> blake3_hash list) option" where
  "relax [] deg queue = Some (deg, queue)"
| "relax (c # cs) deg queue =
     (case deg c of
        None \<Rightarrow> None
      | Some n \<Rightarrow>
          if n = 0 then None
          else relax cs (deg(c \<mapsto> n - 1)) (if n - 1 = 0 then queue @ [c] else queue))"

definition degree_sum :: "blake3_hash fset \<Rightarrow> (blake3_hash \<rightharpoonup> nat) \<Rightarrow> nat" where
  "degree_sum R deg = (\<Sum>x \<in> fset R. case deg x of None \<Rightarrow> 0 | Some n \<Rightarrow> n)"

lemma relax_decreases:
  "relax cs deg queue = Some (deg', queue') \<Longrightarrow> set cs \<subseteq> fset R \<Longrightarrow>
   degree_sum R deg' + length queue' \<le> degree_sum R deg + length queue"
proof (induction cs arbitrary: deg queue)
  case (Cons c cs)
  then obtain n where n: "deg c = Some n" "n \<noteq> 0"
    and rec: "relax cs (deg(c \<mapsto> n - 1)) (if n - 1 = 0 then queue @ [c] else queue) = Some (deg', queue')"
    by (auto split: option.splits if_splits)
  have "degree_sum R (deg(c \<mapsto> n - 1)) + 1 = degree_sum R deg"
    using n Cons.prems(2)
    by (simp add: degree_sum_def sum.remove [of "fset R" c])
  moreover have "degree_sum R deg' + length queue'
      \<le> degree_sum R (deg(c \<mapsto> n - 1)) + length (if n - 1 = 0 then queue @ [c] else queue)"
    by (rule Cons.IH [OF rec]) (use Cons.prems(2) in simp)
  moreover have "length (if n - 1 = 0 then queue @ [c] else queue) \<le> length queue + 1" by simp
  ultimately show ?case by linarith
qed simp

function kahn ::
  "change_graph \<Rightarrow> blake3_hash fset \<Rightarrow> (blake3_hash \<rightharpoonup> nat) \<Rightarrow> blake3_hash list \<Rightarrow>
   blake3_hash list \<Rightarrow> blake3_hash list option" where
  "kahn g reachable deg [] order = Some order"
| "kahn g reachable deg (i # queue) order =
     (case relax (filter (\<lambda>c. c |\<in>| reachable) (sorted_list_of_fset (children_of g i))) deg queue of
        None \<Rightarrow> None
      | Some (deg', queue') \<Rightarrow> kahn g reachable deg' queue' (order @ [i]))"
  by pat_completeness auto

termination kahn
proof (relation "measure (\<lambda>(g, R, deg, queue, order). degree_sum R deg + length queue)", goal_cases)
  case (2 g R deg i queue order r deg' queue')
  then have "degree_sum R deg' + length queue' \<le> degree_sum R deg + length queue"
    by (intro relax_decreases) auto
  then show ?case by simp
qed simp

definition in_degree :: "change_graph \<Rightarrow> blake3_hash fset \<Rightarrow> blake3_hash \<Rightarrow> nat option" where
  "in_degree g reachable i =
     (if i |\<in>| reachable then Some (fcard (ffilter (\<lambda>d. d |\<in>| reachable) (deps_of g i))) else None)"

definition topological_sort :: "change_graph \<Rightarrow> blake3_hash fset \<Rightarrow> blake3_hash list option" where
  "topological_sort g start_heads =
     (let reachable = ancestors g start_heads;
          deg = in_degree g reachable;
          roots = sorted_list_of_fset (ffilter (\<lambda>i. deg i = Some 0) reachable)
      in kahn g reachable deg roots [])"

definition topological_sort_ids :: "change_graph \<Rightarrow> change_id fset \<Rightarrow> change_id list option" where
  "topological_sort_ids g selected =
     map_option (filter (\<lambda>i. i |\<in>| selected)) (topological_sort g selected)"

definition parent_ids :: "change_graph \<Rightarrow> change_id \<Rightarrow> change_id list" where
  "parent_ids g i = sorted_list_of_fset (deps_of g i)"

definition child_ids :: "change_graph \<Rightarrow> change_id \<Rightarrow> change_id list" where
  "child_ids g i = sorted_list_of_fset (children_of g i)"

definition is_ghost_node :: "change_graph \<Rightarrow> blake3_hash \<Rightarrow> bool" where
  "is_ghost_node g i = (case fmlookup (nodes g) i of None \<Rightarrow> False | Some n \<Rightarrow> ch_is_ghost n)"

definition tip_ids :: "change_graph \<Rightarrow> change_id fset" where
  "tip_ids g =
     ffilter (\<lambda>h. \<not> is_ghost_node g h \<and>
       (case fmlookup (reverse_edges g) h of None \<Rightarrow> True
        | Some children \<Rightarrow> fBall children (is_ghost_node g))) (fmdom (nodes g))"

section \<open>Merge bases\<close>

definition merge_bases_ordered ::
  "change_graph \<Rightarrow> blake3_hash fset \<Rightarrow> blake3_hash fset \<Rightarrow> blake3_hash fset" where
  "merge_bases_ordered g heads_a heads_b =
     (let common = ancestors g heads_a |\<inter>| ancestors g heads_b
      in if common = {||} then {||}
         else let non_lca = ffilter (\<lambda>i. case fmlookup (reverse_edges g) i of None \<Rightarrow> False
                   | Some children \<Rightarrow> fBex children (\<lambda>c. c |\<in>| common)) common
              in ffilter (\<lambda>i. i |\<notin>| non_lca) common)"

definition merge_base ::
  "change_graph \<Rightarrow> blake3_hash fset \<Rightarrow> blake3_hash fset \<Rightarrow> blake3_hash fset" where
  "merge_base g heads_a heads_b = merge_bases_ordered g heads_a heads_b"

definition merge_base_deterministic ::
  "change_graph \<Rightarrow> blake3_hash fset \<Rightarrow> blake3_hash fset \<Rightarrow> blake3_hash option" where
  "merge_base_deterministic g heads_a heads_b =
     (case sorted_list_of_fset (merge_bases_ordered g heads_a heads_b) of
        [] \<Rightarrow> None | i # rest \<Rightarrow> Some i)"

section \<open>Reachability\<close>

definition depends :: "change_graph \<Rightarrow> (blake3_hash \<times> blake3_hash) set" where
  "depends g = {(a, b). b |\<in>| deps_of g a}"

lemma ancestors_loop_sound:
  "x |\<in>| ancestors_loop g visited queue \<Longrightarrow>
   x |\<in>| visited \<or> (\<exists>s\<in>set queue. (s, x) \<in> (depends g)\<^sup>*)"
proof (induction g visited queue rule: ancestors_loop.induct)
  case (2 g visited i queue)
  show ?case
  proof (cases "i |\<in>| visited")
    case True
    with 2 show ?thesis by auto
  next
    case False
    with 2 consider "x |\<in>| finsert i visited" | s where "s \<in> set queue" "(s, x) \<in> (depends g)\<^sup>*"
      | s where "s |\<in>| deps_of g i" "(s, x) \<in> (depends g)\<^sup>*"
      by (auto simp: Let_def)
    then show ?thesis
      by cases (auto simp: depends_def intro: converse_rtrancl_into_rtrancl)
  qed
qed simp

lemma ancestors_loop_closed:
  "\<forall>v. v |\<in>| visited \<longrightarrow> fset (deps_of g v) \<subseteq> fset visited \<union> set queue \<Longrightarrow>
   fset visited \<union> set queue \<subseteq> fset (ancestors_loop g visited queue) \<and>
   (\<forall>v. v |\<in>| ancestors_loop g visited queue \<longrightarrow>
      fset (deps_of g v) \<subseteq> fset (ancestors_loop g visited queue))"
proof (induction g visited queue rule: ancestors_loop.induct)
  case (2 g visited i queue)
  show ?case
  proof (cases "i |\<in>| visited")
    case True
    then have "fset visited \<union> set (i # queue) = fset visited \<union> set queue" by auto
    with 2 True show ?thesis by simp
  next
    case False
    let ?v = "finsert i visited"
    let ?q = "queue @ filter (\<lambda>d. d |\<notin>| ?v) (sorted_list_of_fset (deps_of g i))"
    have "\<forall>v. v |\<in>| ?v \<longrightarrow> fset (deps_of g v) \<subseteq> fset ?v \<union> set ?q"
      using 2(3) by auto
    from 2(2) [OF False refl this] False show ?thesis by (auto simp: Let_def)
  qed
qed simp

lemma mem_ancestors_iff:
  "x |\<in>| ancestors g hs \<longleftrightarrow> (\<exists>h. h |\<in>| hs \<and> (h, x) \<in> (depends g)\<^sup>*)"
proof
  assume "x |\<in>| ancestors g hs"
  from ancestors_loop_sound [OF this [unfolded ancestors_def]]
  show "\<exists>h. h |\<in>| hs \<and> (h, x) \<in> (depends g)\<^sup>*" by auto
next
  assume "\<exists>h. h |\<in>| hs \<and> (h, x) \<in> (depends g)\<^sup>*"
  then obtain h where h: "h |\<in>| hs" and path: "(h, x) \<in> (depends g)\<^sup>*" by blast
  have closed: "fset hs \<subseteq> fset (ancestors g hs) \<and>
      (\<forall>v. v |\<in>| ancestors g hs \<longrightarrow> fset (deps_of g v) \<subseteq> fset (ancestors g hs))"
    using ancestors_loop_closed [of "{||}" g "sorted_list_of_fset hs"] by (simp add: ancestors_def)
  from path h closed show "x |\<in>| ancestors g hs"
    by (induction rule: rtrancl_induct) (auto simp: depends_def)
qed

lemma heads_in_ancestors: "h |\<in>| hs \<Longrightarrow> h |\<in>| ancestors g hs"
  unfolding mem_ancestors_iff by blast

lemma ancestors_step: "x |\<in>| ancestors g hs \<Longrightarrow> (x, y) \<in> depends g \<Longrightarrow> y |\<in>| ancestors g hs"
  unfolding mem_ancestors_iff by (blast intro: rtrancl_into_rtrancl)

lemma ancestors_closed:
  "x |\<in>| ancestors g hs \<Longrightarrow> (x, y) \<in> (depends g)\<^sup>* \<Longrightarrow> y |\<in>| ancestors g hs"
  unfolding mem_ancestors_iff by (blast intro: rtrancl_trans)

section \<open>The graph invariant\<close>

text \<open>
  The three maps agree: edges are the dependencies of the stored changes, the change is
  stored under its own id, and the reverse edges are the converse of the edges.
\<close>

definition wf_graph :: "change_graph \<Rightarrow> bool" where
  "wf_graph g \<longleftrightarrow>
     edges g = fmmap ch_deps (nodes g) \<and>
     (\<forall>i c. fmlookup (nodes g) i = Some c \<longrightarrow> ch_id c = i) \<and>
     (\<forall>c p. c |\<in>| children_of g p \<longleftrightarrow> p |\<in>| deps_of g c)"

lemma entry_add_reverse:
  "entry_or_default (add_reverse i deps m) k =
     (if k \<in> set deps then finsert i (entry_or_default m k) else entry_or_default m k)"
proof (induction deps arbitrary: m)
  case (Cons d ds)
  then show ?case by (auto simp: entry_or_default_def)
qed simp

lemma deps_of_insert: "deps_of (apply_insert c g) i = (if i = ch_id c then ch_deps c else deps_of g i)"
  by (simp add: deps_of_def apply_insert_def Let_def entry_or_default_def)

lemma children_of_insert:
  "children_of (apply_insert c g) p =
     (if p |\<in>| ch_deps c then finsert (ch_id c) (children_of g p) else children_of g p)"
proof -
  have upd: "entry_or_default (fmupd i (entry_or_default r i) r) p = entry_or_default r p"
    for i and r :: "(blake3_hash, blake3_hash fset) fmap"
    by (simp add: entry_or_default_def)
  show ?thesis
    unfolding children_of_def apply_insert_def Let_def change_graph.simps upd
    by (simp add: entry_add_reverse)
qed

lemma wf_graph_new: "wf_graph graph_new"
  by (auto simp: wf_graph_def graph_new_def children_of_def deps_of_def entry_or_default_def
      intro!: fmap_ext)

lemma wf_graph_insert:
  assumes "wf_graph g"
    and "fmlookup (nodes g) (ch_id c) = None \<or> deps_of g (ch_id c) = ch_deps c"
  shows "wf_graph (apply_insert c g)"
proof -
  from assms have "fmlookup (edges g) (ch_id c) = None \<or> deps_of g (ch_id c) = ch_deps c"
    by (auto simp: wf_graph_def)
  then have fresh: "p |\<in>| deps_of g (ch_id c) \<Longrightarrow> p |\<in>| ch_deps c" for p
    by (auto simp: deps_of_def entry_or_default_def)
  have "edges (apply_insert c g) = fmmap ch_deps (nodes (apply_insert c g))"
    using assms(1) by (auto simp: wf_graph_def apply_insert_def Let_def intro!: fmap_ext)
  moreover have "\<forall>i d. fmlookup (nodes (apply_insert c g)) i = Some d \<longrightarrow> ch_id d = i"
    using assms(1) by (auto simp: wf_graph_def apply_insert_def Let_def)
  moreover have "\<forall>x p. x |\<in>| children_of (apply_insert c g) p \<longleftrightarrow> p |\<in>| deps_of (apply_insert c g) x"
    using assms(1) fresh by (auto simp: children_of_insert deps_of_insert wf_graph_def)
  ultimately show ?thesis by (simp add: wf_graph_def)
qed

lemma children_iff_deps: "wf_graph g \<Longrightarrow> c |\<in>| children_of g p \<longleftrightarrow> (c, p) \<in> depends g"
  by (simp add: wf_graph_def depends_def)

section \<open>Topological order\<close>

lemma relax_Some:
  "distinct cs \<Longrightarrow> \<forall>c\<in>set cs. \<exists>n. deg c = Some (Suc n) \<Longrightarrow>
   relax cs deg queue =
     Some (\<lambda>x. if x \<in> set cs then map_option (\<lambda>n. n - 1) (deg x) else deg x,
           queue @ filter (\<lambda>c. deg c = Some 1) cs)"
proof (induction cs arbitrary: deg queue)
  case (Cons c cs)
  then obtain n where n: "deg c = Some (Suc n)" by auto
  have same: "filter (\<lambda>x. (deg(c \<mapsto> n)) x = Some 1) cs = filter (\<lambda>x. deg x = Some 1) cs"
    using Cons.prems(1) by (intro filter_cong) auto
  have "\<forall>x\<in>set cs. \<exists>m. (deg(c \<mapsto> n)) x = Some (Suc m)" "distinct cs"
    using Cons.prems by auto
  then have IH: "relax cs (deg(c \<mapsto> n)) q =
      Some (\<lambda>x. if x \<in> set cs then map_option (\<lambda>n. n - 1) ((deg(c \<mapsto> n)) x) else (deg(c \<mapsto> n)) x,
            q @ filter (\<lambda>x. deg x = Some 1) cs)" for q
    by (subst same [symmetric]) (rule Cons.IH)
  have "(\<lambda>x. if x \<in> set cs then map_option (\<lambda>n. n - 1) ((deg(c \<mapsto> n)) x) else (deg(c \<mapsto> n)) x)
      = (\<lambda>x. if x \<in> set (c # cs) then map_option (\<lambda>n. n - 1) (deg x) else deg x)"
    using Cons.prems(1) n by auto
  with n IH show ?case by (simp del: fun_upd_apply)
qed (simp add: fun_eq_iff)

text \<open>Every element comes after its dependencies.\<close>

definition roots_first :: "change_graph \<Rightarrow> blake3_hash list \<Rightarrow> bool" where
  "roots_first g order \<longleftrightarrow>
     (\<forall>i<length order. \<forall>d. d |\<in>| deps_of g (order ! i) \<longrightarrow> d \<in> set (take i order))"

lemma roots_first_Nil [simp]: "roots_first g []"
  by (simp add: roots_first_def)

lemma roots_first_snoc:
  "roots_first g order \<Longrightarrow> fset (deps_of g x) \<subseteq> set order \<Longrightarrow> roots_first g (order @ [x])"
  by (auto simp: roots_first_def nth_append less_Suc_eq)

definition open_deps ::
  "change_graph \<Rightarrow> blake3_hash fset \<Rightarrow> blake3_hash list \<Rightarrow> blake3_hash \<Rightarrow> blake3_hash set" where
  "open_deps g R order x = {d. d |\<in>| deps_of g x \<and> d |\<in>| R \<and> d \<notin> set order}"

lemma finite_open_deps [simp]: "finite (open_deps g R order x)"
  by (rule finite_subset [of _ "fset R"]) (auto simp: open_deps_def)

lemma open_deps_snoc: "open_deps g R (order @ [i]) x = open_deps g R order x - {i}"
  by (auto simp: open_deps_def)

definition kahn_inv ::
  "change_graph \<Rightarrow> blake3_hash fset \<Rightarrow> (blake3_hash \<rightharpoonup> nat) \<Rightarrow> blake3_hash list \<Rightarrow>
   blake3_hash list \<Rightarrow> bool" where
  "kahn_inv g R deg queue order \<longleftrightarrow>
     distinct (order @ queue) \<and> set (order @ queue) \<subseteq> fset R \<and>
     (\<forall>x. x |\<in>| R \<longrightarrow> deg x = Some (card (open_deps g R order x))) \<and>
     (\<forall>x. x |\<in>| R \<longrightarrow> (x \<in> set (order @ queue) \<longleftrightarrow> open_deps g R order x = {})) \<and>
     roots_first g order"

lemma card_1_mem: "card A = 1 \<and> i \<in> A \<longleftrightarrow> A = {i}"
  by (auto simp: card_1_singleton_iff)

lemma kahn_step:
  assumes wf: "wf_graph g" and closed: "\<forall>x y. x |\<in>| R \<longrightarrow> (x, y) \<in> depends g \<longrightarrow> y |\<in>| R"
    and inv: "kahn_inv g R deg (i # queue) order"
    and cs: "cs = filter (\<lambda>c. c |\<in>| R) (sorted_list_of_fset (children_of g i))"
  obtains deg' where "relax cs deg queue = Some (deg', queue @ filter (\<lambda>c. deg c = Some 1) cs)"
    and "kahn_inv g R deg' (queue @ filter (\<lambda>c. deg c = Some 1) cs) (order @ [i])"
proof -
  from inv have iR: "i |\<in>| R" and i_new: "i \<notin> set order" "i \<notin> set queue"
    and dist: "distinct (order @ queue)" and sub: "set (order @ queue) \<subseteq> fset R"
    and deg: "\<And>x. x |\<in>| R \<Longrightarrow> deg x = Some (card (open_deps g R order x))"
    and mem: "\<And>x. x |\<in>| R \<Longrightarrow> (x \<in> set (order @ i # queue) \<longleftrightarrow> open_deps g R order x = {})"
    and rf: "roots_first g order"
    unfolding kahn_inv_def by auto
  have in_cs: "x \<in> set cs \<longleftrightarrow> i \<in> open_deps g R order x \<and> x |\<in>| R" for x
    using children_iff_deps [OF wf, of x i] iR i_new(1)
    by (auto simp: cs open_deps_def depends_def)
  have "\<forall>c\<in>set cs. \<exists>n. deg c = Some (Suc n)"
  proof
    fix c assume "c \<in> set cs"
    then have "open_deps g R order c \<noteq> {}" "c |\<in>| R" using in_cs by auto
    then show "\<exists>n. deg c = Some (Suc n)"
      using deg by (auto simp: card_gt_0_iff gr0_conv_Suc [symmetric])
  qed
  moreover have dcs: "distinct cs" by (simp add: cs)
  ultimately have rel: "relax cs deg queue =
     Some (\<lambda>x. if x \<in> set cs then map_option (\<lambda>n. n - 1) (deg x) else deg x,
           queue @ filter (\<lambda>c. deg c = Some 1) cs)" (is "_ = Some (?deg, queue @ ?new)")
    by (rule relax_Some [rotated])
  have new: "x \<in> set ?new \<longleftrightarrow> x |\<in>| R \<and> open_deps g R order x = {i}" for x
  proof -
    have "x \<in> set ?new \<longleftrightarrow> x \<in> set cs \<and> deg x = Some 1" by auto
    also have "\<dots> \<longleftrightarrow> x |\<in>| R \<and> card (open_deps g R order x) = 1 \<and> i \<in> open_deps g R order x"
      unfolding in_cs using deg [of x] by auto
    finally show ?thesis by (simp only: card_1_mem)
  qed
  have "kahn_inv g R ?deg (queue @ ?new) (order @ [i])"
    unfolding kahn_inv_def
  proof (intro conjI allI impI)
    have "set ?new \<inter> set (order @ i # queue) = {}" using new mem by blast
    then show "distinct ((order @ [i]) @ queue @ ?new)"
      using dist i_new dcs by auto
    show "set ((order @ [i]) @ queue @ ?new) \<subseteq> fset R" using sub iR new by auto
    show "roots_first g (order @ [i])"
    proof (rule roots_first_snoc [OF rf])
      from mem [OF iR] have "open_deps g R order i = {}" by simp
      then show "fset (deps_of g i) \<subseteq> set order"
        using closed iR by (auto simp: open_deps_def depends_def)
    qed
    fix x assume x: "x |\<in>| R"
    show "?deg x = Some (card (open_deps g R (order @ [i]) x))"
      using deg [OF x] in_cs [of x] x by (auto simp: open_deps_snoc)
    show "x \<in> set ((order @ [i]) @ queue @ ?new) \<longleftrightarrow> open_deps g R (order @ [i]) x = {}"
      using mem [OF x] new [of x] x by (auto simp: open_deps_snoc)
  qed
  with rel show thesis by (rule that)
qed

lemma kahn_result:
  assumes "wf_graph g" and "\<forall>x y. x |\<in>| R \<longrightarrow> (x, y) \<in> depends g \<longrightarrow> y |\<in>| R"
    and "kahn_inv g R deg queue order"
  shows "\<exists>order' deg'. kahn g R deg queue order = Some order' \<and> kahn_inv g R deg' [] order'"
  using assms
proof (induction g R deg queue order rule: kahn.induct)
  case (2 g R deg i queue order)
  show ?case
  proof (rule kahn_step [OF 2(2-4) refl])
    fix deg'
    assume rel: "relax (filter (\<lambda>c. c |\<in>| R) (sorted_list_of_fset (children_of g i))) deg queue
      = Some (deg', queue @ filter (\<lambda>c. deg c = Some 1)
          (filter (\<lambda>c. c |\<in>| R) (sorted_list_of_fset (children_of g i))))"
      and inv: "kahn_inv g R deg' (queue @ filter (\<lambda>c. deg c = Some 1)
          (filter (\<lambda>c. c |\<in>| R) (sorted_list_of_fset (children_of g i)))) (order @ [i])"
    from 2(1) [OF rel refl 2(2) 2(3) inv] rel show ?thesis by simp
  qed
qed auto

lemma kahn_inv_init:
  "kahn_inv g (ancestors g hs) (in_degree g (ancestors g hs))
     (sorted_list_of_fset (ffilter (\<lambda>i. in_degree g (ancestors g hs) i = Some 0) (ancestors g hs))) []"
proof -
  let ?R = "ancestors g hs"
  have "in_degree g ?R x = Some (card (open_deps g ?R [] x))" if "x |\<in>| ?R" for x
  proof -
    have "fset (ffilter (\<lambda>d. d |\<in>| ?R) (deps_of g x)) = open_deps g ?R [] x"
      by (auto simp: open_deps_def)
    with that show ?thesis by (simp add: in_degree_def fcard.rep_eq)
  qed
  then show ?thesis by (auto simp: kahn_inv_def)
qed

lemma topological_sort_inv:
  assumes "wf_graph g"
  shows "\<exists>order deg. topological_sort g hs = Some order \<and> kahn_inv g (ancestors g hs) deg [] order"
  unfolding topological_sort_def Let_def
  by (rule kahn_result [OF assms _ kahn_inv_init]) (blast intro: ancestors_step)

lemma finite_depends: "finite (depends g)"
proof (rule finite_subset)
  show "depends g \<subseteq> (SIGMA a : fset (fmdom (edges g)). fset (deps_of g a))"
    using deps_of_outside by (force simp: depends_def)
qed simp

lemma acyclic_minimal:
  assumes "acyclic (depends g)" and "x \<in> A"
  obtains z where "z \<in> A" and "\<And>y. (z, y) \<in> depends g \<Longrightarrow> y \<notin> A"
proof (rule wfE_min [OF finite_acyclic_wf_converse [OF finite_depends assms(1)] assms(2)])
  fix z assume "z \<in> A" and "\<And>y. (y, z) \<in> (depends g)\<inverse> \<Longrightarrow> y \<notin> A"
  then show thesis by (intro that) auto
qed

section \<open>Merge bases and tips\<close>

text \<open>Proper descendants: \<open>y\<close> reaches \<open>x\<close> in at least one step.\<close>

lemma mem_merge_bases_iff:
  assumes "wf_graph g"
  shows "x |\<in>| merge_bases_ordered g as bs \<longleftrightarrow>
    x |\<in>| ancestors g as \<and> x |\<in>| ancestors g bs \<and>
    \<not> (\<exists>y. y |\<in>| ancestors g as \<and> y |\<in>| ancestors g bs \<and> (y, x) \<in> (depends g)\<^sup>+)"
proof -
  let ?common = "ancestors g as |\<inter>| ancestors g bs"
  have child: "(case fmlookup (reverse_edges g) x of None \<Rightarrow> False
      | Some children \<Rightarrow> fBex children (\<lambda>c. c |\<in>| ?common)) \<longleftrightarrow>
      (\<exists>c. (c, x) \<in> depends g \<and> c |\<in>| ?common)" for x
  proof -
    have "(case fmlookup (reverse_edges g) x of None \<Rightarrow> False
        | Some children \<Rightarrow> fBex children (\<lambda>c. c |\<in>| ?common)) \<longleftrightarrow>
        (\<exists>c. c |\<in>| children_of g x \<and> c |\<in>| ?common)"
      by (auto simp: children_of_def entry_or_default_def split: option.split)
    then show ?thesis unfolding children_iff_deps [OF assms] .
  qed
  have strict: "(\<exists>c. (c, x) \<in> depends g \<and> c |\<in>| ?common) \<longleftrightarrow>
      (\<exists>y. y |\<in>| ?common \<and> (y, x) \<in> (depends g)\<^sup>+)" for x
  proof
    assume "\<exists>y. y |\<in>| ?common \<and> (y, x) \<in> (depends g)\<^sup>+"
    then obtain y c where "y |\<in>| ?common" "(y, c) \<in> (depends g)\<^sup>*" "(c, x) \<in> depends g"
      by (auto dest: tranclD2)
    then show "\<exists>c. (c, x) \<in> depends g \<and> c |\<in>| ?common"
      by (auto intro: ancestors_closed)
  qed auto
  have "x |\<in>| merge_bases_ordered g as bs \<longleftrightarrow>
      x |\<in>| ?common \<and> \<not> (\<exists>c. (c, x) \<in> depends g \<and> c |\<in>| ?common)"
    by (auto simp: merge_bases_ordered_def Let_def child)
  then show ?thesis unfolding strict by auto
qed

lemma merge_base_exists:
  assumes "wf_graph g" and "acyclic (depends g)"
    and "x |\<in>| ancestors g as" "x |\<in>| ancestors g bs"
  shows "\<exists>z. z |\<in>| merge_bases_ordered g as bs \<and> (z, x) \<in> (depends g)\<^sup>*"
proof -
  define A where "A = {y. y |\<in>| ancestors g as \<and> y |\<in>| ancestors g bs \<and> (y, x) \<in> (depends g)\<^sup>*}"
  have x: "x \<in> A" using assms by (simp add: A_def)
  have wf: "wf (depends g)" by (rule finite_acyclic_wf [OF finite_depends assms(2)])
  obtain z where z: "z \<in> A" and min: "\<And>y. (y, z) \<in> depends g \<Longrightarrow> y \<notin> A"
    by (rule wfE_min [OF wf x]) blast
  have "\<not> (y, z) \<in> (depends g)\<^sup>+" if "y |\<in>| ancestors g as" "y |\<in>| ancestors g bs" for y
  proof
    assume "(y, z) \<in> (depends g)\<^sup>+"
    then obtain c where c: "(y, c) \<in> (depends g)\<^sup>*" "(c, z) \<in> depends g" by (auto dest: tranclD2)
    with that z have "c \<in> A"
      by (auto simp: A_def intro: ancestors_closed converse_rtrancl_into_rtrancl)
    with min [OF c(2)] show False by blast
  qed
  with z have "z |\<in>| merge_bases_ordered g as bs"
    unfolding mem_merge_bases_iff [OF assms(1)] A_def by blast
  with z show ?thesis unfolding A_def by blast
qed

lemma mem_tip_ids_iff:
  assumes "wf_graph g"
  shows "h |\<in>| tip_ids g \<longleftrightarrow>
    (\<exists>n. graph_get g h = Some n \<and> \<not> ch_is_ghost n) \<and>
    (\<forall>c n. graph_get g c = Some n \<and> h |\<in>| ch_deps n \<longrightarrow> ch_is_ghost n)"
proof -
  have "(case fmlookup (reverse_edges g) h of None \<Rightarrow> True
      | Some children \<Rightarrow> fBall children (is_ghost_node g)) \<longleftrightarrow>
      (\<forall>c. c |\<in>| children_of g h \<longrightarrow> is_ghost_node g c)"
    by (auto simp: children_of_def entry_or_default_def split: option.split)
  also have "\<dots> \<longleftrightarrow> (\<forall>c n. graph_get g c = Some n \<and> h |\<in>| ch_deps n \<longrightarrow> ch_is_ghost n)"
  proof -
    have "c |\<in>| children_of g h \<longleftrightarrow> (\<exists>n. graph_get g c = Some n \<and> h |\<in>| ch_deps n)" for c
      using assms by (auto simp: wf_graph_def deps_of_def entry_or_default_def graph_get_def
          split: option.splits)
    then show ?thesis by (auto simp: is_ghost_node_def graph_get_def)
  qed
  finally have kids: "(case fmlookup (reverse_edges g) h of None \<Rightarrow> True
      | Some children \<Rightarrow> fBall children (is_ghost_node g)) \<longleftrightarrow>
      (\<forall>c n. graph_get g c = Some n \<and> h |\<in>| ch_deps n \<longrightarrow> ch_is_ghost n)" .
  show ?thesis
    unfolding tip_ids_def ffmember_filter kids
    by (auto simp: fmlookup_dom_iff is_ghost_node_def graph_get_def)
qed

section \<open>A small graph\<close>

text \<open>A fork with a merge: \<open>1\<close> is the root, \<open>2\<close> and \<open>3\<close> depend on it, \<open>4\<close> on both.\<close>

definition node :: "u8 \<Rightarrow> u8 list \<Rightarrow> change" where
  "node i ds = sample_change\<lparr>ch_id := [i], ch_deps := fset_of_list (List.map (\<lambda>d. [d]) ds)\<rparr>"

definition diamond :: change_graph where
  "diamond = add_change (add_change (add_change (add_change graph_new (node 1 [])) (node 2 [1]))
     (node 3 [1])) (node 4 [2, 3])"

lemma diamond_deps:
  "deps_of diamond i = (if i = [4] then {|[2], [3]|} else if i = [3] then {|[1]|}
     else if i = [2] then {|[1]|} else {||})"
  by (simp add: diamond_def add_change_def deps_of_insert node_def)
    (simp add: graph_new_def deps_of_def entry_or_default_def)

lemma graph_get_add: "graph_get (add_change g c) i = (if i = ch_id c then Some c else graph_get g i)"
  by (simp add: graph_get_def add_change_def apply_insert_def Let_def)

lemma node_simps [simp]:
  "ch_id (node i ds) = [i]"
  "ch_deps (node i ds) = fset_of_list (List.map (\<lambda>d. [d]) ds)"
  "ch_is_ghost (node i ds) = False"
  by (simp_all add: node_def sample_change_def constructor_defs)

lemma diamond_get:
  "graph_get diamond i = (if i = [4] then Some (node 4 [2, 3]) else if i = [3] then Some (node 3 [1])
     else if i = [2] then Some (node 2 [1]) else if i = [1] then Some (node 1 []) else None)"
  by (simp add: diamond_def graph_get_add) (simp add: graph_get_def graph_new_def)

lemma wf_add_fresh: "wf_graph g \<Longrightarrow> graph_get g (ch_id c) = None \<Longrightarrow> wf_graph (add_change g c)"
  by (simp add: add_change_def graph_get_def wf_graph_insert)

lemma wf_diamond: "wf_graph diamond"
  unfolding diamond_def
  by (intro wf_add_fresh wf_graph_new) (simp_all add: graph_get_add, simp_all add: graph_get_def graph_new_def)

lemma acyclic_diamond: "acyclic (depends diamond)"
proof (rule acyclicI_order [where f = "\<lambda>h. case h of [] \<Rightarrow> 0 | b # bs \<Rightarrow> unat b"])
  fix a b assume "(a, b) \<in> depends diamond"
  then show "(case b of [] \<Rightarrow> 0 | b # bs \<Rightarrow> unat b) < (case a of [] \<Rightarrow> 0 | b # bs \<Rightarrow> unat b)"
    by (auto simp: depends_def diamond_deps split: if_splits)
qed

section \<open>Properties\<close>

lemma kahn_complete:
  assumes "acyclic (depends g)" and inv: "kahn_inv g (ancestors g hs) deg [] order"
  shows "set order = fset (ancestors g hs)"
proof -
  have "fset (ancestors g hs) - set order = {}"
  proof (rule ccontr)
    assume "fset (ancestors g hs) - set order \<noteq> {}"
    then obtain x where "x \<in> fset (ancestors g hs) - set order" by blast
    with assms(1) obtain z where z: "z \<in> fset (ancestors g hs) - set order"
      and min: "\<And>y. (z, y) \<in> depends g \<Longrightarrow> y \<notin> fset (ancestors g hs) - set order"
      by (rule acyclic_minimal) blast
    have "open_deps g (ancestors g hs) order z = {}"
      using min by (auto simp: open_deps_def depends_def)
    with inv z show False by (auto simp: kahn_inv_def)
  qed
  with inv show ?thesis by (auto simp: kahn_inv_def)
qed

text \<open>
  C26.  Application order: on a consistent acyclic graph the sort returns, without panicking,
  each change reachable from the heads exactly once, every one after all its dependencies.
\<close>

theorem topological_sort_correct:
  assumes "wf_graph g" and "acyclic (depends g)"
  shows "\<exists>order. topological_sort g hs = Some order \<and> distinct order \<and>
    set order = {x. \<exists>h. h |\<in>| hs \<and> (h, x) \<in> (depends g)\<^sup>*} \<and> roots_first g order"
proof -
  obtain order deg where sort: "topological_sort g hs = Some order"
    and inv: "kahn_inv g (ancestors g hs) deg [] order"
    using topological_sort_inv [OF assms(1)] by blast
  have "set order = fset (ancestors g hs)" by (rule kahn_complete [OF assms(2) inv])
  with sort inv show ?thesis
    by (auto simp: kahn_inv_def mem_ancestors_iff)
qed

theorem topological_sort_correct_witness:
  "\<exists>order. topological_sort diamond {|[4]|} = Some order \<and> distinct order \<and>
    set order = {x. \<exists>h. h |\<in>| {|[4]|} \<and> (h, x) \<in> (depends diamond)\<^sup>*} \<and> roots_first diamond order"
  by (rule topological_sort_correct [OF wf_diamond acyclic_diamond])





text \<open>
  Tips: on a consistent graph a change is a tip exactly when it is stored, is not a ghost
  and every stored change that depends on it is a ghost.
\<close>

theorem tip_ids_correct:
  assumes "wf_graph g"
  shows "h |\<in>| tip_ids g \<longleftrightarrow>
    (\<exists>n. graph_get g h = Some n \<and> \<not> ch_is_ghost n) \<and>
    \<not> (\<exists>c n. graph_get g c = Some n \<and> h |\<in>| ch_deps n \<and> \<not> ch_is_ghost n)"
  using mem_tip_ids_iff [OF assms] by blast

theorem tip_ids_correct_witness: "[4] |\<in>| tip_ids diamond \<and> [2] |\<notin>| tip_ids diamond"
  unfolding tip_ids_correct [OF wf_diamond] diamond_get
  by (auto split: if_splits intro!: exI [of _ "[4 :: u8]"])

definition purged_diamond :: change_graph where
  "purged_diamond = add_change diamond (erased (node 4 [2, 3]))"

lemma purged_deps:
  "deps_of purged_diamond i =
     (if i = [3] then {|[1]|} else if i = [2] then {|[1]|} else {||})"
  by (simp add: purged_diamond_def add_change_def deps_of_insert erased_def diamond_deps)

lemma purged_children:
  "children_of purged_diamond p = (if p = [1] then {|[2], [3]|}
     else if p = [2] \<or> p = [3] then {|[4]|} else {||})"
proof -
  have "children_of graph_new p = {||}"
    by (simp add: graph_new_def children_of_def entry_or_default_def)
  then show ?thesis
    by (auto simp: purged_diamond_def diamond_def add_change_def children_of_insert erased_def)
qed

text \<open>
  The consistency hypothesis is needed: after re-inserting the erasure of a change, the
  reverse edges still mention it, and the sort decrements a zero in-degree.
\<close>

theorem reinserted_tombstone_panics:
  "topological_sort (add_change diamond (erased (node 4 [2, 3]))) {|[2], [4]|} = None"
proof -
  have s: "sorted_list_of_fset {|[2], [4]|} = [[2], [4 :: u8]]"
    "sorted_list_of_fset {|[1 :: u8], [4]|} = [[1], [4]]"
    "sorted_list_of_fset {|[2], [3]|} = [[2], [3 :: u8]]"
    by (rule sorted_list_of_fset_unique; simp)+
  have anc: "ancestors purged_diamond {|[2], [4]|} = {|[1], [2], [4]|}"
    by (simp add: ancestors_def s purged_deps) auto
  have deg: "in_degree purged_diamond {|[1], [2], [4]|} =
      (\<lambda>i. if i = [1] then Some 0 else if i = [2] then Some 1 else if i = [4] then Some 0 else None)"
  proof -
    have "ffilter (\<lambda>d. d = [1] \<or> d = [2] \<or> d = [4]) {|[1]|} = {|[1 :: u8]|}" by auto
    moreover have "ffilter P {||} = {||}" for P :: "blake3_hash \<Rightarrow> bool" by auto
    ultimately show ?thesis by (simp add: in_degree_def purged_deps fun_eq_iff fcard.rep_eq)
  qed
  have roots: "ffilter (\<lambda>i. (if i = [1] then Some 0 else if i = [2] then Some 1
      else if i = [4] then Some 0 else None) = Some (0 :: nat)) {|[1 :: u8], [2], [4]|} = {|[1], [4]|}"
    by auto
  show ?thesis
    unfolding purged_diamond_def [symmetric] topological_sort_def anc Let_def deg roots s
    by (simp add: purged_children s)
qed

end
