(* ===== verification/Traversal.thy ===== *)
theory Traversal
  imports ContentHash
begin

text \<open>
  Support structures of the graph crate: the identity hasher for digest keys
  (\<^verbatim>\<open>arc-store-graph/src/blake3_hasher.rs\<close>) and the traversal metadata with its marker bits
  (\<^verbatim>\<open>arc-store-graph/src/traversal_state.rs\<close>).
\<close>

section \<open>The hasher\<close>

text \<open>\<^verbatim>\<open>u64::from_le_bytes\<close> of the first eight bytes.\<close>

fun from_le_bytes :: "bytes \<Rightarrow> u64" where
  "from_le_bytes [] = 0"
| "from_le_bytes (b # bs) = ucast b OR push_bit 8 (from_le_bytes bs)"

definition hasher_default :: u64 where
  "hasher_default = 0"

definition hasher_write :: "u64 \<Rightarrow> bytes \<Rightarrow> u64" where
  "hasher_write st bs = (if 8 \<le> length bs then from_le_bytes (take 8 bs) else st)"

definition hasher_finish :: "u64 \<Rightarrow> u64" where
  "hasher_finish st = st"

text \<open>The bucket hash depends on the first eight bytes of the last long write only.\<close>

lemma hasher_write_prefix:
  "8 \<le> length a \<Longrightarrow> 8 \<le> length b \<Longrightarrow> take 8 a = take 8 b \<Longrightarrow> hasher_write s a = hasher_write t b"
  by (simp add: hasher_write_def)

section \<open>Traversal metadata\<close>

type_synonym traversal_bits = u8

definition bit_SEEN :: traversal_bits where "bit_SEEN = push_bit 0 1"
definition bit_QUEUED :: traversal_bits where "bit_QUEUED = push_bit 1 1"
definition bit_COMMON :: traversal_bits where "bit_COMMON = push_bit 2 1"
definition bit_POPPED :: traversal_bits where "bit_POPPED = push_bit 3 1"
definition bit_ADVERTISED :: traversal_bits where "bit_ADVERTISED = push_bit 4 1"

definition bits_insert :: "traversal_bits \<Rightarrow> traversal_bits \<Rightarrow> traversal_bits" where
  "bits_insert self other = self OR other"

definition bits_remove :: "traversal_bits \<Rightarrow> traversal_bits \<Rightarrow> traversal_bits" where
  "bits_remove self other = self AND NOT other"

definition bits_contains :: "traversal_bits \<Rightarrow> traversal_bits \<Rightarrow> bool" where
  "bits_contains self other \<longleftrightarrow> self AND other = other"

record traversal_meta =
  original_ttl :: u16
  ttl :: u16
  bits :: traversal_bits

definition meta_default :: traversal_meta where
  "meta_default = \<lparr>original_ttl = 0, ttl = 0, bits = 0\<rparr>"

type_synonym 'k traversal_state = "('k, traversal_meta) fmap"

definition ts_new :: "'k traversal_state" where
  "ts_new = fmempty"

definition ts_get :: "'k traversal_state \<Rightarrow> 'k \<Rightarrow> traversal_meta option" where
  "ts_get s k = fmlookup s k"

definition meta_or_default :: "'k traversal_state \<Rightarrow> 'k \<Rightarrow> traversal_meta" where
  "meta_or_default s k = (case fmlookup s k of None \<Rightarrow> meta_default | Some m \<Rightarrow> m)"

definition ts_get_or_default :: "'k traversal_state \<Rightarrow> 'k \<Rightarrow> traversal_meta \<times> 'k traversal_state"
where
  "ts_get_or_default s k = (meta_or_default s k, fmupd k (meta_or_default s k) s)"

definition ts_mark :: "'k traversal_state \<Rightarrow> 'k \<Rightarrow> traversal_bits \<Rightarrow> 'k traversal_state" where
  "ts_mark s k b =
     (let m = meta_or_default s k in fmupd k (m\<lparr>bits := bits_insert (bits m) b\<rparr>) s)"

definition ts_clear :: "'k traversal_state \<Rightarrow> 'k \<Rightarrow> traversal_bits \<Rightarrow> 'k traversal_state" where
  "ts_clear s k b =
     (case fmlookup s k of
        None \<Rightarrow> s
      | Some m \<Rightarrow> fmupd k (m\<lparr>bits := bits_remove (bits m) b\<rparr>) s)"

definition ts_contains :: "'k traversal_state \<Rightarrow> 'k \<Rightarrow> traversal_bits \<Rightarrow> bool" where
  "ts_contains s k b =
     (case fmlookup s k of None \<Rightarrow> False | Some m \<Rightarrow> bits_contains (bits m) b)"

definition ts_refresh_ttl ::
  "'k traversal_state \<Rightarrow> 'k \<Rightarrow> u16 \<Rightarrow> u16 \<Rightarrow> 'k traversal_state" where
  "ts_refresh_ttl s k new_original new_ttl =
     (let m = meta_or_default s k;
          m' = (if new_original > original_ttl m
                then m\<lparr>original_ttl := new_original, ttl := new_ttl\<rparr> else m)
      in fmupd k m' s)"

definition ts_len :: "'k traversal_state \<Rightarrow> nat" where
  "ts_len s = fcard (fmdom s)"

definition ts_is_empty :: "'k traversal_state \<Rightarrow> bool" where
  "ts_is_empty s \<longleftrightarrow> fmdom s = {||}"

section \<open>Marks\<close>

lemma bit_u8_less: "bit (w :: u8) n \<Longrightarrow> n < 8"
  using bit_imp_le_length [of w n] by simp

lemma bits_contains_iff: "bits_contains a b \<longleftrightarrow> (\<forall>n. bit b n \<longrightarrow> bit a n)"
  by (auto simp: bits_contains_def bit_eq_iff bit_and_iff dest: bit_u8_less)

lemma ts_contains_mark:
  "ts_contains (ts_mark s k b) k' c \<longleftrightarrow>
   (if k' = k then bits_contains (bits_insert (bits (meta_or_default s k)) b) c
    else ts_contains s k' c)"
  by (simp add: ts_contains_def ts_mark_def Let_def)

lemma ts_contains_clear_other: "k' \<noteq> k \<Longrightarrow> ts_contains (ts_clear s k b) k' c = ts_contains s k' c"
  by (simp add: ts_contains_def ts_clear_def split: option.split)

text \<open>
  Marks are independent bit sets per node: a mark is seen after it is set, a cleared
  non-empty mark is gone, clearing one set of bits keeps every disjoint one, and the time to
  live never loses to a smaller original value.
\<close>

theorem traversal_marks:
  "ts_contains (ts_mark s k b) k b \<and>
   (b \<noteq> 0 \<longrightarrow> \<not> ts_contains (ts_clear s k b) k b) \<and>
   (b AND c = 0 \<longrightarrow> ts_contains (ts_clear s k b) k c = ts_contains s k c) \<and>
   original_ttl (meta_or_default (ts_refresh_ttl s k o1 t1) k)
     = max o1 (original_ttl (meta_or_default s k))"
proof (intro conjI impI)
  show "ts_contains (ts_mark s k b) k b"
    by (simp add: ts_contains_mark bits_contains_iff bits_insert_def bit_or_iff)
  show "\<not> ts_contains (ts_clear s k b) k b" if "b \<noteq> 0"
  proof -
    from that obtain n where "bit b n" by (metis bit_eq_iff bit_0_eq bot_apply bot_bool_def)
    then show ?thesis
      by (auto simp: ts_contains_def ts_clear_def bits_remove_def bits_contains_iff bit_and_iff
          bit_not_iff split: option.split)
  qed
  show "ts_contains (ts_clear s k b) k c = ts_contains s k c" if "b AND c = 0"
  proof -
    have "\<not> bit b n \<or> \<not> bit c n" for n
      using that by (metis bit_and_iff bit_0_eq bot_apply bot_bool_def)
    then show ?thesis
      by (auto simp: ts_contains_def ts_clear_def bits_remove_def bits_contains_iff bit_and_iff
          bit_not_iff split: option.split dest: bit_u8_less)
  qed
  show "original_ttl (meta_or_default (ts_refresh_ttl s k o1 t1) k)
     = max o1 (original_ttl (meta_or_default s k))"
    by (auto simp: ts_refresh_ttl_def meta_or_default_def Let_def max_def)
qed

theorem traversal_marks_witness:
  "ts_contains (ts_clear (ts_mark (ts_mark ts_new (1 :: nat) bit_SEEN) 1 bit_COMMON) 1 bit_SEEN) 1 bit_COMMON"
proof -
  let ?s = "ts_mark (ts_mark ts_new (1 :: nat) bit_SEEN) 1 bit_COMMON"
  have "bit_SEEN AND bit_COMMON = 0" by (simp add: bit_SEEN_def bit_COMMON_def)
  with traversal_marks [of ?s 1 bit_SEEN bit_COMMON]
  have "ts_contains (ts_clear ?s 1 bit_SEEN) 1 bit_COMMON = ts_contains ?s 1 bit_COMMON" by blast
  then show ?thesis
    by (simp add: ts_contains_mark bits_contains_iff bits_insert_def bit_or_iff)
qed

end
