(* ===== verification/Bisect.thy ===== *)
theory Bisect
  imports Graph
begin

text \<open>
  Bisection over the change DAG (\<^verbatim>\<open>arc-store-graph/src/bisect.rs\<close>): the tri-state marks, the
  deterministic midpoint and the propagation of marks to ancestors and descendants.  The
  persistence of the state in a file is not modelled.
\<close>

section \<open>The interface to the DAG\<close>

text \<open>
  What bisection and the other clients rely on: a reachability preorder that is
  antisymmetric on well-formed graphs, and a sort of any selection that never places an
  element before one it depends on.
\<close>

locale dag_view =
  fixes ok :: "'g \<Rightarrow> bool"
    and below :: "'g \<Rightarrow> 'id \<Rightarrow> 'id \<Rightarrow> bool"
    and sort_ids :: "'g \<Rightarrow> 'id fset \<Rightarrow> 'id list option"
  assumes below_refl: "below g x x"
    and below_trans: "below g x y \<Longrightarrow> below g y z \<Longrightarrow> below g x z"
    and sort_ids_Some: "ok g \<Longrightarrow> \<exists>order. sort_ids g S = Some order \<and> distinct order \<and>
      set order = fset S \<and> sorted_wrt (\<lambda>a b. \<not> below g a b) order"
begin

lemma sort_ids_total: "ok g \<Longrightarrow> sort_ids g S \<noteq> None"
  using sort_ids_Some [of g S] by auto

lemma sort_ids_set: "ok g \<Longrightarrow> sort_ids g S = Some order \<Longrightarrow> set order = fset S"
  using sort_ids_Some [of g S] by auto

lemma sort_ids_distinct: "ok g \<Longrightarrow> sort_ids g S = Some order \<Longrightarrow> distinct order"
  using sort_ids_Some [of g S] by auto

lemma sort_ids_order:
  assumes "ok g" and "sort_ids g S = Some order" and "i < j" "j < length order"
  shows "\<not> below g (order ! i) (order ! j)"
  using sort_ids_Some [OF assms(1), of S] assms(2-4) by (auto simp: sorted_wrt_iff_nth_less)

text \<open>Splitting a filtered order at a position: nothing before it is a dependent of it.\<close>

lemma filtered_split:
  assumes "ok g" and "sort_ids g S = Some order" and "us = filter P order" and "k < length us"
  shows "us ! k |\<in>| S \<and> P (us ! k) \<and>
    (\<forall>x\<in>set (take k us). \<not> below g x (us ! k)) \<and>
    (\<forall>x\<in>set (drop (Suc k) us). \<not> below g (us ! k) x)"
proof -
  have "sorted_wrt (\<lambda>a b. \<not> below g a b) us"
    using sort_ids_Some [OF assms(1), of S] assms(2,3) by (auto intro: sorted_wrt_filter)
  then have later: "\<not> below g (us ! i) (us ! j)" if "i < j" "j < length us" for i j
    using that by (auto simp: sorted_wrt_iff_nth_less)
  have "us ! k \<in> set us" using assms(4) by simp
  then have "us ! k |\<in>| S" "P (us ! k)"
    using assms(3) sort_ids_set [OF assms(1,2)] by auto
  moreover have "\<forall>x\<in>set (take k us). \<not> below g x (us ! k)"
    using later assms(4) by (auto simp: in_set_conv_nth)
  moreover have "\<forall>x\<in>set (drop (Suc k) us). \<not> below g (us ! k) x"
    using later by (auto simp: in_set_conv_nth)
  ultimately show ?thesis by blast
qed

end

definition dag_ok :: "change_graph \<Rightarrow> bool" where
  "dag_ok g \<longleftrightarrow> wf_graph g \<and> acyclic (depends g)"

text \<open>\<open>a\<close> is \<open>b\<close> or depends on it, directly or not.\<close>

definition reaches :: "change_graph \<Rightarrow> blake3_hash \<Rightarrow> blake3_hash \<Rightarrow> bool" where
  "reaches g a b \<longleftrightarrow> b |\<in>| ancestors g {|a|}"

lemma reaches_iff: "reaches g a b \<longleftrightarrow> (a, b) \<in> (depends g)\<^sup>*"
  by (simp add: reaches_def mem_ancestors_iff)

lemma roots_first_trancl:
  assumes "roots_first g order" and "i < length order" and "(order ! i, y) \<in> (depends g)\<^sup>+"
  shows "y \<in> set (take i order)"
  using assms(3)
proof (induction rule: trancl_induct)
  case (base y)
  with assms(1,2) show ?case by (auto simp: roots_first_def depends_def)
next
  case (step y z)
  then obtain k where k: "k < i" "order ! k = y" using assms(2) by (auto simp: in_set_conv_nth)
  with step(2) assms(1,2) have "z \<in> set (take k order)"
    by (auto simp: roots_first_def depends_def)
  then show ?case using k(1) set_take_subset_set_take [of k i order] by auto
qed

lemma topological_sort_order:
  assumes "dag_ok g" and "topological_sort g hs = Some order"
  shows "distinct order \<and> set order = fset (ancestors g hs) \<and>
    sorted_wrt (\<lambda>a b. \<not> reaches g a b) order"
proof -
  obtain deg where inv: "kahn_inv g (ancestors g hs) deg [] order"
    using topological_sort_inv [of g hs] assms by (auto simp: dag_ok_def)
  have "\<not> reaches g (order ! i) (order ! j)" if "i < j" "j < length order" for i j
  proof
    assume "reaches g (order ! i) (order ! j)"
    moreover have d: "order ! i \<noteq> order ! j"
      using inv that by (simp add: kahn_inv_def nth_eq_iff_index_eq)
    ultimately have "(order ! i, order ! j) \<in> (depends g)\<^sup>+"
      by (simp add: reaches_iff rtrancl_eq_or_trancl)
    with inv that have "order ! j \<in> set (take i order)"
      by (auto simp: kahn_inv_def intro!: roots_first_trancl)
    with inv that show False
      by (auto simp: kahn_inv_def in_set_conv_nth nth_eq_iff_index_eq)
  qed
  then have "sorted_wrt (\<lambda>a b. \<not> reaches g a b) order" by (simp add: sorted_wrt_iff_nth_less)
  moreover have "set order = fset (ancestors g hs)"
    using kahn_complete [OF _ inv] assms(1) by (simp add: dag_ok_def)
  ultimately show ?thesis using inv by (simp add: kahn_inv_def)
qed

interpretation change_dag: dag_view dag_ok reaches topological_sort_ids
proof (unfold_locales, goal_cases)
  case (3 g S)
  then obtain order where sort: "topological_sort g S = Some order"
    using topological_sort_inv [of g S] by (auto simp: dag_ok_def)
  note props = topological_sort_order [OF 3 sort]
  have "set (filter (\<lambda>i. i |\<in>| S) order) = fset S"
    using props heads_in_ancestors [of _ S g] by auto
  with props sort show ?case by (auto simp: topological_sort_ids_def intro: sorted_wrt_filter)
qed (auto simp: reaches_iff intro: rtrancl_trans)

section \<open>State and operations\<close>

datatype bisect_mark = Good | Bad | Untested

record bisect_state =
  range_expr :: string
  find_good :: bool
  candidates :: "change_id fset"
  marks :: "(change_id, bisect_mark) fmap"
  current :: "change_id option"
  started_at_unix :: u64

definition count_marks :: "bisect_mark \<Rightarrow> bisect_state \<Rightarrow> nat" where
  "count_marks m st = fcard (ffilter (\<lambda>k. fmlookup (marks st) k = Some m) (fmdom (marks st)))"

definition untested_count :: "bisect_state \<Rightarrow> nat" where
  "untested_count st = count_marks Untested st"

definition good_count :: "bisect_state \<Rightarrow> nat" where
  "good_count st = count_marks Good st"

definition bad_count :: "bisect_state \<Rightarrow> nat" where
  "bad_count st = count_marks Bad st"

text \<open>The clock reading is an argument.\<close>

definition bisect_start :: "u64 \<Rightarrow> string \<Rightarrow> change_id fset \<Rightarrow> bool \<Rightarrow> bisect_state" where
  "bisect_start now expr cands good =
     \<lparr>range_expr = expr, find_good = good, candidates = cands,
      marks = fmap_of_list (List.map (\<lambda>i. (i, Untested)) (sorted_list_of_fset cands)),
      current = None, started_at_unix = now\<rparr>"

definition mark_of :: "bisect_state \<Rightarrow> change_id \<Rightarrow> bisect_mark" where
  "mark_of st i = (case fmlookup (marks st) i of None \<Rightarrow> Untested | Some m \<Rightarrow> m)"

text \<open>The outer option is the panic of the sort, the inner one the result.\<close>

definition select_next :: "change_graph \<Rightarrow> bisect_state \<Rightarrow> change_id option option" where
  "select_next g st =
     map_option (\<lambda>ordered.
       let untested = filter (\<lambda>i. mark_of st i = Untested) ordered
       in if untested = [] then None else Some (untested ! (length untested div 2)))
     (topological_sort_ids g (candidates st))"

datatype bisect_error = AlreadyGood change_id | AlreadyBad change_id

definition set_checked_mark ::
  "bisect_state \<Rightarrow> change_id \<Rightarrow> bisect_mark \<Rightarrow> bisect_error + bisect_state" where
  "set_checked_mark st i next =
     (let prev = mark_of st i
      in if prev = Good \<and> next = Bad then Inl (AlreadyGood i)
         else if prev = Bad \<and> next = Good then Inl (AlreadyBad i)
         else Inr (st\<lparr>marks := fmupd i next (marks st)\<rparr>))"

text \<open>
  Marks set before a contradiction is met stay set: the loops return the state they reached
  and the error, if any.
\<close>

fun mark_good_loop ::
  "bisect_state \<Rightarrow> change_id list \<Rightarrow> bisect_state \<times> bisect_error option" where
  "mark_good_loop st [] = (st, None)"
| "mark_good_loop st (a # as) =
     (if a |\<in>| candidates st
      then (case set_checked_mark st a Good of
              Inl e \<Rightarrow> (st, Some e) | Inr st' \<Rightarrow> mark_good_loop st' as)
      else mark_good_loop st as)"

function mark_bad_loop ::
  "change_graph \<Rightarrow> bisect_state \<Rightarrow> change_id fset \<Rightarrow> change_id list \<Rightarrow>
   bisect_state \<times> bisect_error option" where
  "mark_bad_loop g st visited [] = (st, None)"
| "mark_bad_loop g st visited (cur # queue) =
     (if cur |\<in>| visited then mark_bad_loop g st visited queue
      else
        (case (if cur |\<in>| candidates st then set_checked_mark st cur Bad else Inr st) of
           Inl e \<Rightarrow> (st, Some e)
         | Inr st' \<Rightarrow> mark_bad_loop g st' (finsert cur visited) (queue @ child_ids g cur)))"
  by pat_completeness auto

lemma bfs_measure:
  assumes "cur |\<notin>| visited"
  shows "fcard (fmdom m |-| finsert cur visited) < fcard (fmdom m |-| visited) \<or>
    fcard (fmdom m |-| finsert cur visited) = fcard (fmdom m |-| visited) \<and>
    length (queue @ sorted_list_of_fset (entry_or_default m cur)) < length (cur # queue)"
proof (cases "cur |\<in>| fmdom m")
  case True
  with assms have "fmdom m |-| finsert cur visited |\<subset>| fmdom m |-| visited" by auto
  then show ?thesis by (simp add: pfsubset_fcard_mono)
next
  case False
  then have "fmdom m |-| finsert cur visited = fmdom m |-| visited" by auto
  with False show ?thesis by (simp add: entry_or_default_def fmdom_notD)
qed

termination mark_bad_loop
proof (relation "measures [\<lambda>(g, st, visited, queue). fcard (fmdom (reverse_edges g) |-| visited),
    \<lambda>(g, st, visited, queue). length queue]", goal_cases)
  case (3 g st visited cur queue st')
  from bfs_measure [OF 3(1), of "reverse_edges g" queue] show ?case
    by (auto simp: child_ids_def children_of_def)
qed auto

definition bisect_mark_op ::
  "change_graph \<Rightarrow> bisect_state \<Rightarrow> change_id \<Rightarrow> bisect_mark \<Rightarrow> bisect_state \<times> bisect_error option"
where
  "bisect_mark_op g st i m =
     (case m of
        Good \<Rightarrow> mark_good_loop st (sorted_list_of_fset (ancestors g {|i|}))
      | Bad \<Rightarrow> mark_bad_loop g st {||} [i]
      | Untested \<Rightarrow> (st\<lparr>marks := fmupd i Untested (marks st)\<rparr>, None))"

section \<open>Propagation\<close>

text \<open>Setting one mark on a list of candidates, the common shape of both loops.\<close>

fun mark_all ::
  "bisect_mark \<Rightarrow> bisect_state \<Rightarrow> change_id list \<Rightarrow> bisect_state \<times> bisect_error option" where
  "mark_all m st [] = (st, None)"
| "mark_all m st (a # as) =
     (case (if a |\<in>| candidates st then set_checked_mark st a m else Inr st) of
        Inl e \<Rightarrow> (st, Some e) | Inr st' \<Rightarrow> mark_all m st' as)"

lemma mark_good_loop_all: "mark_good_loop st as = mark_all Good st as"
  by (induction as arbitrary: st) (auto split: sum.split)

fun opposite :: "bisect_mark \<Rightarrow> bisect_mark" where
  "opposite Good = Bad"
| "opposite Bad = Good"
| "opposite Untested = Untested"

lemma set_checked_mark_Inr:
  "m \<noteq> Untested \<Longrightarrow> set_checked_mark st i m = Inr st' \<longleftrightarrow>
   mark_of st i \<noteq> opposite m \<and> st' = st\<lparr>marks := fmupd i m (marks st)\<rparr>"
  by (cases m) (auto simp: set_checked_mark_def Let_def)

lemma mark_of_upd: "mark_of (st\<lparr>marks := fmupd i m (marks st)\<rparr>) j = (if j = i then m else mark_of st j)"
  by (simp add: mark_of_def)

lemma mark_all_ok:
  assumes "m \<noteq> Untested"
    and "\<forall>a\<in>set as. a |\<in>| candidates st \<longrightarrow> mark_of st a \<noteq> opposite m"
  shows "\<exists>st'. mark_all m st as = (st', None) \<and> candidates st' = candidates st \<and>
    (\<forall>x. mark_of st' x = (if x \<in> set as \<and> x |\<in>| candidates st then m else mark_of st x))"
  using assms(2)
proof (induction as arbitrary: st)
  case (Cons a as)
  have ne: "m \<noteq> opposite m" using assms(1) by (cases m) auto
  show ?case
  proof (cases "a |\<in>| candidates st")
    case False
    with Cons show ?thesis by fastforce
  next
    case True
    let ?st = "st\<lparr>marks := fmupd a m (marks st)\<rparr>"
    have "set_checked_mark st a m = Inr ?st"
      using Cons.prems True assms(1) by (simp add: set_checked_mark_Inr)
    moreover have "\<exists>st'. mark_all m ?st as = (st', None) \<and> candidates st' = candidates ?st \<and>
      (\<forall>x. mark_of st' x = (if x \<in> set as \<and> x |\<in>| candidates ?st then m else mark_of ?st x))"
      by (rule Cons.IH) (use Cons.prems ne in \<open>auto simp: mark_of_upd\<close>)
    ultimately show ?thesis using True by (auto simp: mark_of_upd)
  qed
qed auto

text \<open>The order in which the search for descendants visits.\<close>

function bad_order :: "change_graph \<Rightarrow> change_id fset \<Rightarrow> change_id list \<Rightarrow> change_id list" where
  "bad_order g visited [] = []"
| "bad_order g visited (cur # queue) =
     (if cur |\<in>| visited then bad_order g visited queue
      else cur # bad_order g (finsert cur visited) (queue @ child_ids g cur))"
  by pat_completeness auto

termination bad_order
proof (relation "measures [\<lambda>(g, visited, queue). fcard (fmdom (reverse_edges g) |-| visited),
    \<lambda>(g, visited, queue). length queue]", goal_cases)
  case (3 g visited cur queue)
  from bfs_measure [OF 3, of "reverse_edges g" queue] show ?case
    by (auto simp: child_ids_def children_of_def)
qed auto

lemma mark_bad_loop_all: "mark_bad_loop g st visited queue = mark_all Bad st (bad_order g visited queue)"
proof (induction g st visited queue rule: mark_bad_loop.induct)
  case (2 g st visited cur queue)
  then show ?case by (cases "cur |\<in>| visited") (auto split: sum.split)
qed simp

lemma bad_order_sound:
  "wf_graph g \<Longrightarrow> x \<in> set (bad_order g visited queue) \<Longrightarrow> \<exists>s\<in>set queue. reaches g x s"
proof (induction g visited queue rule: bad_order.induct)
  case (2 g visited cur queue)
  show ?case
  proof (cases "cur |\<in>| visited")
    case True
    with 2 show ?thesis by auto
  next
    case False
    with 2 consider "x = cur" | s where "s \<in> set queue" "reaches g x s"
      | s where "s |\<in>| children_of g cur" "reaches g x s"
      by (auto simp: child_ids_def)
    then show ?thesis
      using children_iff_deps [OF 2(3), of _ cur]
      by cases (auto simp: reaches_iff intro: rtrancl_into_rtrancl)
  qed
qed simp

lemma bad_order_closed:
  "\<forall>v. v |\<in>| visited \<longrightarrow> fset (children_of g v) \<subseteq> fset visited \<union> set queue \<Longrightarrow>
   set queue \<subseteq> fset visited \<union> set (bad_order g visited queue) \<and>
   (\<forall>v \<in> fset visited \<union> set (bad_order g visited queue).
      fset (children_of g v) \<subseteq> fset visited \<union> set (bad_order g visited queue))"
proof (induction g visited queue rule: bad_order.induct)
  case (2 g visited cur queue)
  show ?case
  proof (cases "cur |\<in>| visited")
    case True
    then have "fset visited \<union> set (cur # queue) = fset visited \<union> set queue" by auto
    with 2 True show ?thesis by simp
  next
    case False
    have "\<forall>v. v |\<in>| finsert cur visited \<longrightarrow>
        fset (children_of g v) \<subseteq> fset (finsert cur visited) \<union> set (queue @ child_ids g cur)"
      using 2(3) by (auto simp: child_ids_def)
    from 2(2) [OF False this] False show ?thesis by auto
  qed
qed simp

lemma set_bad_order:
  assumes "wf_graph g"
  shows "set (bad_order g {||} [i]) = {x. reaches g x i}"
proof (intro equalityI subsetI CollectI)
  fix x assume "x \<in> set (bad_order g {||} [i])"
  from bad_order_sound [OF assms this] show "reaches g x i" by simp
next
  define S where "S = set (bad_order g {||} [i])"
  have S: "i \<in> S" "\<forall>v\<in>S. fset (children_of g v) \<subseteq> S"
    using bad_order_closed [of "{||}" g "[i]"] unfolding S_def by auto
  fix x assume "x \<in> {x. reaches g x i}"
  then have "(x, i) \<in> (depends g)\<^sup>*" by (simp add: reaches_iff)
  then have "x \<in> S"
    by (induction rule: converse_rtrancl_induct)
      (use S children_iff_deps [OF assms] in blast)+
  then show "x \<in> set (bad_order g {||} [i])" by (simp add: S_def)
qed

lemma mark_all_clash:
  assumes "m \<noteq> Untested" and "a \<in> set as" "a |\<in>| candidates st" "mark_of st a = opposite m"
  shows "snd (mark_all m st as) \<noteq> None"
  using assms(2-4)
proof (induction as arbitrary: st)
  case (Cons b as)
  show ?case
  proof (cases "set_checked_mark st b m")
    case (Inr st')
    then have st': "mark_of st b \<noteq> opposite m" "st' = st\<lparr>marks := fmupd b m (marks st)\<rparr>"
      using assms(1) by (simp_all add: set_checked_mark_Inr)
    with Cons.prems have "a \<noteq> b" "a \<in> set as" by auto
    with Cons.prems st'(2) have "snd (mark_all m st' as) \<noteq> None"
      by (intro Cons.IH) (simp_all add: mark_of_upd)
    moreover from \<open>a \<in> set as\<close> Cons.prems have "snd (mark_all m st as) \<noteq> None"
      by (intro Cons.IH)
    ultimately show ?thesis using Inr by simp
  next
    case (Inl e)
    show ?thesis
    proof (cases "b |\<in>| candidates st")
      case False
      with Cons.prems have "snd (mark_all m st as) \<noteq> None" by (intro Cons.IH) auto
      with False show ?thesis by simp
    qed (simp add: Inl)
  qed
qed simp

text \<open>The candidates a mark spreads to: ancestors for \<^verbatim>\<open>Good\<close>, descendants for \<^verbatim>\<open>Bad\<close>.\<close>

fun affected :: "change_graph \<Rightarrow> change_id \<Rightarrow> bisect_mark \<Rightarrow> change_id \<Rightarrow> bool" where
  "affected g i Good x \<longleftrightarrow> reaches g i x"
| "affected g i Bad x \<longleftrightarrow> reaches g x i"
| "affected g i Untested x \<longleftrightarrow> x = i"

lemma mark_op_all:
  assumes "wf_graph g" and "m \<noteq> Untested"
  shows "\<exists>as. bisect_mark_op g st i m = mark_all m st as \<and> set as = {x. affected g i m x}"
proof (cases m)
  case Good
  have "set (sorted_list_of_fset (ancestors g {|i|})) = {x. affected g i Good x}"
    by (auto simp: reaches_def)
  moreover have "bisect_mark_op g st i Good = mark_all Good st (sorted_list_of_fset (ancestors g {|i|}))"
    by (simp add: bisect_mark_op_def mark_good_loop_all)
  ultimately show ?thesis using Good by blast
next
  case Bad
  moreover have "set (bad_order g {||} [i]) = {x. affected g i Bad x}"
    using set_bad_order [OF assms(1), of i] by simp
  moreover have "bisect_mark_op g st i Bad = mark_all Bad st (bad_order g {||} [i])"
    by (simp add: bisect_mark_op_def mark_bad_loop_all)
  ultimately show ?thesis by blast
qed (use assms in simp)

lemma mark_op_ok:
  assumes "wf_graph g" and "m \<noteq> Untested"
    and "\<forall>x. affected g i m x \<and> x |\<in>| candidates st \<longrightarrow> mark_of st x \<noteq> opposite m"
  shows "\<exists>st'. bisect_mark_op g st i m = (st', None) \<and> candidates st' = candidates st \<and>
    (\<forall>x. mark_of st' x = (if affected g i m x \<and> x |\<in>| candidates st then m else mark_of st x))"
proof -
  obtain as where "bisect_mark_op g st i m = mark_all m st as" "set as = {x. affected g i m x}"
    using mark_op_all [OF assms(1,2)] by blast
  with mark_all_ok [OF assms(2), of as st] assms(3) show ?thesis by simp
qed

text \<open>
  A mark is accepted exactly when no candidate it spreads to carries the opposite mark;
  then it changes those candidates and nothing else.
\<close>

theorem bisect_mark_propagates:
  assumes "wf_graph g" and "m \<noteq> Untested"
  shows "(snd (bisect_mark_op g st i m) = None \<longleftrightarrow>
      \<not> (\<exists>x. affected g i m x \<and> x |\<in>| candidates st \<and> mark_of st x = opposite m)) \<and>
    (snd (bisect_mark_op g st i m) = None \<longrightarrow>
      (\<forall>x. mark_of (fst (bisect_mark_op g st i m)) x =
         (if affected g i m x \<and> x |\<in>| candidates st then m else mark_of st x)))"
proof (cases "\<exists>x. affected g i m x \<and> x |\<in>| candidates st \<and> mark_of st x = opposite m")
  case True
  obtain as where "bisect_mark_op g st i m = mark_all m st as" "set as = {x. affected g i m x}"
    using mark_op_all [OF assms] by blast
  with mark_all_clash [OF assms(2), of _ as st] True
  have "snd (bisect_mark_op g st i m) \<noteq> None" by auto
  with True show ?thesis by blast
next
  case False
  then obtain st' where "bisect_mark_op g st i m = (st', None)"
    "\<forall>x. mark_of st' x = (if affected g i m x \<and> x |\<in>| candidates st then m else mark_of st x)"
    using mark_op_ok [OF assms, of i st] by blast
  with False show ?thesis by simp
qed

theorem bisect_mark_propagates_witness:
  "mark_of (fst (bisect_mark_op diamond (bisect_start 0 [] {|[1], [2], [4]|} False) [2] Bad)) [4] = Bad"
proof -
  let ?st = "bisect_start 0 [] {|[1], [2], [4]|} False"
  have "mark_of ?st x = Untested" for x
    by (auto simp: mark_of_def bisect_start_def fmlookup_of_list dest!: map_of_SomeD split: option.split)
  moreover have "affected diamond [2] Bad [4]"
    by (auto simp: reaches_iff depends_def diamond_deps)
  moreover have "[4] |\<in>| candidates ?st" by (simp add: bisect_start_def)
  ultimately show ?thesis
    using bisect_mark_propagates [OF wf_diamond, of Bad ?st "[2]"] by simp
qed

section \<open>Sessions\<close>

text \<open>
  The true state of each change, as a test run would report it; badness is inherited by
  every change that depends on a bad one.
\<close>

definition verdict :: "(change_id \<Rightarrow> bool) \<Rightarrow> change_id \<Rightarrow> bisect_mark" where
  "verdict bad x = (if bad x then Bad else Good)"

definition inherited :: "change_graph \<Rightarrow> (change_id \<Rightarrow> bool) \<Rightarrow> bool" where
  "inherited g bad \<longleftrightarrow> (\<forall>x y. (x, y) \<in> depends g \<longrightarrow> bad y \<longrightarrow> bad x)"

definition truthful :: "(change_id \<Rightarrow> bool) \<Rightarrow> bisect_state \<Rightarrow> bool" where
  "truthful bad st \<longleftrightarrow> (\<forall>x. mark_of st x = Untested \<or> mark_of st x = verdict bad x)"

text \<open>The user loop: test the suggested change and record what the test says.\<close>

inductive bisect_session ::
  "change_graph \<Rightarrow> (change_id \<Rightarrow> bool) \<Rightarrow> bisect_state \<Rightarrow> bisect_state \<Rightarrow> bool"
  for g bad where
  begin_session: "bisect_session g bad st st"
| test_one: "bisect_session g bad st st1 \<Longrightarrow> select_next g st1 = Some (Some i) \<Longrightarrow>
    bisect_mark_op g st1 i (verdict bad i) = (st2, None) \<Longrightarrow> bisect_session g bad st st2"

lemma inherited_reaches: "inherited g bad \<Longrightarrow> reaches g x y \<Longrightarrow> bad y \<Longrightarrow> bad x"
proof -
  assume inh: "inherited g bad" and y: "bad y" and "reaches g x y"
  then have "(x, y) \<in> (depends g)\<^sup>*" by (simp add: reaches_iff)
  then show "bad x"
    by (induction rule: converse_rtrancl_induct) (use inh y in \<open>auto simp: inherited_def\<close>)
qed

lemma affected_verdict:
  "inherited g bad \<Longrightarrow> affected g i (verdict bad i) x \<Longrightarrow> verdict bad x = verdict bad i"
  by (auto simp: verdict_def dest: inherited_reaches split: if_splits)

lemma affected_self: "affected g i m i"
  by (cases m) (simp_all add: reaches_iff)

lemma truthful_mark:
  assumes "wf_graph g" and "inherited g bad" and "truthful bad st"
  obtains st' where "bisect_mark_op g st i (verdict bad i) = (st', None)"
    and "truthful bad st'" and "candidates st' = candidates st"
    and "{x. x |\<in>| candidates st \<and> mark_of st' x = Untested}
       = {x. x |\<in>| candidates st \<and> mark_of st x = Untested \<and> \<not> affected g i (verdict bad i) x}"
proof -
  have v: "verdict bad i \<noteq> Untested" by (simp add: verdict_def)
  have "mark_of st x \<noteq> opposite (verdict bad i)" if "affected g i (verdict bad i) x" for x
  proof -
    have "opposite (verdict bad i) \<noteq> Untested" "opposite (verdict bad i) \<noteq> verdict bad i"
      by (simp_all add: verdict_def)
    moreover have "mark_of st x = Untested \<or> mark_of st x = verdict bad i"
      using assms(3) affected_verdict [OF assms(2) that] by (auto simp: truthful_def)
    ultimately show ?thesis by auto
  qed
  then obtain st' where st': "bisect_mark_op g st i (verdict bad i) = (st', None)"
    "candidates st' = candidates st"
    "\<forall>x. mark_of st' x = (if affected g i (verdict bad i) x \<and> x |\<in>| candidates st
        then verdict bad i else mark_of st x)"
    using mark_op_ok [OF assms(1) v, of i st] by blast
  have "truthful bad st'"
    using assms(3) affected_verdict [OF assms(2)] st'(3) by (auto simp: truthful_def)
  moreover have "{x. x |\<in>| candidates st \<and> mark_of st' x = Untested}
       = {x. x |\<in>| candidates st \<and> mark_of st x = Untested \<and> \<not> affected g i (verdict bad i) x}"
    using st'(3) v by auto
  ultimately show thesis using st' by (intro that)
qed

lemma select_next_cases:
  assumes "dag_ok g"
  shows "(select_next g st = Some None \<and> (\<forall>x. x |\<in>| candidates st \<longrightarrow> mark_of st x \<noteq> Untested)) \<or>
    (\<exists>i. select_next g st = Some (Some i) \<and> i |\<in>| candidates st \<and> mark_of st i = Untested)"
proof -
  obtain order where o: "topological_sort_ids g (candidates st) = Some order"
    using change_dag.sort_ids_total [OF assms] by blast
  let ?us = "filter (\<lambda>i. mark_of st i = Untested) order"
  show ?thesis
  proof (cases "?us = []")
    case True
    with o change_dag.sort_ids_set [OF assms o] show ?thesis
      by (auto simp: select_next_def filter_empty_conv Let_def)
  next
    case False
    then have "length ?us div 2 < length ?us" by simp
    from change_dag.filtered_split [OF assms o refl this] False o show ?thesis
      by (auto simp: select_next_def Let_def)
  qed
qed

lemma session_invariant:
  assumes "bisect_session g bad st0 st" and "wf_graph g" and "inherited g bad" and "truthful bad st0"
  shows "truthful bad st \<and> candidates st = candidates st0"
  using assms
proof (induction rule: bisect_session.induct)
  case (test_one st st1 i st2)
  then have "truthful bad st1" "candidates st1 = candidates st" by auto
  with test_one show ?case by (metis Pair_inject truthful_mark)
qed simp

lemma mark_of_start [simp]: "mark_of (bisect_start now expr cands good) x = Untested"
  by (auto simp: mark_of_def bisect_start_def fmlookup_of_list dest!: map_of_SomeD split: option.split)

text \<open>
  C29.  Bisection finds what the tests say: in a session on a consistent acyclic graph with
  inherited badness, every mark equals the true verdict, the session can continue until
  nothing is untested, each test lowers the number of untested candidates, and at the end
  every candidate carries its verdict.
\<close>

theorem bisect_session_correct:
  assumes "dag_ok g" and "inherited g bad"
    and "bisect_session g bad (bisect_start now expr cands good) st"
  shows "(\<forall>x. mark_of st x = Untested \<or> mark_of st x = verdict bad x) \<and>
    ((select_next g st = Some None \<and> (\<forall>x. x |\<in>| cands \<longrightarrow> mark_of st x = verdict bad x)) \<or>
     (\<exists>i st'. select_next g st = Some (Some i) \<and>
        bisect_mark_op g st i (verdict bad i) = (st', None) \<and>
        card {x. x |\<in>| cands \<and> mark_of st' x = Untested}
          < card {x. x |\<in>| cands \<and> mark_of st x = Untested}))"
proof -
  have wf: "wf_graph g" using assms(1) by (simp add: dag_ok_def)
  have "truthful bad (bisect_start now expr cands good)" by (simp add: truthful_def)
  from session_invariant [OF assms(3) wf assms(2) this]
  have tr: "truthful bad st" and c: "candidates st = cands" by (auto simp: bisect_start_def)
  from select_next_cases [OF assms(1), of st]
  show ?thesis
  proof
    assume "select_next g st = Some None \<and> (\<forall>x. x |\<in>| candidates st \<longrightarrow> mark_of st x \<noteq> Untested)"
    with tr c show ?thesis by (auto simp: truthful_def)
  next
    assume "\<exists>i. select_next g st = Some (Some i) \<and> i |\<in>| candidates st \<and> mark_of st i = Untested"
    then obtain i where i: "select_next g st = Some (Some i)" "i |\<in>| cands" "mark_of st i = Untested"
      using c by blast
    obtain st' where st': "bisect_mark_op g st i (verdict bad i) = (st', None)"
      and un: "{x. x |\<in>| candidates st \<and> mark_of st' x = Untested}
       = {x. x |\<in>| candidates st \<and> mark_of st x = Untested \<and> \<not> affected g i (verdict bad i) x}"
      using truthful_mark [OF wf assms(2) tr] by blast
    have "finite {x. x |\<in>| cands \<and> mark_of st x = Untested}"
      by (rule finite_subset [of _ "fset cands"]) auto
    moreover have "{x. x |\<in>| cands \<and> mark_of st' x = Untested}
        \<subset> {x. x |\<in>| cands \<and> mark_of st x = Untested}"
      using un [unfolded c] i affected_self [of g i "verdict bad i"] by blast
    ultimately have "card {x. x |\<in>| cands \<and> mark_of st' x = Untested}
        < card {x. x |\<in>| cands \<and> mark_of st x = Untested}" by (rule psubset_card_mono)
    with tr i(1) st' show ?thesis by (auto simp: truthful_def)
  qed
qed

theorem bisect_session_correct_witness:
  "\<exists>i st'. select_next diamond (bisect_start 0 [] {|[1], [2], [4]|} False) = Some (Some i) \<and>
     bisect_mark_op diamond (bisect_start 0 [] {|[1], [2], [4]|} False) i (verdict (\<lambda>x. x = [4]) i)
       = (st', None)"
proof -
  let ?st = "bisect_start 0 [] {|[1], [2], [4]|} False"
  have "dag_ok diamond" by (simp add: dag_ok_def wf_diamond acyclic_diamond)
  moreover have "inherited diamond (\<lambda>x. x = [4])"
    by (auto simp: inherited_def depends_def diamond_deps split: if_splits)
  ultimately have "select_next diamond ?st = Some None \<and>
        (\<forall>x. x |\<in>| {|[1], [2], [4]|} \<longrightarrow> mark_of ?st x = verdict (\<lambda>x. x = [4]) x) \<or>
      (\<exists>i st'. select_next diamond ?st = Some (Some i) \<and>
        bisect_mark_op diamond ?st i (verdict (\<lambda>x. x = [4]) i) = (st', None))"
    using bisect_session_correct [OF _ _ begin_session, of diamond "\<lambda>x. x = [4]" 0 "[]"
        "{|[1], [2], [4]|}" False]
    by blast
  moreover have "mark_of ?st [1] \<noteq> verdict (\<lambda>x. x = [4]) [1]" by (simp add: verdict_def)
  ultimately show ?thesis by blast
qed

end
