(* ===== verification/Revset.thy ===== *)
theory Revset
  imports Graph
begin

text \<open>
  The revset query language (\<^verbatim>\<open>arc-revset/src/parser.rs\<close>, \<^verbatim>\<open>engine.rs\<close>): the builder from
  parse trees to expressions and the compiler from expressions to iterators over a graph.

  The parser itself is generated by \<^verbatim>\<open>pest\<close> at build time, so a parse tree is an input of the
  model.  The graph is immutable during a query and the resolvers are called while
  compiling, so a lazy iterator is the list of the items it yields.
\<close>

section \<open>Expressions and parse trees\<close>

datatype revset_expression =
    Symbol string
  | StringLiteral string
  | Function string "revset_expression list"
  | Intersection revset_expression revset_expression
  | Union revset_expression revset_expression

datatype rule =
    RQuery | RExpression | RUnion | RIntersection | RPrimary | RFunctionCall | RArgs | RSymbol
  | RStringLiteral | REOI

datatype pair = Pair (as_rule: rule) (as_str: string) (into_inner: "pair list")

datatype parse_error =
    PestError | ExpectedQuery | NoExpression | NoInner rule | NoOperands rule
  | InvalidLiteral | UnterminatedEscape | UnsupportedEscape char
  | MissingName | UnexpectedInner rule | UnexpectedRule rule

fun unescape_chars :: "string \<Rightarrow> parse_error + string" where
  "unescape_chars [] = Inr []"
| "unescape_chars (ch # cs) =
     (if ch = CHR 0x5C then
        (case cs of
           [] \<Rightarrow> Inl UnterminatedEscape
         | escaped # rest \<Rightarrow>
             if escaped = CHR 0x5C \<or> escaped = CHR 0x22
             then map_result ((#) escaped) (unescape_chars rest)
             else Inl (UnsupportedEscape escaped))
      else map_result ((#) ch) (unescape_chars cs))"

definition unescape_string_literal :: "string \<Rightarrow> parse_error + string" where
  "unescape_string_literal raw =
     (if length raw < 2 \<or> hd raw \<noteq> CHR 0x22 \<or> last raw \<noteq> CHR 0x22 then Inl InvalidLiteral
      else unescape_chars (butlast (tl raw)))"

fun fold_left :: "('e \<Rightarrow> 'e \<Rightarrow> 'e) \<Rightarrow> 'e \<Rightarrow> 'e list \<Rightarrow> 'e" where
  "fold_left f acc [] = acc"
| "fold_left f acc (x # xs) = fold_left f (f acc x) xs"

text \<open>
  \<^verbatim>\<open>build_union\<close> and \<^verbatim>\<open>build_intersection\<close>: the operands are built lazily from the left and the
  first error wins, as in \<open>traverse\<close>; then they are combined to the left.
\<close>

definition combine_operands ::
  "rule \<Rightarrow> ('e \<Rightarrow> 'e \<Rightarrow> 'e) \<Rightarrow> parse_error + 'e list \<Rightarrow> parse_error + 'e" where
  "combine_operands r f parts =
     bind_result parts (\<lambda>es. case es of
        [] \<Rightarrow> Inl (NoOperands r) | e # rest \<Rightarrow> Inr (fold_left f e rest))"

lemma traverse_cong [fundef_cong]:
  "xs = ys \<Longrightarrow> (\<And>x. x \<in> set ys \<Longrightarrow> f x = g x) \<Longrightarrow> traverse f xs = traverse g ys"
  by (induction ys arbitrary: xs) auto

function build_expression :: "pair \<Rightarrow> parse_error + revset_expression" where
  "build_expression (Pair r s inner) =
     (case r of
        RExpression \<Rightarrow>
          (case inner of [] \<Rightarrow> Inl (NoInner RExpression) | p # ps \<Rightarrow> build_expression p)
      | RUnion \<Rightarrow> combine_operands RUnion Union (traverse build_expression inner)
      | RIntersection \<Rightarrow>
          combine_operands RIntersection Intersection (traverse build_expression inner)
      | RPrimary \<Rightarrow>
          (case inner of [] \<Rightarrow> Inl (NoInner RPrimary) | p # ps \<Rightarrow> build_expression p)
      | RFunctionCall \<Rightarrow>
          (case inner of
             [] \<Rightarrow> Inl MissingName
           | name # rest \<Rightarrow>
              (case rest of
                 [] \<Rightarrow> Inr (Function (as_str name) [])
               | Pair r' s' args # ps \<Rightarrow>
                   if r' = RArgs
                   then map_result (Function (as_str name)) (traverse build_expression args)
                   else Inl (UnexpectedInner r')))
      | RStringLiteral \<Rightarrow> map_result StringLiteral (unescape_string_literal s)
      | RSymbol \<Rightarrow> Inr (Symbol s)
      | _ \<Rightarrow> Inl (UnexpectedRule r))"
  by pat_completeness auto

lemma size_in_list: "x \<in> set xs \<Longrightarrow> size x < Suc (size_list size xs)"
  by (induction xs) auto

termination build_expression
  by (relation "measure size") (auto simp: less_Suc_eq_le dest!: size_in_list)

text \<open>\<^verbatim>\<open>parse\<close> on the outcome of the generated parser.\<close>

definition parse_revset :: "pair list option \<Rightarrow> parse_error + revset_expression" where
  "parse_revset pest_result =
     (case pest_result of
        None \<Rightarrow> Inl PestError
      | Some [] \<Rightarrow> Inl ExpectedQuery
      | Some (query # rest) \<Rightarrow>
          (case into_inner query of
             [] \<Rightarrow> Inl NoExpression
           | expression # others \<Rightarrow> build_expression expression))"

section \<open>Compilation\<close>

datatype revset_error =
    UnknownSymbol string
  | MisplacedString
  | ExpectsOne string
  | ExpectsTwo string
  | ExpectsNone string
  | ExpectsString string
  | UnsupportedFunction string
  | NeedsResolver string
  | ResolverError string

type_synonym symbol_resolver = "string \<Rightarrow> revset_error + change_id option"
type_synonym reference_resolver = "string \<Rightarrow> revset_error + change_id fset"

text \<open>\<^verbatim>\<open>u8::from_str_radix(pair, 16)\<close> on two bytes: a leading plus sign is accepted.\<close>

definition hex_pair_value :: "char \<Rightarrow> char \<Rightarrow> u8 option" where
  "hex_pair_value a b =
     (if a = CHR ''+'' then map_option word_of_nat (hex_val (of_char b))
      else Option.bind (hex_val (of_char a)) (\<lambda>h.
             map_option (\<lambda>l. word_of_nat (16 * h + l)) (hex_val (of_char b))))"

fun hex_chunks :: "string \<Rightarrow> bytes option" where
  "hex_chunks (a # b # rest) =
     Option.bind (hex_pair_value a b) (\<lambda>v. map_option ((#) v) (hex_chunks rest))"
| "hex_chunks _ = Some []"

definition parse_hex_hash :: "string \<Rightarrow> blake3_hash option" where
  "parse_hex_hash input = (if length input \<noteq> 64 then None else hex_chunks input)"

definition compile_symbol ::
  "change_graph \<Rightarrow> symbol_resolver \<Rightarrow> string \<Rightarrow> revset_error + change_id list" where
  "compile_symbol g resolve_symbol name =
     (case change_id_from_hex name of
        Inr i \<Rightarrow> (case graph_get g i of None \<Rightarrow> Inl (UnknownSymbol name) | Some c \<Rightarrow> Inr [i])
      | Inl e \<Rightarrow>
     (case parse_hex_hash name of
        Some h \<Rightarrow> (case graph_get g h of None \<Rightarrow> Inl (UnknownSymbol name) | Some c \<Rightarrow> Inr [h])
      | None \<Rightarrow>
          bind_result (resolve_symbol name) (\<lambda>r. case r of
             Some i \<Rightarrow> Inr [i] | None \<Rightarrow> Inl (UnknownSymbol name))))"

text \<open>\<^verbatim>\<open>UnionIterator\<close>: the left items, then the right ones, each once.\<close>

function (sequential) union_items ::
  "change_id list \<Rightarrow> change_id list \<Rightarrow> change_id fset \<Rightarrow> bool \<Rightarrow> change_id list" where
  "union_items (x # left) right seen True =
     (if x |\<in>| seen then union_items left right seen True
      else x # union_items left right (finsert x seen) True)"
| "union_items [] right seen True = union_items [] right seen False"
| "union_items left [] seen False = []"
| "union_items left (x # right) seen False =
     (if x |\<in>| seen then union_items left right seen False
      else x # union_items left right (finsert x seen) False)"
  by pat_completeness auto

termination union_items
  by (relation "measure (\<lambda>(left, right, seen, on_left).
      length left + length right + (if on_left then 1 else 0))") auto

text \<open>\<^verbatim>\<open>AncestorsIterator\<close>, which follows the dependencies of the stored changes.\<close>

definition stored_deps :: "change_graph \<Rightarrow> change_id \<Rightarrow> change_id list" where
  "stored_deps g i =
     (case graph_get g i of None \<Rightarrow> [] | Some c \<Rightarrow> sorted_list_of_fset (ch_deps c))"

function ancestors_items ::
  "change_graph \<Rightarrow> change_id list \<Rightarrow> change_id fset \<Rightarrow> change_id list" where
  "ancestors_items g [] seen = []"
| "ancestors_items g (current # queue) seen =
     (if current |\<in>| seen then ancestors_items g queue seen
      else current #
        ancestors_items g
          (queue @ filter (\<lambda>d. d |\<notin>| finsert current seen) (stored_deps g current))
          (finsert current seen))"
  by pat_completeness auto

termination ancestors_items
proof (relation "measures [\<lambda>(g, queue, seen). fcard (fmdom (nodes g) |-| seen),
    \<lambda>(g, queue, seen). length queue]", goal_cases)
  case (3 g current queue seen)
  show ?case
  proof (cases "current |\<in>| fmdom (nodes g)")
    case True
    with 3 have "fmdom (nodes g) |-| finsert current seen |\<subset>| fmdom (nodes g) |-| seen" by auto
    then show ?thesis by (simp add: pfsubset_fcard_mono)
  next
    case False
    then have "fmdom (nodes g) |-| finsert current seen = fmdom (nodes g) |-| seen" by auto
    with False show ?thesis by (simp add: stored_deps_def graph_get_def fmdom_notD)
  qed
qed auto

fun touches_node_path :: "string \<Rightarrow> node_path \<Rightarrow> bool" where
  "touches_node_path path [] = False"
| "touches_node_path path (s # rest) =
     (if s = ''file'' then (case rest of [] \<Rightarrow> False | f # deeper \<Rightarrow> f = path) else s = path)"

definition change_touches_repo_path :: "change \<Rightarrow> string \<Rightarrow> bool" where
  "change_touches_repo_path c path =
     list_ex (\<lambda>a. case a of Blob p h n \<Rightarrow> p = path
       | _ \<Rightarrow> list_ex (touches_node_path path) (paths a)) (ch_atoms c)"

definition parse_single_string_arg ::
  "string \<Rightarrow> revset_expression list \<Rightarrow> revset_error + string" where
  "parse_single_string_arg name args =
     (case args of
        [StringLiteral v] \<Rightarrow> Inr v
      | [_] \<Rightarrow> Inl (ExpectsString name)
      | _ \<Rightarrow> Inl (ExpectsOne name))"

definition graph_changes :: "change_graph \<Rightarrow> change fset" where
  "graph_changes g = fmran (nodes g)"

definition touched_ids :: "change_graph \<Rightarrow> string \<Rightarrow> change_id fset" where
  "touched_ids g path = ch_id |`| ffilter (\<lambda>c. change_touches_repo_path c path) (graph_changes g)"

definition ids_between :: "change_graph \<Rightarrow> change_id list \<Rightarrow> change_id list \<Rightarrow> change_id fset" where
  "ids_between g from_heads to_heads =
     ancestors g (fset_of_list to_heads) |-| ancestors g (fset_of_list from_heads)"

definition ids_symmetric :: "change_graph \<Rightarrow> change_id list \<Rightarrow> change_id list \<Rightarrow> change_id fset" where
  "ids_symmetric g ls rs = ids_between g ls rs |\<union>| ids_between g rs ls"

definition ids_merge_base :: "change_graph \<Rightarrow> change_id list \<Rightarrow> change_id list \<Rightarrow> change_id fset" where
  "ids_merge_base g ls rs =
     (case merge_base_deterministic g (fset_of_list ls) (fset_of_list rs) of
        None \<Rightarrow> {||} | Some i \<Rightarrow> {|i|})"

text \<open>Evaluation of the two arguments of a binary function, left first.\<close>

definition eval_two ::
  "string \<Rightarrow> revset_expression list \<Rightarrow> (revset_expression \<Rightarrow> revset_error + change_id list) \<Rightarrow>
   (change_id list \<Rightarrow> change_id list \<Rightarrow> change_id fset) \<Rightarrow> revset_error + change_id list" where
  "eval_two name args ev f =
     (case args of
        [l, r] \<Rightarrow>
          bind_result (ev l) (\<lambda>ls. bind_result (ev r) (\<lambda>rs. Inr (sorted_list_of_fset (f ls rs))))
      | _ \<Rightarrow> Inl (ExpectsTwo name))"

lemma eval_two_cong [fundef_cong]:
  "args = args' \<Longrightarrow> (\<And>x. x \<in> set args' \<Longrightarrow> ev x = ev' x) \<Longrightarrow>
   eval_two name args ev f = eval_two name args' ev' f"
  by (auto simp: eval_two_def split: list.split)

function (sequential) compile_impl_change_ids ::
  "change_graph \<Rightarrow> symbol_resolver \<Rightarrow> reference_resolver \<Rightarrow> revset_expression \<Rightarrow>
   revset_error + change_id list"
and compile_function ::
  "change_graph \<Rightarrow> symbol_resolver \<Rightarrow> reference_resolver \<Rightarrow> string \<Rightarrow> revset_expression list \<Rightarrow>
   revset_error + change_id list" where
  "compile_impl_change_ids g rs rr (Symbol name) = compile_symbol g rs name"
| "compile_impl_change_ids g rs rr (StringLiteral s) = Inl MisplacedString"
| "compile_impl_change_ids g rs rr (Union l r) =
     bind_result (compile_impl_change_ids g rs rr l) (\<lambda>left.
     bind_result (compile_impl_change_ids g rs rr r) (\<lambda>right.
       Inr (union_items left right {||} True)))"
| "compile_impl_change_ids g rs rr (Intersection l r) =
     bind_result (compile_impl_change_ids g rs rr l) (\<lambda>left.
     bind_result (compile_impl_change_ids g rs rr r) (\<lambda>right.
       let right_set = fset_of_list right in Inr (filter (\<lambda>h. h |\<in>| right_set) left)))"
| "compile_impl_change_ids g rs rr (Function name args) = compile_function g rs rr name args"
| "compile_function g rs rr name args =
     (if name = ''ancestors'' then
        (case args of
           [arg] \<Rightarrow> bind_result (compile_impl_change_ids g rs rr arg) (\<lambda>starts.
                      Inr (ancestors_items g starts {||}))
         | _ \<Rightarrow> Inl (ExpectsOne name))
      else if name = ''tags'' \<or> name = ''remote_branches'' \<or> name = ''bookmarks'' then
        (if args \<noteq> [] then Inl (ExpectsNone name)
         else bind_result (rr name) (\<lambda>hs. Inr (sorted_list_of_fset hs)))
      else if name = ''touched'' then
        bind_result (parse_single_string_arg name args) (\<lambda>path.
          Inr (sorted_list_of_fset (touched_ids g path)))
      else if name = ''range'' then
        eval_two name args (compile_impl_change_ids g rs rr) (ids_between g)
      else if name = ''symmetric'' then
        eval_two name args (compile_impl_change_ids g rs rr) (ids_symmetric g)
      else if name = ''merge_base'' then
        eval_two name args (compile_impl_change_ids g rs rr) (ids_merge_base g)
      else Inl (UnsupportedFunction name))"
  by pat_completeness auto

termination
  by (relation "measure (\<lambda>x. case x of Inl (g, rs, rr, e) \<Rightarrow> 2 * size e
       | Inr (g, rs, rr, name, args) \<Rightarrow> 2 * size_list size args + 1)")
    (auto dest!: size_in_list)

definition compile_change_ids_with_refs ::
  "revset_expression \<Rightarrow> change_graph \<Rightarrow> symbol_resolver \<Rightarrow> reference_resolver \<Rightarrow>
   revset_error + change_id list" where
  "compile_change_ids_with_refs e g rs rr = compile_impl_change_ids g rs rr e"

definition compile_change_ids ::
  "revset_expression \<Rightarrow> change_graph \<Rightarrow> symbol_resolver \<Rightarrow> revset_error + change_id list" where
  "compile_change_ids e g rs = compile_impl_change_ids g rs (\<lambda>name. Inl (NeedsResolver name)) e"

definition compile_revset ::
  "revset_expression \<Rightarrow> change_graph \<Rightarrow> symbol_resolver \<Rightarrow> revset_error + blake3_hash list" where
  "compile_revset e g rs = compile_change_ids e g rs"

record revset_evaluator =
  ev_graph :: change_graph
  ev_symbols :: symbol_resolver
  ev_refs :: reference_resolver

definition evaluate :: "revset_evaluator \<Rightarrow> revset_expression \<Rightarrow> revset_error + change_id list" where
  "evaluate ev e = compile_impl_change_ids (ev_graph ev) (ev_symbols ev) (ev_refs ev) e"

section \<open>Iterators\<close>

lemma union_items_correct:
  "distinct (union_items left right seen b) \<and>
   set (union_items left right seen b) = (set (if b then left else []) \<union> set right) - fset seen"
  by (induction left right seen b rule: union_items.induct) auto

lemma ancestors_items_distinct:
  "distinct (ancestors_items g queue seen) \<and> set (ancestors_items g queue seen) \<inter> fset seen = {}"
  by (induction g queue seen rule: ancestors_items.induct) auto

lemma stored_deps_wf: "wf_graph g \<Longrightarrow> set (stored_deps g i) = fset (deps_of g i)"
  by (auto simp: wf_graph_def stored_deps_def deps_of_def entry_or_default_def graph_get_def
      split: option.splits)

lemma ancestors_items_sound:
  "wf_graph g \<Longrightarrow> x \<in> set (ancestors_items g queue seen) \<Longrightarrow> \<exists>s\<in>set queue. (s, x) \<in> (depends g)\<^sup>*"
proof (induction g queue seen rule: ancestors_items.induct)
  case (2 g current queue seen)
  show ?case
  proof (cases "current |\<in>| seen")
    case True
    with 2 show ?thesis by auto
  next
    case False
    with 2 consider "x = current" | s where "s \<in> set queue" "(s, x) \<in> (depends g)\<^sup>*"
      | s where "s |\<in>| deps_of g current" "(s, x) \<in> (depends g)\<^sup>*"
      by (auto simp: stored_deps_wf)
    then show ?thesis
      by cases (auto simp: depends_def intro: converse_rtrancl_into_rtrancl)
  qed
qed simp

lemma ancestors_items_closed:
  "wf_graph g \<Longrightarrow> \<forall>v. v |\<in>| seen \<longrightarrow> fset (deps_of g v) \<subseteq> fset seen \<union> set queue \<Longrightarrow>
   set queue \<subseteq> fset seen \<union> set (ancestors_items g queue seen) \<and>
   (\<forall>v \<in> fset seen \<union> set (ancestors_items g queue seen).
      fset (deps_of g v) \<subseteq> fset seen \<union> set (ancestors_items g queue seen))"
proof (induction g queue seen rule: ancestors_items.induct)
  case (2 g current queue seen)
  show ?case
  proof (cases "current |\<in>| seen")
    case True
    then have "fset seen \<union> set (current # queue) = fset seen \<union> set queue" by auto
    with 2 True show ?thesis by simp
  next
    case False
    have "\<forall>v. v |\<in>| finsert current seen \<longrightarrow> fset (deps_of g v) \<subseteq> fset (finsert current seen) \<union>
        set (queue @ filter (\<lambda>d. d |\<notin>| finsert current seen) (stored_deps g current))"
      using 2(4) stored_deps_wf [OF 2(3)] by auto
    from 2(2) [OF False 2(3) this] False show ?thesis by auto
  qed
qed simp

text \<open>Everything reachable from a set of starting points.\<close>

definition closure :: "change_graph \<Rightarrow> change_id set \<Rightarrow> change_id set" where
  "closure g S = (depends g)\<^sup>* `` S"

lemma ancestors_closure: "fset (ancestors g (fset_of_list xs)) = closure g (set xs)"
  by (auto simp: closure_def mem_ancestors_iff fset_of_list_elem Image_iff)

lemma set_ancestors_items:
  assumes "wf_graph g"
  shows "set (ancestors_items g starts {||}) = closure g (set starts)"
proof (intro equalityI subsetI)
  fix x assume "x \<in> set (ancestors_items g starts {||})"
  from ancestors_items_sound [OF assms this] show "x \<in> closure g (set starts)"
    by (auto simp: closure_def)
next
  define S where "S = set (ancestors_items g starts {||})"
  have S: "set starts \<subseteq> S" "\<forall>v\<in>S. fset (deps_of g v) \<subseteq> S"
    using ancestors_items_closed [OF assms, of "{||}" starts] unfolding S_def by auto
  fix x assume "x \<in> closure g (set starts)"
  then obtain s where s: "s \<in> set starts" and "(s, x) \<in> (depends g)\<^sup>*"
    by (auto simp: closure_def)
  from this(2) have "x \<in> S"
    by (induction rule: rtrancl_induct) (use S s in \<open>auto simp: depends_def\<close>)
  then show "x \<in> set (ancestors_items g starts {||})" by (simp add: S_def)
qed

section \<open>Denotation\<close>

definition lowest_common :: "change_graph \<Rightarrow> change_id set \<Rightarrow> change_id set \<Rightarrow> change_id set" where
  "lowest_common g A B =
     (let common = closure g A \<inter> closure g B
      in {x \<in> common. \<forall>y \<in> common. (y, x) \<notin> (depends g)\<^sup>+})"

definition function_den ::
  "change_graph \<Rightarrow> reference_resolver \<Rightarrow> string \<Rightarrow> revset_expression list \<Rightarrow> change_id set list \<Rightarrow>
   change_id set" where
  "function_den g rr name args ds =
     (if name = ''ancestors'' then closure g (hd ds)
      else if name \<in> {''tags'', ''remote_branches'', ''bookmarks''}
      then (case rr name of Inl e \<Rightarrow> {} | Inr hs \<Rightarrow> fset hs)
      else if name = ''touched'' then
        {i. \<exists>c. graph_get g i = Some c \<and> (\<exists>path. args = [StringLiteral path] \<and>
              change_touches_repo_path c path)}
      else if name = ''range'' then closure g (ds ! 1) - closure g (ds ! 0)
      else if name = ''symmetric'' then
        (closure g (ds ! 0) - closure g (ds ! 1)) \<union> (closure g (ds ! 1) - closure g (ds ! 0))
      else let lca = lowest_common g (ds ! 0) (ds ! 1) in {x \<in> lca. \<forall>y \<in> lca. x \<le> y})"

text \<open>The set of changes a query stands for.\<close>

fun revset_den ::
  "change_graph \<Rightarrow> symbol_resolver \<Rightarrow> reference_resolver \<Rightarrow> revset_expression \<Rightarrow> change_id set"
where
  "revset_den g rs rr (Symbol name) =
     (case compile_symbol g rs name of Inl e \<Rightarrow> {} | Inr ids \<Rightarrow> set ids)"
| "revset_den g rs rr (StringLiteral s) = {}"
| "revset_den g rs rr (Union l r) = revset_den g rs rr l \<union> revset_den g rs rr r"
| "revset_den g rs rr (Intersection l r) = revset_den g rs rr l \<inter> revset_den g rs rr r"
| "revset_den g rs rr (Function name args) =
     function_den g rr name args (List.map (revset_den g rs rr) args)"

lemma compile_symbol_single: "compile_symbol g rs name = Inr ids \<Longrightarrow> \<exists>i. ids = [i]"
  by (auto simp: compile_symbol_def result_simps split: sum.splits option.splits)

lemma touched_ids_wf:
  "wf_graph g \<Longrightarrow>
   fset (touched_ids g path) = {i. \<exists>c. graph_get g i = Some c \<and> change_touches_repo_path c path}"
  by (force simp: touched_ids_def graph_changes_def graph_get_def wf_graph_def fmlookup_ran_iff)

lemma least_of_sorted:
  "sorted_list_of_fset S = i # rest \<Longrightarrow> {x \<in> fset S. \<forall>y \<in> fset S. x \<le> y} = {i}"
proof -
  assume s: "sorted_list_of_fset S = i # rest"
  then have "fset S = set (i # rest)" "sorted (i # rest)"
    by (metis sorted_list_of_fset_simps(1), metis sorted_list_of_fset_sorted)
  then have "x |\<in>| S \<longleftrightarrow> x = i \<or> x \<in> set rest" "x \<in> set rest \<Longrightarrow> i \<le> x" for x by auto
  then show ?thesis by (auto intro: antisym)
qed

lemma ids_merge_base_den:
  assumes "wf_graph g"
  shows "fset (ids_merge_base g ls rs) =
    (let lca = lowest_common g (set ls) (set rs) in {x \<in> lca. \<forall>y \<in> lca. x \<le> y})"
proof -
  let ?M = "merge_bases_ordered g (fset_of_list ls) (fset_of_list rs)"
  have lca: "fset ?M = lowest_common g (set ls) (set rs)"
    using mem_merge_bases_iff [OF assms, of _ "fset_of_list ls" "fset_of_list rs"]
    by (auto simp: lowest_common_def Let_def ancestors_closure)
  show ?thesis
  proof (cases "sorted_list_of_fset ?M")
    case Nil
    then have "?M = {||}" by simp
    then have "lowest_common g (set ls) (set rs) = {}" using lca by auto
    with Nil show ?thesis by (simp add: ids_merge_base_def merge_base_deterministic_def)
  next
    case (Cons i rest)
    from least_of_sorted [OF Cons] show ?thesis
      unfolding Let_def lca [symmetric]
      by (simp add: ids_merge_base_def merge_base_deterministic_def Cons)
  qed
qed

lemma eval_two_Inr:
  "eval_two name args ev f = Inr ids \<longleftrightarrow>
   (\<exists>l r ls rs. args = [l, r] \<and> ev l = Inr ls \<and> ev r = Inr rs \<and> ids = sorted_list_of_fset (f ls rs))"
  by (auto simp: eval_two_def result_simps split: list.splits)

lemma ids_between_den:
  "fset (ids_between g ls rs) = closure g (set rs) - closure g (set ls)"
  by (simp add: ids_between_def ancestors_closure)

lemma ids_symmetric_den:
  "fset (ids_symmetric g ls rs) = (closure g (set ls) - closure g (set rs)) \<union>
     (closure g (set rs) - closure g (set ls))"
  by (auto simp: ids_symmetric_def ids_between_den)

lemma parse_single_string_arg_Inr:
  "parse_single_string_arg name args = Inr v \<longleftrightarrow> args = [StringLiteral v]"
  by (auto simp: parse_single_string_arg_def split: list.split revset_expression.split)

lemma compile_impl_correct:
  "wf_graph g \<Longrightarrow> compile_impl_change_ids g rs rr e = Inr ids \<Longrightarrow>
     distinct ids \<and> set ids = revset_den g rs rr e"
  "wf_graph g \<Longrightarrow> compile_function g rs rr name args = Inr ids \<Longrightarrow>
     distinct ids \<and> set ids = function_den g rr name args (List.map (revset_den g rs rr) args)"
proof (induction g rs rr e and g rs rr name args arbitrary: ids and ids
    rule: compile_impl_change_ids_compile_function.induct)
  case (1 g rs rr name)
  then show ?case using compile_symbol_single by fastforce
next
  case (3 g rs rr l r)
  then show ?case by (fastforce simp: result_simps union_items_correct)
next
  case (4 g rs rr l r)
  then show ?case by (fastforce simp: result_simps fset_of_list_elem)
next
  case (6 g rs rr name args)
  note IH = 6(1-4) and wf = 6(5)
  consider (anc) "name = ''ancestors''" | (refs) "name \<in> {''tags'', ''remote_branches'', ''bookmarks''}"
    | (touched) "name = ''touched''" | (range) "name = ''range''" | (symm) "name = ''symmetric''"
    | (base) "name = ''merge_base''"
    using 6(6) by (auto split: if_splits)
  then show ?case
  proof cases
    case anc
    with 6(6) obtain arg starts where "args = [arg]"
      "compile_impl_change_ids g rs rr arg = Inr starts" "ids = ancestors_items g starts {||}"
      by (auto simp: result_simps split: list.splits)
    with IH(1) anc wf show ?thesis
      by (simp add: function_den_def set_ancestors_items ancestors_items_distinct)
  next
    case refs
    with 6(6) show ?thesis
      by (auto simp: function_den_def result_simps split: if_splits)
  next
    case touched
    then have fn: "compile_function g rs rr name args = bind_result (parse_single_string_arg name args)
        (\<lambda>path. Inr (sorted_list_of_fset (touched_ids g path)))" by simp
    from 6(6) obtain path where a: "args = [StringLiteral path]"
      "ids = sorted_list_of_fset (touched_ids g path)"
      unfolding fn bind_result_Inr_iff parse_single_string_arg_Inr by blast
    with touched show ?thesis by (simp add: function_den_def touched_ids_wf [OF wf])
  next
    case range
    then have fn: "compile_function g rs rr name args
        = eval_two name args (compile_impl_change_ids g rs rr) (ids_between g)" by simp
    from 6(6) obtain l r ls rs' where a: "args = [l, r]"
      "compile_impl_change_ids g rs rr l = Inr ls" "compile_impl_change_ids g rs rr r = Inr rs'"
      "ids = sorted_list_of_fset (ids_between g ls rs')"
      unfolding fn eval_two_Inr by blast
    have "set ls = revset_den g rs rr l" "set rs' = revset_den g rs rr r"
      using IH(2) range wf a by simp_all
    with range a show ?thesis by (simp add: function_den_def ids_between_den)
  next
    case symm
    then have fn: "compile_function g rs rr name args
        = eval_two name args (compile_impl_change_ids g rs rr) (ids_symmetric g)" by simp
    from 6(6) obtain l r ls rs' where a: "args = [l, r]"
      "compile_impl_change_ids g rs rr l = Inr ls" "compile_impl_change_ids g rs rr r = Inr rs'"
      "ids = sorted_list_of_fset (ids_symmetric g ls rs')"
      unfolding fn eval_two_Inr by blast
    have "set ls = revset_den g rs rr l" "set rs' = revset_den g rs rr r"
      using IH(3) symm wf a by simp_all
    with symm a show ?thesis by (simp add: function_den_def ids_symmetric_den)
  next
    case base
    then have fn: "compile_function g rs rr name args
        = eval_two name args (compile_impl_change_ids g rs rr) (ids_merge_base g)" by simp
    from 6(6) obtain l r ls rs' where a: "args = [l, r]"
      "compile_impl_change_ids g rs rr l = Inr ls" "compile_impl_change_ids g rs rr r = Inr rs'"
      "ids = sorted_list_of_fset (ids_merge_base g ls rs')"
      unfolding fn eval_two_Inr by blast
    have "set ls = revset_den g rs rr l" "set rs' = revset_den g rs rr r"
      using IH(4) base wf a by simp_all
    with base a show ?thesis by (simp add: function_den_def ids_merge_base_den [OF wf])
  qed
qed auto

section \<open>Properties\<close>


definition toy_symbols :: symbol_resolver where
  "toy_symbols name = (if name = ''main'' then Inr (Some [4]) else Inr None)"

lemma compile_toy_main: "compile_symbol diamond toy_symbols ''main'' = Inr [[4]]"
  by (simp add: compile_symbol_def change_id_from_hex_def decode_hex_32_def lift_parse_result_def
      parse_hex_hash_def toy_symbols_def)


definition escape_chars :: "string \<Rightarrow> string" where
  "escape_chars s = concat (List.map (\<lambda>c. if c = CHR 0x5C \<or> c = CHR 0x22 then [CHR 0x5C, c] else [c]) s)"

lemma unescape_escape_chars: "unescape_chars (escape_chars s) = Inr s"
  by (induction s) (auto simp: escape_chars_def)

text \<open>
  String literals: quoting a text with backslash escapes and parsing the literal gives
  the text back, so every path can be written as an argument.
\<close>

theorem string_literal_roundtrip:
  "unescape_string_literal ([CHR 0x22] @ escape_chars s @ [CHR 0x22]) = Inr s"
  by (simp add: unescape_string_literal_def unescape_escape_chars butlast_append)

end
