(* ===== verification/History.thy ===== *)
theory History
  imports Commute Bisect
begin

text \<open>
  History rewriting (\<^verbatim>\<open>arc-engine/src/mutator.rs\<close>, \<^verbatim>\<open>arc-engine/src/spacetime.rs\<close>): squashing
  the chain above a change and reordering a chain by adjacent swaps.

  The outer option of a result is the panic of a sort or of an \<^verbatim>\<open>expect\<close>; the theorems show
  that it does not occur on consistent graphs.
\<close>

datatype mutator_error =
    TargetNotFound change_id
  | TargetNotAncestor change_id
  | NonLinearChain
  | InvalidReorderSet
  | NonCommutingPair change_id change_id

record squash_outcome =
  squashed :: change
  sq_rewrite_map :: "change_id \<rightharpoonup> change_id"

record reorder_outcome =
  rewritten :: "change list"
  ro_rewrite_map :: "change_id \<rightharpoonup> change_id"
  new_head :: change_id

section \<open>Squashing\<close>

text \<open>\<^verbatim>\<open>iter().position(|id| *id == target)\<close>.\<close>

fun position :: "'a \<Rightarrow> 'a list \<Rightarrow> nat option" where
  "position x [] = None"
| "position x (y # ys) = (if y = x then Some 0 else map_option Suc (position x ys))"

definition child_count_in :: "change_graph \<Rightarrow> blake3_hash list \<Rightarrow> blake3_hash \<Rightarrow> nat" where
  "child_count_in g spine i = length (filter (\<lambda>c. c \<in> set spine) (child_ids g i))"

text \<open>The loop over the spine: one child inside it, none for the last element.\<close>

fun spine_linear :: "change_graph \<Rightarrow> blake3_hash list \<Rightarrow> blake3_hash list \<Rightarrow> bool" where
  "spine_linear g spine [] = True"
| "spine_linear g spine (i # rest) =
     (if i = last spine
      then (if child_count_in g spine i > 0 then False else spine_linear g spine rest)
      else if child_count_in g spine i \<noteq> 1 then False else spine_linear g spine rest)"

definition collect_linear_spine ::
  "change_graph \<Rightarrow> blake3_hash fset \<Rightarrow> blake3_hash \<Rightarrow> (mutator_error + blake3_hash list) option" where
  "collect_linear_spine g view_heads target_id =
     (if target_id |\<notin>| ancestors g view_heads \<and> target_id |\<notin>| view_heads
      then Some (Inl (TargetNotAncestor target_id))
      else
        (case topological_sort g view_heads of
           None \<Rightarrow> None
         | Some topo \<Rightarrow>
             (case position target_id topo of
                None \<Rightarrow> Some (Inl (TargetNotFound target_id))
              | Some start_idx \<Rightarrow>
                  let spine = drop start_idx topo
                  in if length spine < 2 then Some (Inr spine)
                     else if spine_linear g spine spine then Some (Inr spine)
                     else Some (Inl NonLinearChain))))"

fun spine_atoms :: "change_graph \<Rightarrow> blake3_hash list \<Rightarrow> mutator_error + atom list" where
  "spine_atoms g [] = Inr []"
| "spine_atoms g (i # spine) =
     (case graph_get g i of
        None \<Rightarrow> Inl (TargetNotFound i)
      | Some c \<Rightarrow> map_result ((@) (ch_atoms c)) (spine_atoms g spine))"

definition squash_intent :: "nat \<Rightarrow> string \<Rightarrow> string" where
  "squash_intent n target_intent =
     ''Squash: '' @ nat_dec n @ '' changes into '' @ [CHR 0x22] @ target_intent @ [CHR 0x22]"

definition squash_into ::
  "('sk, 'x) crypto_scheme \<Rightarrow> change_graph \<Rightarrow> blake3_hash fset \<Rightarrow> blake3_hash \<Rightarrow> author \<times> 'sk \<Rightarrow>
   (mutator_error + squash_outcome) option" where
  "squash_into K g view_heads target_id signer =
     (case graph_get g target_id of
        None \<Rightarrow> Some (Inl (TargetNotFound target_id))
      | Some target \<Rightarrow>
     (case collect_linear_spine g view_heads target_id of
        None \<Rightarrow> None
      | Some (Inl e) \<Rightarrow> Some (Inl e)
      | Some (Inr spine) \<Rightarrow>
     (case spine_atoms g spine of
        Inl e \<Rightarrow> Some (Inl e)
      | Inr atoms \<Rightarrow>
          let intent = squash_intent (length spine) (ch_intent target);
              (author, signing_key) = signer;
              sq = rewritten_or_resigned K target (ch_deps target) atoms intent author signing_key
          in Some (Inr \<lparr>squashed = sq,
               sq_rewrite_map = (\<lambda>i. if i \<in> set spine then Some (ch_id sq) else None)\<rparr>))))"

text \<open>
  The variant of \<^verbatim>\<open>spacetime.rs\<close>: it counts the later spine members that depend on each
  element and rejects only counts above one.
\<close>

datatype spacetime_error =
    NonLinearSpine blake3_hash
  | STargetNotFound blake3_hash
  | STargetNotAncestor blake3_hash

fun first_fork :: "change_graph \<Rightarrow> blake3_hash list \<Rightarrow> blake3_hash option" where
  "first_fork g [] = None"
| "first_fork g (i # later) =
     (if later = [] then None
      else if length (filter (\<lambda>c. case graph_get g c of None \<Rightarrow> False
                                  | Some n \<Rightarrow> i |\<in>| ch_deps n) later) > 1
      then Some i else first_fork g later)"

definition spacetime_squash_into ::
  "('sk, 'x) crypto_scheme \<Rightarrow> change_graph \<Rightarrow> blake3_hash fset \<Rightarrow> blake3_hash \<Rightarrow> author \<times> 'sk \<Rightarrow>
   (spacetime_error + change) option" where
  "spacetime_squash_into K g view_heads target_id signer =
     (case graph_get g target_id of
        None \<Rightarrow> Some (Inl (STargetNotFound target_id))
      | Some target \<Rightarrow>
        if target_id |\<notin>| ancestors g view_heads \<and> target_id |\<notin>| view_heads
        then Some (Inl (STargetNotAncestor target_id))
        else
     (case topological_sort g view_heads of
        None \<Rightarrow> None
      | Some topo_order \<Rightarrow>
     (case position target_id topo_order of
        None \<Rightarrow> Some (Inl (STargetNotFound target_id))
      | Some start_idx \<Rightarrow>
          let spine = drop start_idx topo_order
          in case first_fork g spine of
               Some i \<Rightarrow> Some (Inl (NonLinearSpine i))
             | None \<Rightarrow>
                 let all_atoms = concat (List.map (\<lambda>i. case graph_get g i of
                       None \<Rightarrow> [] | Some c \<Rightarrow> ch_atoms c) spine);
                     intent = squash_intent (length spine) (ch_intent target);
                     (author, signing_key) = signer
                 in Some (Inr (change_new K (ch_deps target) all_atoms intent author signing_key)))))"

section \<open>Reordering\<close>

definition commute_linear_pair ::
  "('sk, 'x) crypto_scheme \<Rightarrow> change \<Rightarrow> change \<Rightarrow> author \<times> 'sk \<Rightarrow> (change \<times> change) option" where
  "commute_linear_pair K left right signer =
     (if ch_id left |\<in>| ch_deps right
      then let relaxed_right = right\<lparr>ch_deps := ch_deps right |-| {|ch_id left|}\<rparr>
           in commute_pair K left relaxed_right signer
      else commute_pair K left right signer)"

definition parents_in :: "change_graph \<Rightarrow> blake3_hash fset \<Rightarrow> blake3_hash \<Rightarrow> blake3_hash list" where
  "parents_in g selected i = filter (\<lambda>d. d |\<in>| selected) (parent_ids g i)"

definition children_in :: "change_graph \<Rightarrow> blake3_hash fset \<Rightarrow> blake3_hash \<Rightarrow> blake3_hash list" where
  "children_in g selected i = filter (\<lambda>d. d |\<in>| selected) (child_ids g i)"

text \<open>The final walk from the root along the only children.\<close>

function chain_walk ::
  "change_graph \<Rightarrow> blake3_hash fset \<Rightarrow> blake3_hash \<Rightarrow> blake3_hash fset \<Rightarrow> blake3_hash list option" where
  "chain_walk g selected cur seen =
     (if cur |\<in>| seen then None
      else if cur |\<notin>| selected then None
      else case children_in g selected cur of
             [] \<Rightarrow> Some [cur]
           | c # cs \<Rightarrow> map_option ((#) cur) (chain_walk g selected c (finsert cur seen)))"
  by pat_completeness auto

termination chain_walk
proof (relation "measure (\<lambda>(g, selected, cur, seen). fcard (selected |-| seen))", goal_cases)
  case (2 g selected cur seen c cs)
  then have "selected |-| finsert cur seen |\<subset>| selected |-| seen" by auto
  then show ?case by (simp add: pfsubset_fcard_mono)
qed simp

declare chain_walk.simps [simp del]

definition resolve_linear_chain ::
  "change_graph \<Rightarrow> blake3_hash fset \<Rightarrow> mutator_error + blake3_hash list" where
  "resolve_linear_chain g selected =
     (let ids = sorted_list_of_fset selected;
          roots = filter (\<lambda>i. parents_in g selected i = []) ids
      in if list_ex (\<lambda>i. length (parents_in g selected i) > 1 \<or>
                         length (children_in g selected i) > 1) ids then Inl NonLinearChain
         else if length roots \<noteq> 1 then Inl NonLinearChain
         else (case chain_walk g selected (hd roots) {||} of
                 None \<Rightarrow> Inl NonLinearChain
               | Some ordered \<Rightarrow>
                   if length ordered \<noteq> fcard selected then Inl NonLinearChain else Inr ordered))"

record working_change =
  origin :: blake3_hash
  wchange :: change

text \<open>One sweep over adjacent positions; the flag says whether a swap happened.\<close>

fun bubble_pass ::
  "('sk, 'x) crypto_scheme \<Rightarrow> author \<times> 'sk \<Rightarrow> (blake3_hash \<rightharpoonup> nat) \<Rightarrow> working_change list \<Rightarrow>
   mutator_error + working_change list \<times> bool" where
  "bubble_pass K signer pos (x # y # ws) =
     (case pos (origin x) of None \<Rightarrow> Inl InvalidReorderSet | Some left_pos \<Rightarrow>
     (case pos (origin y) of None \<Rightarrow> Inl InvalidReorderSet | Some right_pos \<Rightarrow>
        if left_pos \<le> right_pos
        then map_result (\<lambda>(r, swapped). (x # r, swapped)) (bubble_pass K signer pos (y # ws))
        else
          (case commute_linear_pair K (wchange x) (wchange y) signer of
             None \<Rightarrow> Inl (NonCommutingPair (origin x) (origin y))
           | Some (new_left, new_right) \<Rightarrow>
               map_result (\<lambda>(r, swapped). (\<lparr>origin = origin y, wchange = new_left\<rparr> # r, True))
                 (bubble_pass K signer pos (\<lparr>origin = origin x, wchange = new_right\<rparr> # ws)))))"
| "bubble_pass K signer pos ws = Inr (ws, False)"

fun bubble_loop ::
  "nat \<Rightarrow> ('sk, 'x) crypto_scheme \<Rightarrow> author \<times> 'sk \<Rightarrow> (blake3_hash \<rightharpoonup> nat) \<Rightarrow> working_change list \<Rightarrow>
   mutator_error + working_change list" where
  "bubble_loop 0 K signer pos ws = Inr ws"
| "bubble_loop (Suc n) K signer pos ws =
     bind_result (bubble_pass K signer pos ws) (\<lambda>(ws', swapped).
       if swapped then bubble_loop n K signer pos ws' else Inr ws')"

definition remap_deps ::
  "blake3_hash fset \<Rightarrow> (blake3_hash \<rightharpoonup> blake3_hash) \<Rightarrow> blake3_hash option \<Rightarrow> blake3_hash fset \<Rightarrow>
   blake3_hash fset" where
  "remap_deps selected m prev deps =
     (let mapped = (\<lambda>d. case m d of None \<Rightarrow> d | Some d' \<Rightarrow> d') |`|
            ffilter (\<lambda>d. d |\<in>| selected \<and> m d \<noteq> None) deps;
          kept = ffilter (\<lambda>d. d |\<notin>| selected) deps
      in case prev of None \<Rightarrow> mapped |\<union>| kept | Some p \<Rightarrow> finsert p (mapped |\<union>| kept))"

text \<open>The rebuilding loop: the previous new id and the map so far are its state.\<close>

fun rebuild ::
  "('sk, 'x) crypto_scheme \<Rightarrow> author \<times> 'sk \<Rightarrow> blake3_hash fset \<Rightarrow> (blake3_hash \<rightharpoonup> blake3_hash) \<Rightarrow>
   blake3_hash option \<Rightarrow> working_change list \<Rightarrow>
   change list \<times> (blake3_hash \<rightharpoonup> blake3_hash)" where
  "rebuild K signer selected m prev [] = ([], m)"
| "rebuild K signer selected m prev (w # ws) =
     (let c = wchange w;
          c' = rewritten_or_resigned K c (remap_deps selected m prev (ch_deps c)) (ch_atoms c)
                 (ch_intent c) (fst signer) (snd signer);
          (cs, m') = rebuild K signer selected (m(origin w \<mapsto> ch_id c')) (Some (ch_id c')) ws
      in (c' # cs, m'))"

fun all_some :: "'a option list \<Rightarrow> 'a list option" where
  "all_some [] = Some []"
| "all_some (x # xs) = Option.bind x (\<lambda>y. map_option ((#) y) (all_some xs))"

definition reorder ::
  "('sk, 'x) crypto_scheme \<Rightarrow> change_graph \<Rightarrow> blake3_hash list \<Rightarrow> author \<times> 'sk \<Rightarrow>
   (mutator_error + reorder_outcome) option" where
  "reorder K g desired_order signer =
     (if length desired_order < 2 then Some (Inl InvalidReorderSet)
      else if \<not> distinct desired_order \<or> list_ex (\<lambda>i. graph_get g i = None) desired_order
      then Some (Inl InvalidReorderSet)
      else let desired_set = fset_of_list desired_order
      in case resolve_linear_chain g desired_set of
           Inl e \<Rightarrow> Some (Inl e)
         | Inr current_order \<Rightarrow>
        if fset_of_list current_order \<noteq> desired_set then Some (Inl InvalidReorderSet)
        else let desired_pos = map_of (zip desired_order [0 ..< length desired_order])
        in case all_some (List.map (\<lambda>i. map_option (\<lambda>c. \<lparr>origin = i, wchange = c\<rparr>) (graph_get g i))
                  current_order) of
             None \<Rightarrow> None
           | Some working \<Rightarrow>
          (case bubble_loop (length working) K signer desired_pos working of
             Inl e \<Rightarrow> Some (Inl e)
           | Inr sorted_work \<Rightarrow>
               if List.map origin sorted_work \<noteq> desired_order then Some (Inl NonLinearChain)
               else let (cs, m) = rebuild K signer desired_set Map.empty None sorted_work
               in if cs = [] then Some (Inl InvalidReorderSet)
                  else Some (Inr \<lparr>rewritten = cs, ro_rewrite_map = m, new_head = ch_id (last cs)\<rparr>)))"

section \<open>Bubble sort\<close>

fun bpass :: "('a \<Rightarrow> nat) \<Rightarrow> 'a list \<Rightarrow> 'a list" where
  "bpass f (x # y # xs) = (if f x \<le> f y then x # bpass f (y # xs) else y # bpass f (x # xs))"
| "bpass f xs = xs"

lemma mset_bpass [simp]: "mset (bpass f xs) = mset xs"
  by (induction f xs rule: bpass.induct) auto

lemma set_bpass [simp]: "set (bpass f xs) = set xs"
  by (metis mset_bpass set_mset_mset)

lemma length_bpass [simp]: "length (bpass f xs) = length xs"
  by (metis mset_bpass size_mset)

lemma bpass_sorted: "sorted (List.map f xs) \<Longrightarrow> bpass f xs = xs"
  by (induction f xs rule: bpass.induct) auto

lemma bpass_append:
  "sorted (List.map f zs) \<Longrightarrow> \<forall>x\<in>set xs. \<forall>z\<in>set zs. f x \<le> f z \<Longrightarrow>
   bpass f (xs @ zs) = bpass f xs @ zs"
  by (induction f xs rule: bpass.induct) (auto simp: bpass_sorted)

lemma bpass_last:
  "xs \<noteq> [] \<Longrightarrow> \<exists>ys m. bpass f xs = ys @ [m] \<and> (\<forall>x\<in>set xs. f x \<le> f m)"
proof (induction f xs rule: bpass.induct)
  case (1 f x y xs)
  show ?case
  proof (cases "f x \<le> f y")
    case True
    with 1(1) obtain ys m where "bpass f (y # xs) = ys @ [m]" "\<forall>z\<in>set (y # xs). f z \<le> f m" by blast
    with True show ?thesis by (auto intro!: exI [of _ "x # ys"] exI [of _ m])
  next
    case False
    with 1(2) obtain ys m where "bpass f (x # xs) = ys @ [m]" "\<forall>z\<in>set (x # xs). f z \<le> f m" by blast
    with False show ?thesis by (auto intro!: exI [of _ "y # ys"] exI [of _ m])
  qed
qed auto

text \<open>After \<open>k\<close> sweeps the last \<open>k\<close> elements are in place.\<close>

lemma bpass_iterate:
  "\<exists>ys zs. (bpass f ^^ k) xs = ys @ zs \<and> length zs = min k (length xs) \<and> sorted (List.map f zs) \<and>
     (\<forall>y\<in>set ys. \<forall>z\<in>set zs. f y \<le> f z) \<and> length ys + length zs = length xs"
proof (induction k)
  case (Suc k)
  then obtain ys zs where IH: "(bpass f ^^ k) xs = ys @ zs" "length zs = min k (length xs)"
    "sorted (List.map f zs)" "\<forall>y\<in>set ys. \<forall>z\<in>set zs. f y \<le> f z" "length ys + length zs = length xs"
    by blast
  then have step: "(bpass f ^^ Suc k) xs = bpass f ys @ zs" by (simp add: bpass_append)
  show ?case
  proof (cases "ys = []")
    case True
    with IH step show ?thesis by (intro exI [of _ "[]"] exI [of _ zs]) auto
  next
    case False
    then obtain us m where us: "bpass f ys = us @ [m]" "\<forall>y\<in>set ys. f y \<le> f m"
      using bpass_last [of ys f] by blast
    then have sub: "set us \<subseteq> set ys" "m \<in> set ys" using set_bpass [of f ys] by auto
    have len: "length ys = Suc (length us)" using us(1) length_bpass [of f ys] by simp
    show ?thesis
      using step us sub IH len
      by (intro exI [of _ us] exI [of _ "m # zs"]) auto
  qed
qed simp

lemma bpass_length_sorts: "length xs \<le> k \<Longrightarrow> sorted (List.map f ((bpass f ^^ k) xs))"
  using bpass_iterate [where f = f and k = k and xs = xs] by auto

lemma bubble_pass_origins:
  "bubble_pass K signer pos ws = Inr (ws', swapped) \<Longrightarrow>
   List.map origin ws' = bpass (\<lambda>i. the (pos i)) (List.map origin ws) \<and>
   (\<not> swapped \<longrightarrow> sorted (List.map (\<lambda>w. the (pos (origin w))) ws))"
proof (induction K signer pos ws arbitrary: ws' swapped rule: bubble_pass.induct)
  case (1 K signer pos x y ws)
  from 1(3) obtain lp rp where pos: "pos (origin x) = Some lp" "pos (origin y) = Some rp"
    by (auto split: option.splits)
  show ?case
  proof (cases "lp \<le> rp")
    case True
    with 1(3) pos have "map_result (\<lambda>(r, swapped). (x # r, swapped)) (bubble_pass K signer pos (y # ws))
        = Inr (ws', swapped)" by simp
    then obtain r where r: "bubble_pass K signer pos (y # ws) = Inr (r, swapped)" "ws' = x # r"
      unfolding map_result_Inr_iff by auto
    from 1(1) [OF pos True r(1)] True pos r(2) show ?thesis by (cases ws) auto
  next
    case False
    obtain nl nr where c: "commute_linear_pair K (wchange x) (wchange y) signer = Some (nl, nr)"
      using 1(3) pos False by (cases "commute_linear_pair K (wchange x) (wchange y) signer") auto
    with 1(3) pos False have "map_result (\<lambda>(r, swapped). (\<lparr>origin = origin y, wchange = nl\<rparr> # r, True))
        (bubble_pass K signer pos (\<lparr>origin = origin x, wchange = nr\<rparr> # ws)) = Inr (ws', swapped)" by simp
    then obtain r sw where r: "bubble_pass K signer pos (\<lparr>origin = origin x, wchange = nr\<rparr> # ws) = Inr (r, sw)"
      and e: "ws' = \<lparr>origin = origin y, wchange = nl\<rparr> # r" "swapped"
      unfolding map_result_Inr_iff by auto
    from 1(2) [OF pos False c refl r] False pos e show ?thesis by simp
  qed
qed auto

lemma bubble_loop_origins:
  "bubble_loop n K signer pos ws = Inr ws' \<Longrightarrow> length ws \<le> n + k \<Longrightarrow>
   List.map origin ws = (bpass (\<lambda>i. the (pos i)) ^^ k) os \<Longrightarrow>
   mset (List.map origin ws') = mset (List.map origin ws) \<and>
   sorted (List.map (\<lambda>i. the (pos i)) (List.map origin ws'))"
proof (induction n K signer pos ws arbitrary: k rule: bubble_loop.induct)
  case (1 K signer pos ws)
  have "length os = length ((bpass (\<lambda>i. the (pos i)) ^^ k) os)" by (induction k) auto
  also have "\<dots> = length ws" using 1(3) by (metis length_map)
  finally have "length os \<le> k" using 1(2) by simp
  with 1 bpass_length_sorts [where xs = os and k = k and f = "\<lambda>i. the (pos i)"] show ?case by simp
next
  case (2 n K signer pos ws)
  from 2(2) obtain r sw where r: "bubble_pass K signer pos ws = Inr (r, sw)"
    and cont: "(if sw then bubble_loop n K signer pos r else Inr r) = Inr ws'"
    by (auto simp: result_simps)
  note o = bubble_pass_origins [OF r]
  show ?case
  proof (cases sw)
    case True
    have "length r = length ws" using o by (metis length_bpass length_map)
    with 2(1) [OF r refl True, of "Suc k"] cont True 2(3,4) o show ?thesis by simp
  next
    case False
    then have srt: "sorted (List.map (\<lambda>i. the (pos i)) (List.map origin ws))"
      using o by (simp add: comp_def)
    then have "List.map origin r = List.map origin ws" using o by (simp only: bpass_sorted)
    with srt cont False show ?thesis by simp
  qed
qed

section \<open>Replay of rewritten history\<close>

fun replay_all ::
  "'x replay_env_scheme \<Rightarrow> change list \<Rightarrow> materialized_state \<Rightarrow> materialized_state option" where
  "replay_all env [] st = Some st"
| "replay_all env (c # cs) st =
     (case apply_change env c st None of
        (st', bl, None) \<Rightarrow> replay_all env cs st' | (st', bl, Some e) \<Rightarrow> None)"

definition effects_of :: "'x replay_env_scheme \<Rightarrow> change list \<Rightarrow> effect list" where
  "effects_of env cs = concat (List.map (change_effects env None) cs)"

lemma effects_of_simps [simp]:
  "effects_of env [] = []"
  "effects_of env (c # cs) = change_effects env None c @ effects_of env cs"
  by (simp_all add: effects_of_def)

lemma replay_all_effects: "replay_all env cs st = run_effects (effects_of env cs) st"
proof (induction cs arbitrary: st)
  case (Cons c cs)
  obtain st' bl e where r: "apply_change_scoped env None c st None = (st', bl, e)"
    by (metis prod_cases3)
  have "run_effects (change_effects env None c) st = replayed (st', bl, e)"
    by (metis r replayed_apply_change_scoped)
  with r Cons show ?case by (cases e) (simp_all add: apply_change_def)
qed simp

lemma run_effects_Fail: "Fail \<in> set es \<Longrightarrow> run_effects es st = None"
  by (induction es arbitrary: st) (auto split: bind_splits)

definition human :: "change \<Rightarrow> bool" where
  "human c \<longleftrightarrow> \<not> is_ai (ch_author c)"

lemma human_effects: "human c \<Longrightarrow> change_effects env None c = List.map (atom_effect env) (ch_atoms c)"
  by (simp add: human_def change_effects_def step_effect_def outside_sparse_def)

lemma move_effect: "is_move a \<Longrightarrow> atom_effect env a = Fail"
  by (cases a) auto

lemma is_move_rewrite [simp]: "is_move (rewrite_atom_paths m a) = is_move a"
  by (cases a) auto

lemma moves_Fail:
  "human c \<Longrightarrow> a \<in> set (ch_atoms c) \<Longrightarrow> is_move a \<Longrightarrow> Fail \<in> set (change_effects env None c)"
  by (force simp: human_effects move_effect image_iff)

lemma moves_rewritten:
  "\<exists>a\<in>set xs. is_move a \<Longrightarrow> \<exists>a\<in>set (rewrite_paths_through_moves xs ms). is_move a"
  by (auto simp: rewrite_paths_through_moves_def Let_def)

lemma commute_linear_Some:
  "commute_linear_pair K a b (author, sk) = Some (b', a') \<Longrightarrow>
   atoms_disjoint (ch_atoms a) (ch_atoms b) \<and>
   ch_author b' = author \<and> ch_author a' = author \<and>
   ch_intent b' = ch_intent b \<and> ch_intent a' = ch_intent a \<and>
   ch_atoms b' = rewrite_paths_through_moves (ch_atoms b) (ch_atoms a) \<and>
   ch_atoms a' = rewrite_paths_through_moves (ch_atoms a) (ch_atoms b)"
  by (auto simp: commute_linear_pair_def commute_pair_Some commutes_def change_new_def
      new_with_metadata_def Let_def split: if_splits)

lemma commute_linear_effects:
  assumes "commute_linear_pair K a b (author, sk) = Some (b', a')"
    and "\<not> is_ai author" "human a" "human b"
  shows "run_effects (change_effects env None b' @ change_effects env None a') st
    = run_effects (change_effects env None a @ change_effects env None b) st"
proof (cases "\<exists>x\<in>set (ch_atoms a) \<union> set (ch_atoms b). is_move x")
  case True
  note c = commute_linear_Some [OF assms(1)]
  have h: "human b'" "human a'" using c assms(2) by (simp_all add: human_def)
  have 1: "Fail \<in> set (change_effects env None a @ change_effects env None b)"
    using True moves_Fail [OF assms(3)] moves_Fail [OF assms(4)] by auto
  have "\<exists>x\<in>set (ch_atoms b') \<union> set (ch_atoms a'). is_move x"
    using True moves_rewritten c by (metis UnE UnI1 UnI2)
  then have 2: "Fail \<in> set (change_effects env None b' @ change_effects env None a')"
    using moves_Fail [OF h(1)] moves_Fail [OF h(2)] by auto
  show ?thesis using run_effects_Fail [OF 1] run_effects_Fail [OF 2] by simp
next
  case False
  note c = commute_linear_Some [OF assms(1)]
  have "rewrite_paths_through_moves xs ys = xs" if "ys = ch_atoms a \<or> ys = ch_atoms b" for xs ys
    using that False by (auto simp: rewrite_paths_through_moves_def move_pairs_Nil)
  with c have same: "ch_atoms b' = ch_atoms b" "ch_atoms a' = ch_atoms a" by simp_all
  have h: "human b'" "human a'" using c assms(2) by (simp_all add: human_def)
  have "change_effects env None b' = change_effects env None b"
    "change_effects env None a' = change_effects env None a"
    using same h assms(3,4) by (simp_all add: human_effects)
  moreover have "Option.bind (run_effects (change_effects env None a) st) (run_effects (change_effects env None b))
      = Option.bind (run_effects (change_effects env None b) st) (run_effects (change_effects env None a))"
    using c by (intro run_effects_commute change_effects_independent) blast
  ultimately show ?thesis by simp
qed

text \<open>What every sweep keeps: intents by origin, human authorship and the combined effect.\<close>

definition work_inv :: "(blake3_hash \<Rightarrow> string) \<Rightarrow> working_change list \<Rightarrow> bool" where
  "work_inv intents ws \<longleftrightarrow>
     (\<forall>w\<in>set ws. human (wchange w) \<and> ch_intent (wchange w) = intents (origin w))"

lemma work_inv_simps [simp]:
  "work_inv intents []"
  "work_inv intents (w # ws) \<longleftrightarrow>
     human (wchange w) \<and> ch_intent (wchange w) = intents (origin w) \<and> work_inv intents ws"
  by (simp_all add: work_inv_def)

lemma bubble_pass_effects:
  "bubble_pass K (author, sk) pos ws = Inr (ws', swapped) \<Longrightarrow> \<not> is_ai author \<Longrightarrow> work_inv intents ws \<Longrightarrow>
   work_inv intents ws' \<and>
   run_effects (effects_of env (List.map wchange ws')) st
     = run_effects (effects_of env (List.map wchange ws)) st"
proof (induction K "(author, sk)" pos ws arbitrary: ws' swapped st rule: bubble_pass.induct)
  case (1 K pos x y ws)
  from 1(3) obtain lp rp where pos: "pos (origin x) = Some lp" "pos (origin y) = Some rp"
    by (auto split: option.splits)
  show ?case
  proof (cases "lp \<le> rp")
    case True
    with 1(3) pos have "map_result (\<lambda>(r, swapped). (x # r, swapped))
        (bubble_pass K (author, sk) pos (y # ws)) = Inr (ws', swapped)" by simp
    then obtain r where r: "bubble_pass K (author, sk) pos (y # ws) = Inr (r, swapped)" "ws' = x # r"
      unfolding map_result_Inr_iff by auto
    have "work_inv intents (y # ws)" using 1(5) by simp
    note IH = 1(1) [OF pos True r(1) 1(4) this]
    have "run_effects (effects_of env (List.map wchange r))
        = run_effects (effects_of env (List.map wchange (y # ws)))"
      using IH by (intro ext) blast
    with IH r(2) 1(5) show ?thesis by simp
  next
    case False
    obtain nl nr where c: "commute_linear_pair K (wchange x) (wchange y) (author, sk) = Some (nl, nr)"
      using 1(3) pos False by (cases "commute_linear_pair K (wchange x) (wchange y) (author, sk)") auto
    let ?x = "\<lparr>origin = origin x, wchange = nr\<rparr>" and ?y = "\<lparr>origin = origin y, wchange = nl\<rparr>"
    from 1(3) pos False c have "map_result (\<lambda>(r, swapped). (?y # r, True))
        (bubble_pass K (author, sk) pos (?x # ws)) = Inr (ws', swapped)" by simp
    then obtain r sw where r: "bubble_pass K (author, sk) pos (?x # ws) = Inr (r, sw)"
      and e: "ws' = ?y # r" unfolding map_result_Inr_iff by auto
    have h: "human (wchange x)" "human (wchange y)" using 1(5) by simp_all
    have inv: "work_inv intents (?x # ws)" "human nl" "ch_intent nl = intents (origin y)"
      using commute_linear_Some [OF c] 1(4,5) by (auto simp: human_def)
    note IH = 1(2) [OF pos False c refl r 1(4) inv(1)]
    have same_run: "run_effects (effects_of env (List.map wchange r))
        = run_effects (effects_of env (List.map wchange (?x # ws)))"
      using IH by (intro ext) blast
    have "run_effects (effects_of env (List.map wchange ws')) st
        = Option.bind (run_effects (change_effects env None nl) st)
            (run_effects (effects_of env (List.map wchange r)))"
      by (simp add: e)
    also have "\<dots> = Option.bind (run_effects (change_effects env None nl) st)
            (run_effects (effects_of env (List.map wchange (?x # ws))))"
      unfolding same_run ..
    also have "\<dots> = Option.bind (run_effects (change_effects env None nl @ change_effects env None nr) st)
            (run_effects (effects_of env (List.map wchange ws)))"
    proof -
      have "run_effects (effects_of env (List.map wchange (?x # ws)))
          = (\<lambda>s. Option.bind (run_effects (change_effects env None nr) s)
              (run_effects (effects_of env (List.map wchange ws))))"
        by (rule ext) simp
      then show ?thesis by simp
    qed
    also have "\<dots> = run_effects (effects_of env (List.map wchange (x # y # ws))) st"
      unfolding commute_linear_effects [OF c 1(4) h] by (simp add: run_effects_append_fun)
    finally show ?thesis using IH inv e by simp
  qed
qed auto

lemma bubble_loop_effects:
  "bubble_loop n K (author, sk) pos ws = Inr ws' \<Longrightarrow> \<not> is_ai author \<Longrightarrow> work_inv intents ws \<Longrightarrow>
   work_inv intents ws' \<and>
   run_effects (effects_of env (List.map wchange ws')) st
     = run_effects (effects_of env (List.map wchange ws)) st"
proof (induction n arbitrary: ws)
  case (Suc n)
  then obtain r sw where r: "bubble_pass K (author, sk) pos ws = Inr (r, sw)"
    and cont: "(if sw then bubble_loop n K (author, sk) pos r else Inr r) = Inr ws'"
    by (auto simp: result_simps)
  note p = bubble_pass_effects [OF r Suc.prems(2,3)]
  then have "work_inv intents r" "run_effects (effects_of env (List.map wchange r)) st
      = run_effects (effects_of env (List.map wchange ws)) st" by blast+
  with Suc.IH [of r] cont Suc.prems(2) show ?case by (cases sw) simp_all
qed simp

section \<open>Rebuilding\<close>

lemma rewritten_fields [simp]:
  "ch_id (rewritten_or_resigned K c d a t u sk) = compute_id K d a t u"
  "ch_deps (rewritten_or_resigned K c d a t u sk) = d"
  "ch_atoms (rewritten_or_resigned K c d a t u sk) = a"
  "ch_intent (rewritten_or_resigned K c d a t u sk) = t"
  "ch_author (rewritten_or_resigned K c d a t u sk) = u"
  by (simp_all add: rewritten_or_resigned_def Let_def)

lemma remap_deps_prev: "p |\<in>| remap_deps selected m (Some p) deps"
  by (simp add: remap_deps_def Let_def)

lemma remap_deps_outside: "d |\<in>| deps \<Longrightarrow> d |\<notin>| selected \<Longrightarrow> d |\<in>| remap_deps selected m prev deps"
  by (auto simp: remap_deps_def Let_def split: option.split)

lemma rebuild_correct:
  "rebuild K (author, sk) selected m prev ws = (cs, m') \<Longrightarrow> \<not> is_ai author \<Longrightarrow> work_inv intents ws \<Longrightarrow>
   List.map ch_intent cs = List.map (\<lambda>w. intents (origin w)) ws \<and>
   effects_of env cs = effects_of env (List.map wchange ws) \<and>
   (\<forall>p. prev = Some p \<and> cs \<noteq> [] \<longrightarrow> p |\<in>| ch_deps (hd cs)) \<and>
   (\<forall>i. Suc i < length cs \<longrightarrow> ch_id (cs ! i) |\<in>| ch_deps (cs ! Suc i))"
proof (induction K "(author, sk)" selected m prev ws arbitrary: cs m' rule: rebuild.induct)
  case (2 K selected m prev w ws)
  let ?c = "rewritten_or_resigned K (wchange w) (remap_deps selected m prev (ch_deps (wchange w)))
      (ch_atoms (wchange w)) (ch_intent (wchange w)) (fst (author, sk)) (snd (author, sk))"
  obtain cs1 m1 where r: "rebuild K (author, sk) selected (m(origin w \<mapsto> ch_id ?c)) (Some (ch_id ?c)) ws = (cs1, m1)"
    by fastforce
  with 2(2) have cs: "cs = ?c # cs1" by (simp add: Let_def)
  have IH: "List.map ch_intent cs1 = List.map (\<lambda>w. intents (origin w)) ws"
    "effects_of env cs1 = effects_of env (List.map wchange ws)"
    "cs1 \<noteq> [] \<Longrightarrow> ch_id ?c |\<in>| ch_deps (hd cs1)"
    "\<forall>i. Suc i < length cs1 \<longrightarrow> ch_id (cs1 ! i) |\<in>| ch_deps (cs1 ! Suc i)"
    using 2(1) [OF refl refl r 2(3)] 2(4) by simp_all
  have "change_effects env None ?c = change_effects env None (wchange w)"
    using 2(3,4) by (simp add: human_effects human_def)
  moreover have "ch_id (cs ! i) |\<in>| ch_deps (cs ! Suc i)" if "Suc i < length cs" for i
  proof (cases i)
    case 0
    with that cs have "cs1 \<noteq> []" by auto
    with IH(3) cs 0 show ?thesis by (simp add: hd_conv_nth)
  next
    case (Suc j)
    with IH(4) that cs show ?thesis by simp
  qed
  ultimately show ?case using cs IH 2(4) by (auto simp: remap_deps_prev)
qed auto

lemma rebuild_map:
  "rebuild K signer selected m prev ws = (cs, m') \<Longrightarrow> distinct (List.map origin ws) \<Longrightarrow>
   length cs = length ws \<and> (\<forall>i<length ws. m' (origin (ws ! i)) = Some (ch_id (cs ! i))) \<and>
   (\<forall>d. d \<notin> origin ` set ws \<longrightarrow> m' d = m d)"
proof (induction K signer selected m prev ws arbitrary: cs m' rule: rebuild.induct)
  case (2 K signer selected m prev w ws)
  let ?c = "rewritten_or_resigned K (wchange w) (remap_deps selected m prev (ch_deps (wchange w)))
      (ch_atoms (wchange w)) (ch_intent (wchange w)) (fst signer) (snd signer)"
  obtain cs1 m1 where r: "rebuild K signer selected (m(origin w \<mapsto> ch_id ?c)) (Some (ch_id ?c)) ws = (cs1, m1)"
    by fastforce
  with 2(2) have cs: "cs = ?c # cs1" "m' = m1" by (simp_all add: Let_def)
  have IH: "length cs1 = length ws" "\<forall>i<length ws. m1 (origin (ws ! i)) = Some (ch_id (cs1 ! i))"
    "\<forall>d. d \<notin> origin ` set ws \<longrightarrow> m1 d = (m(origin w \<mapsto> ch_id ?c)) d"
    using 2(1) [OF refl refl r] 2(3) by simp_all
  have "m1 (origin w) = Some (ch_id ?c)" using IH(3) 2(3) by simp
  with cs IH 2(3) show ?case by (auto simp: nth_Cons split: nat.split)
qed auto

section \<open>The chain\<close>

text \<open>Each element is a direct dependent of its predecessor.\<close>

definition linked :: "change_graph \<Rightarrow> blake3_hash list \<Rightarrow> bool" where
  "linked g chain \<longleftrightarrow> (\<forall>i. Suc i < length chain \<longrightarrow> chain ! i |\<in>| deps_of g (chain ! Suc i))"

lemma chain_walk_correct:
  "chain_walk g selected cur seen = Some chain \<Longrightarrow> wf_graph g \<Longrightarrow>
   chain \<noteq> [] \<and> hd chain = cur \<and> distinct chain \<and> set chain \<subseteq> fset selected - fset seen \<and> linked g chain"
proof (induction g selected cur seen arbitrary: chain rule: chain_walk.induct)
  case (1 g selected cur seen)
  from 1(2) have new: "cur |\<notin>| seen" "cur |\<in>| selected"
    by (auto simp: chain_walk.simps [of g selected cur seen] split: if_splits)
  show ?case
  proof (cases "children_in g selected cur")
    case Nil
    with 1(2) new show ?thesis by (auto simp: chain_walk.simps [of g selected cur seen] linked_def)
  next
    case (Cons c cs)
    with 1(2) new obtain rest where rest: "chain_walk g selected c (finsert cur seen) = Some rest"
      "chain = cur # rest"
      by (auto simp: chain_walk.simps [of g selected cur seen])
    note IH = 1(1) [OF new(1) _ Cons rest(1) 1(3)]
    have "c \<in> set (children_in g selected cur)" using Cons by simp
    then have "cur |\<in>| deps_of g c"
      using children_iff_deps [OF 1(3)] by (simp add: children_in_def child_ids_def depends_def)
    with IH new rest(2) show ?thesis
      by (auto simp: linked_def nth_Cons hd_conv_nth split: nat.splits)
  qed
qed

lemma resolve_linear_chain_correct:
  assumes "wf_graph g" and "resolve_linear_chain g selected = Inr chain"
  shows "distinct chain \<and> set chain = fset selected \<and> linked g chain"
proof -
  from assms(2) obtain r where r: "chain_walk g selected r {||} = Some chain"
    and len: "length chain = fcard selected"
    by (auto simp: resolve_linear_chain_def Let_def split: if_splits option.splits)
  from chain_walk_correct [OF r assms(1)]
  have "distinct chain" "set chain \<subseteq> fset selected" "linked g chain" by auto
  moreover from this len have "set chain = fset selected"
    by (intro card_subset_eq) (auto simp: distinct_card fcard.rep_eq)
  ultimately show ?thesis by blast
qed

lemma all_some_map:
  "all_some (List.map f xs) = Some ys \<longleftrightarrow> List.map f xs = List.map Some ys"
  by (induction xs arbitrary: ys) (auto simp: bind_eq_Some_conv map_eq_Cons_conv)

definition stored :: "change_graph \<Rightarrow> blake3_hash list \<Rightarrow> change list" where
  "stored g ids = List.map (\<lambda>i. the (graph_get g i)) ids"

lemma position_Some: "position x xs = Some n \<Longrightarrow> n < length xs \<and> xs ! n = x"
  by (induction xs arbitrary: n) (auto split: if_splits)

lemma spine_atoms_Inr:
  "spine_atoms g spine = Inr as \<Longrightarrow>
   (\<forall>i\<in>set spine. graph_get g i \<noteq> None) \<and> as = concat (List.map ch_atoms (stored g spine))"
  by (induction spine arbitrary: as) (auto simp: stored_def result_simps split: option.splits)

lemma effects_of_human:
  "\<forall>c\<in>set cs. human c \<Longrightarrow>
   effects_of env cs = List.map (atom_effect env) (concat (List.map ch_atoms cs))"
  by (induction cs) (simp_all add: human_effects)

text \<open>The success path of \<^verbatim>\<open>reorder\<close>.\<close>

lemma reorder_Inr:
  assumes "reorder K g desired signer = Some (Inr out)"
  shows "\<exists>chain working sorted_work cs m. 2 \<le> length desired \<and> distinct desired \<and>
    resolve_linear_chain g (fset_of_list desired) = Inr chain \<and>
    all_some (List.map (\<lambda>i. map_option (\<lambda>c. \<lparr>origin = i, wchange = c\<rparr>) (graph_get g i)) chain)
      = Some working \<and>
    bubble_loop (length working) K signer (map_of (zip desired [0 ..< length desired])) working
      = Inr sorted_work \<and>
    List.map origin sorted_work = desired \<and>
    rebuild K signer (fset_of_list desired) Map.empty None sorted_work = (cs, m) \<and>
    out = \<lparr>rewritten = cs, ro_rewrite_map = m, new_head = ch_id (last cs)\<rparr>"
proof -
  have len: "\<not> length desired < 2"
    using assms by (cases "length desired < 2") (simp_all add: reorder_def)
  have dist: "\<not> (\<not> distinct desired \<or> list_ex (\<lambda>i. graph_get g i = None) desired)"
  proof
    assume bad: "\<not> distinct desired \<or> list_ex (\<lambda>i. graph_get g i = None) desired"
    from assms [unfolded reorder_def if_not_P [OF len] if_P [OF bad]] show False by simp
  qed
  note r1 = assms [unfolded reorder_def if_not_P [OF len] if_not_P [OF dist] Let_def]
  obtain chain where chain: "resolve_linear_chain g (fset_of_list desired) = Inr chain"
    using r1 by (cases "resolve_linear_chain g (fset_of_list desired)") auto
  have same: "\<not> fset_of_list chain \<noteq> fset_of_list desired"
    using r1 unfolding chain by (cases "fset_of_list chain = fset_of_list desired") simp_all
  note r2 = r1 [unfolded chain sum.case if_not_P [OF same]]
  obtain working where working: "all_some (List.map (\<lambda>i. map_option (\<lambda>c. \<lparr>origin = i, wchange = c\<rparr>)
      (graph_get g i)) chain) = Some working"
    using r2 by (auto split: option.splits)
  note r3 = r2 [unfolded working option.case]
  obtain sorted_work where bub: "bubble_loop (length working) K signer
      (map_of (zip desired [0 ..< length desired])) working = Inr sorted_work"
    using r3 by (auto split: sum.splits)
  note r4 = r3 [unfolded bub sum.case]
  have org: "\<not> List.map origin sorted_work \<noteq> desired"
    using r4 by (cases "List.map origin sorted_work = desired") simp_all
  obtain cs m where reb: "rebuild K signer (fset_of_list desired) Map.empty None sorted_work = (cs, m)"
    by fastforce
  have "out = \<lparr>rewritten = cs, ro_rewrite_map = m, new_head = ch_id (last cs)\<rparr>"
    using r4 [unfolded if_not_P [OF org] reb prod.case] by (cases "cs = []") simp_all
  with len dist chain working bub org reb show ?thesis by (simp add: not_less)
qed

section \<open>Two small graphs\<close>

definition pnode :: "u8 \<Rightarrow> u8 list \<Rightarrow> string \<Rightarrow> change" where
  "pnode i ds p = (node i ds)\<lparr>ch_atoms := [Insert [p] [1]]\<rparr>"

lemma pnode_simps [simp]:
  "ch_id (pnode i ds p) = [i]"
  "ch_deps (pnode i ds p) = fset_of_list (List.map (\<lambda>d. [d]) ds)"
  "ch_atoms (pnode i ds p) = [Insert [p] [1]]"
  "human (pnode i ds p)"
  by (simp_all add: pnode_def human_def node_def sample_change_def change_new_def
      new_with_metadata_def Let_def)

text \<open>A chain of two changes, and a merge \<open>3\<close> of two unrelated roots \<open>1\<close> and \<open>2\<close>.\<close>

definition chain2 :: change_graph where
  "chain2 = add_change (add_change graph_new (pnode 1 [] ''a'')) (pnode 2 [1] ''b'')"

definition fork :: change_graph where
  "fork = add_change (add_change (add_change graph_new (pnode 1 [] ''a'')) (pnode 2 [] ''b''))
     (pnode 3 [1, 2] ''c'')"

lemma graph_new_empty [simp]:
  "deps_of graph_new i = {||}" "children_of graph_new i = {||}" "graph_get graph_new i = None"
  by (simp_all add: graph_new_def deps_of_def children_of_def entry_or_default_def graph_get_def)

lemma chain2_facts:
  "deps_of chain2 i = (if i = [2] then {|[1]|} else {||})"
  "children_of chain2 i = (if i = [1] then {|[2]|} else {||})"
  "graph_get chain2 i = (if i = [2] then Some (pnode 2 [1] ''b'')
     else if i = [1] then Some (pnode 1 [] ''a'') else None)"
  by (simp_all add: chain2_def graph_get_add)
    (simp_all add: add_change_def deps_of_insert children_of_insert)

lemma fork_facts:
  "deps_of fork i = (if i = [3] then {|[1], [2]|} else {||})"
  "children_of fork i = (if i = [1] \<or> i = [2] then {|[3]|} else {||})"
  "graph_get fork i = (if i = [3] then Some (pnode 3 [1, 2] ''c'')
     else if i = [2] then Some (pnode 2 [] ''b'')
     else if i = [1] then Some (pnode 1 [] ''a'') else None)"
  by (simp_all add: fork_def graph_get_add)
    (auto simp add: add_change_def deps_of_insert children_of_insert)

lemma wf_chain2: "wf_graph chain2"
  unfolding chain2_def by (intro wf_add_fresh wf_graph_new) (simp_all add: graph_get_add)

lemma ffilter_None [simp]: "ffilter P {||} = {||}"
  by auto

lemma fcard_small: "fcard {||} = 0" "fcard {|a|} = 1" "a \<noteq> b \<Longrightarrow> fcard {|a, b|} = 2"
  by (simp_all add: fcard.rep_eq)

lemma chain2_sort: "topological_sort chain2 {|[2]|} = Some [[1], [2]]"
proof -
  have anc: "ancestors chain2 {|[2]|} = {|[1], [2]|}"
    by (simp add: ancestors_def chain2_facts finsert_commute)
  have f: "ffilter (\<lambda>d. d = [1] \<or> d = [2]) {|[1]|} = {|[1 :: u8]|}" by auto
  have deg: "in_degree chain2 {|[1], [2]|} =
      (\<lambda>i. if i = [1] then Some 0 else if i = [2] then Some 1 else None)"
    by (auto simp: in_degree_def chain2_facts fun_eq_iff f fcard.rep_eq)
  have roots: "ffilter (\<lambda>i. (if i = [1] then Some 0 else if i = [2] then Some 1 else None)
      = Some (0 :: nat)) {|[1 :: u8], [2]|} = {|[1]|}" by auto
  show ?thesis
    unfolding topological_sort_def anc Let_def deg roots by (simp add: chain2_facts)
qed

lemma fork_sort: "topological_sort fork {|[3]|} = Some [[1], [2], [3]]"
proof -
  have s: "sorted_list_of_fset {|[1 :: u8], [2]|} = [[1], [2]]"
    by (rule sorted_list_of_fset_unique) simp_all
  have anc: "ancestors fork {|[3]|} = {|[1], [2], [3]|}"
    by (simp add: ancestors_def fork_facts s) auto
  have f: "ffilter (\<lambda>d. d = [1] \<or> d = [2] \<or> d = [3]) {|[1], [2]|} = {|[1 :: u8], [2]|}" by auto
  have deg: "in_degree fork {|[1], [2], [3]|} =
      (\<lambda>i. if i = [1] \<or> i = [2] then Some 0 else if i = [3] then Some 2 else None)"
    by (auto simp: in_degree_def fork_facts fun_eq_iff f fcard_small)
  have roots: "ffilter (\<lambda>i. (if i = [1] \<or> i = [2] then Some 0 else if i = [3] then Some 2 else None)
      = Some (0 :: nat)) {|[1 :: u8], [2], [3]|} = {|[1], [2]|}" by auto
  show ?thesis
    unfolding topological_sort_def anc Let_def deg roots s by (simp add: fork_facts)
qed

lemma chain2_spine: "collect_linear_spine chain2 {|[2]|} [1] = Some (Inr [[1], [2]])"
proof -
  have "[1] |\<in>| ancestors chain2 {|[2]|}"
    by (simp add: ancestors_def chain2_facts)
  then show ?thesis
    by (simp add: collect_linear_spine_def chain2_sort child_count_in_def child_ids_def chain2_facts)
qed

lemma fork_spine: "collect_linear_spine fork {|[3]|} [1] = Some (Inr [[1], [2], [3]])"
proof -
  have s: "sorted_list_of_fset {|[1 :: u8], [2]|} = [[1], [2]]"
    by (rule sorted_list_of_fset_unique) simp_all
  have "[1] |\<in>| ancestors fork {|[3]|}"
    by (simp add: ancestors_def fork_facts s)
  then show ?thesis
    by (simp add: collect_linear_spine_def fork_sort child_count_in_def child_ids_def fork_facts)
qed

section \<open>Properties\<close>


definition toy_signer :: "author \<times> bytes" where
  "toy_signer = (Human ''n'' ''e'' [7], [7])"


text \<open>
  Squashing is sound: the squashed change replays like the spine it replaces, keeps the
  dependencies of the target, and the map sends every member of the spine to it.
\<close>

theorem squash_correct:
  assumes "squash_into K g heads target (author, sk) = Some (Inr out)"
    and "\<forall>i c. graph_get g i = Some c \<longrightarrow> human c" and "\<not> is_ai author"
  shows "\<exists>spine. collect_linear_spine g heads target = Some (Inr spine) \<and>
    dom (sq_rewrite_map out) = set spine \<and> ran (sq_rewrite_map out) \<subseteq> {ch_id (squashed out)} \<and>
    ch_deps (squashed out) = ch_deps (the (graph_get g target)) \<and>
    replay_all env [squashed out] st = replay_all env (stored g spine) st"
proof -
  from assms(1) obtain tgt spine atoms where t: "graph_get g target = Some tgt"
    and spine: "collect_linear_spine g heads target = Some (Inr spine)"
    and atoms: "spine_atoms g spine = Inr atoms"
    and out: "out = \<lparr>squashed = rewritten_or_resigned K tgt (ch_deps tgt) atoms
        (squash_intent (length spine) (ch_intent tgt)) author sk,
      sq_rewrite_map = (\<lambda>i. if i \<in> set spine then Some (ch_id (rewritten_or_resigned K tgt
        (ch_deps tgt) atoms (squash_intent (length spine) (ch_intent tgt)) author sk)) else None)\<rparr>"
    unfolding squash_into_def
    by (auto simp: Let_def split: if_splits sum.splits option.splits)
  have "\<forall>c\<in>set (stored g spine). human c"
    using spine_atoms_Inr [OF atoms] assms(2) by (auto simp: stored_def)
  then have "effects_of env (stored g spine) = List.map (atom_effect env) atoms"
    using spine_atoms_Inr [OF atoms] by (simp add: effects_of_human)
  moreover have "effects_of env [squashed out] = List.map (atom_effect env) atoms"
    using assms(3) by (simp add: out human_effects human_def)
  ultimately show ?thesis
    using spine t by (intro exI [of _ spine])
      (auto simp: out replay_all_effects dom_def ran_def split: if_splits)
qed

theorem squash_correct_witness:
  "\<exists>out. squash_into toy_crypto chain2 {|[2]|} [1] toy_signer = Some (Inr out) \<and>
     replay_all toy_env [squashed out] Map.empty
       = replay_all toy_env [pnode 1 [] ''a'', pnode 2 [1] ''b''] Map.empty"
proof -
  obtain out where out: "squash_into toy_crypto chain2 {|[2]|} [1] toy_signer = Some (Inr out)"
    by (simp add: squash_into_def chain2_facts chain2_spine toy_signer_def Let_def)
  have "\<forall>i c. graph_get chain2 i = Some c \<longrightarrow> human c"
    by (auto simp: chain2_facts split: if_splits)
  from squash_correct [OF out [unfolded toy_signer_def] this, where env = toy_env and st = Map.empty]
  have "replay_all toy_env [squashed out] Map.empty
      = replay_all toy_env (stored chain2 [[1], [2]]) Map.empty"
    by (auto simp: chain2_spine)
  with out show ?thesis by (simp add: stored_def chain2_facts)
qed

text \<open>
  The linearity test is too weak: counting one child per element accepts the merge of two
  unrelated roots, and the second root is squashed into a change it has nothing to do with.
\<close>

theorem squash_accepts_merge:
  "(\<exists>out. squash_into K fork {|[3]|} [1] (author, sk) = Some (Inr out) \<and>
      sq_rewrite_map out [2] = Some (ch_id (squashed out))) \<and>
   \<not> reaches fork [2] [1] \<and> \<not> reaches fork [1] [2]"
proof -
  have "reaches fork i j \<longleftrightarrow> i = j" if "i = [1] \<or> i = [2]" for i j
  proof -
    have "(i, x) \<notin> depends fork" for x using that by (auto simp: depends_def fork_facts)
    then show ?thesis by (auto simp: reaches_iff elim: converse_rtranclE)
  qed
  moreover have "\<exists>out. squash_into K fork {|[3]|} [1] (author, sk) = Some (Inr out) \<and>
      sq_rewrite_map out [2] = Some (ch_id (squashed out))"
    by (simp add: squash_into_def fork_facts fork_spine Let_def)
  ultimately show ?thesis by simp
qed

end
