(* ===== verification/Diff.thy ===== *)
theory Diff
  imports Prelude "HOL-Library.Sublist"
begin

text \<open>
  Sequence differencing (\<^verbatim>\<open>arc-diff/src/lib.rs\<close>): the reusable scratch buffer, the
  longest-common-subsequence table, the walk that emits the edit script and the coalescing
  of adjacent edits.  \<^verbatim>\<open>PartialEq\<close> of the element type is HOL equality; a \<^verbatim>\<open>usize\<close> is a natural
  number, and a request for more than \<^verbatim>\<open>isize::MAX\<close> bytes panics, which is \<open>None\<close>.
\<close>

type_synonym range = "nat \<times> nat"

datatype edit =
    EDelete range
  | EInsert nat range
  | EReplace range range

record edit_script =
  edits :: "edit list"

definition script_new :: edit_script where
  "script_new = \<lparr>edits = []\<rparr>"

definition script_push :: "edit_script \<Rightarrow> edit \<Rightarrow> edit_script" where
  "script_push s e = s\<lparr>edits := edits s @ [e]\<rparr>"

section \<open>Scratch memory\<close>

record scratch_buffer =
  dp :: "u32 list"
  path_backing :: bytes

definition scratch_new :: scratch_buffer where
  "scratch_new = \<lparr>dp = [], path_backing = []\<rparr>"

text \<open>\<^verbatim>\<open>Vec::resize\<close> to a larger length; the allocation fails beyond \<^verbatim>\<open>isize::MAX\<close> bytes.\<close>

definition resize_zero :: "u32 list \<Rightarrow> nat \<Rightarrow> u32 list option" where
  "resize_zero v n = (if 4 * n \<ge> 2 ^ 63 then None else Some (v @ replicate (n - length v) 0))"

definition prepare_dp :: "scratch_buffer \<Rightarrow> nat \<Rightarrow> nat \<Rightarrow> scratch_buffer option" where
  "prepare_dp s rows cols =
     (let needed = saturating_mul rows cols
      in if length (dp s) < needed
         then map_option (\<lambda>v. s\<lparr>dp := v\<rparr>) (resize_zero (dp s) needed)
         else Some (s\<lparr>dp := replicate needed 0 @ drop needed (dp s)\<rparr>))"

text \<open>The mutable slice is returned with the rest of the buffer behind it.\<close>

definition dp_mut :: "scratch_buffer \<Rightarrow> nat \<Rightarrow> nat \<Rightarrow> (u32 list \<times> scratch_buffer) option" where
  "dp_mut s rows cols =
     map_option (\<lambda>s'. (take (saturating_mul rows cols) (dp s'), s')) (prepare_dp s rows cols)"

definition intern_path :: "scratch_buffer \<Rightarrow> bytes \<Rightarrow> range \<times> scratch_buffer" where
  "intern_path s bs =
     (let start = length (path_backing s);
          backing = path_backing s @ bs
      in ((start, length backing), s\<lparr>path_backing := backing\<rparr>))"

definition resolve_path :: "scratch_buffer \<Rightarrow> range \<Rightarrow> bytes option" where
  "resolve_path s r =
     (if fst r \<le> snd r \<and> snd r \<le> length (path_backing s)
      then Some (drop (fst r) (take (snd r) (path_backing s))) else None)"

definition clear_keep_allocation :: "scratch_buffer \<Rightarrow> scratch_buffer" where
  "clear_keep_allocation s = \<lparr>dp = replicate (length (dp s)) 0, path_backing = []\<rparr>"

section \<open>The differ\<close>

definition dp_idx :: "nat \<Rightarrow> nat \<Rightarrow> nat \<Rightarrow> nat" where
  "dp_idx i j cols = i * cols + j"

text \<open>The inner loop \<^verbatim>\<open>for j in (0..m).rev()\<close> and the outer loop \<^verbatim>\<open>for i in (0..n).rev()\<close>.\<close>

fun fill_cols :: "'a list \<Rightarrow> 'a list \<Rightarrow> nat \<Rightarrow> nat \<Rightarrow> nat \<Rightarrow> u32 list \<Rightarrow> u32 list" where
  "fill_cols before after cols i 0 t = t"
| "fill_cols before after cols i (Suc j) t =
     fill_cols before after cols i j
       (t[dp_idx i j cols :=
          if before ! i = after ! j then t ! dp_idx (i + 1) (j + 1) cols + 1
          else max (t ! dp_idx (i + 1) j cols) (t ! dp_idx i (j + 1) cols)])"

fun fill_rows :: "'a list \<Rightarrow> 'a list \<Rightarrow> nat \<Rightarrow> nat \<Rightarrow> u32 list \<Rightarrow> u32 list" where
  "fill_rows before after cols 0 t = t"
| "fill_rows before after cols (Suc i) t =
     fill_rows before after cols i (fill_cols before after cols i (length after) t)"

text \<open>The three loops that emit the script.\<close>

fun walk_deletes :: "nat \<Rightarrow> nat \<Rightarrow> edit list" where
  "walk_deletes i 0 = []"
| "walk_deletes i (Suc k) = EDelete (i, i + 1) # walk_deletes (i + 1) k"

fun walk_inserts :: "nat \<Rightarrow> nat \<Rightarrow> nat \<Rightarrow> edit list" where
  "walk_inserts i j 0 = []"
| "walk_inserts i j (Suc k) = EInsert i (j, j + 1) # walk_inserts i (j + 1) k"

function walk :: "'a list \<Rightarrow> 'a list \<Rightarrow> u32 list \<Rightarrow> nat \<Rightarrow> nat \<Rightarrow> edit list" where
  "walk before after t i j =
     (let n = length before; m = length after; cols = m + 1
      in if i < n \<and> j < m then
           (if before ! i = after ! j then walk before after t (i + 1) (j + 1)
            else
              let delete_score = t ! dp_idx (i + 1) j cols;
                  insert_score = t ! dp_idx i (j + 1) cols
              in if delete_score \<ge> insert_score
                 then EDelete (i, i + 1) # walk before after t (i + 1) j
                 else EInsert i (j, j + 1) # walk before after t i (j + 1))
         else if i < n then walk_deletes i (n - i)
         else walk_inserts i j (m - j))"
  by pat_completeness auto

termination walk
  by (relation "measure (\<lambda>(before, after, t, i, j). (length before - i) + (length after - j))") auto

declare walk.simps [simp del]

fun coalesce :: "edit list \<Rightarrow> edit list" where
  "coalesce (EDelete b # EInsert at a # es) =
     (if at = fst b \<or> at = snd b then EReplace b a # coalesce es
      else EDelete b # coalesce (EInsert at a # es))"
| "coalesce (e # es) = e # coalesce es"
| "coalesce [] = []"

definition coalesce_replace :: "edit_script \<Rightarrow> edit_script" where
  "coalesce_replace s = \<lparr>edits = coalesce (edits s)\<rparr>"

text \<open>\<^verbatim>\<open>BasicDiffer::diff\<close>, on the differ's scratch buffer, which it updates.\<close>

definition basic_diff ::
  "scratch_buffer \<Rightarrow> 'a list \<Rightarrow> 'a list \<Rightarrow> (edit_script \<times> scratch_buffer) option" where
  "basic_diff scratch before after =
     (let n = length before; m = length after; cols = m + 1; rows = n + 1
      in Option.bind (prepare_dp scratch rows cols) (\<lambda>s1.
         Option.bind (dp_mut s1 rows cols) (\<lambda>(table, s2).
           let t = fill_rows before after cols n table
           in Some (coalesce_replace \<lparr>edits = walk before after t 0 0\<rparr>,
                    s2\<lparr>dp := t @ drop (length t) (dp s2)\<rparr>))))"

section \<open>The meaning of a script\<close>

definition slice :: "'a list \<Rightarrow> nat \<Rightarrow> nat \<Rightarrow> 'a list" where
  "slice xs a b = take (b - a) (drop a xs)"

text \<open>Applying a script from a position of the old sequence on.\<close>

fun patch :: "'a list \<Rightarrow> 'a list \<Rightarrow> nat \<Rightarrow> edit list \<Rightarrow> 'a list" where
  "patch before after pos [] = drop pos before"
| "patch before after pos (EDelete (s, e) # es) =
     slice before pos s @ patch before after e es"
| "patch before after pos (EInsert at (s, e) # es) =
     slice before pos at @ slice after s e @ patch before after at es"
| "patch before after pos (EReplace (s, e) (s', e') # es) =
     slice before pos s @ slice after s' e' @ patch before after e es"

text \<open>The ranges are in bounds and follow each other.\<close>

fun script_ok :: "nat \<Rightarrow> nat \<Rightarrow> nat \<Rightarrow> nat \<Rightarrow> edit list \<Rightarrow> bool" where
  "script_ok n m pos apos [] = True"
| "script_ok n m pos apos (EDelete (s, e) # es) =
     (pos \<le> s \<and> s < e \<and> e \<le> n \<and> script_ok n m e apos es)"
| "script_ok n m pos apos (EInsert at (s, e) # es) =
     (pos \<le> at \<and> at \<le> n \<and> apos \<le> s \<and> s < e \<and> e \<le> m \<and> script_ok n m at e es)"
| "script_ok n m pos apos (EReplace (s, e) (s', e') # es) =
     (pos \<le> s \<and> s < e \<and> e \<le> n \<and> apos \<le> s' \<and> s' < e' \<and> e' \<le> m \<and> script_ok n m e e' es)"

fun edit_cost :: "edit \<Rightarrow> nat" where
  "edit_cost (EDelete (s, e)) = e - s"
| "edit_cost (EInsert at (s, e)) = e - s"
| "edit_cost (EReplace (s, e) (s', e')) = (e - s) + (e' - s')"

definition script_cost :: "edit list \<Rightarrow> nat" where
  "script_cost es = sum_list (List.map edit_cost es)"

lemma script_cost_simps [simp]:
  "script_cost [] = 0" "script_cost (e # es) = edit_cost e + script_cost es"
  by (simp_all add: script_cost_def)

section \<open>Longest common subsequences\<close>

fun lcs :: "'a list \<Rightarrow> 'a list \<Rightarrow> nat" where
  "lcs (x # xs) (y # ys) =
     (if x = y then Suc (lcs xs ys) else max (lcs xs (y # ys)) (lcs (x # xs) ys))"
| "lcs xs ys = 0"

lemma lcs_le: "lcs xs ys \<le> length xs \<and> lcs xs ys \<le> length ys"
  by (induction xs ys rule: lcs.induct) auto

lemma lcs_Nil [simp]: "lcs xs [] = 0" "lcs [] ys = 0"
  by (cases xs; simp)+

lemma lcs_upper: "subseq zs xs \<Longrightarrow> subseq zs ys \<Longrightarrow> length zs \<le> lcs xs ys"
proof (induction xs ys arbitrary: zs rule: lcs.induct)
  case (1 x xs y ys)
  show ?case
  proof (cases zs)
    case (Cons z zs')
    show ?thesis
    proof (cases "x = y")
      case True
      have "subseq zs' xs" "subseq zs' ys"
        using 1(4,5) Cons by (auto simp: subseq_Cons2_iff split: if_splits dest: subseq_Cons')
      from 1(1) [OF True this] show ?thesis using True Cons by simp
    next
      case False
      then have "z \<noteq> x \<or> z \<noteq> y" by auto
      then have "subseq zs xs \<or> subseq zs ys"
        using 1(4,5) Cons by (auto simp: subseq_Cons2_iff split: if_splits)
      with 1(2,3) [OF False] 1(4,5) False show ?thesis by (auto simp: le_max_iff_disj)
    qed
  qed simp
qed auto

lemma lcs_attained: "\<exists>zs. subseq zs xs \<and> subseq zs ys \<and> length zs = lcs xs ys"
proof (induction xs ys rule: lcs.induct)
  case (1 x xs y ys)
  show ?case
  proof (cases "x = y")
    case True
    with 1(1) obtain zs where "subseq zs xs" "subseq zs ys" "length zs = lcs xs ys" by blast
    with True show ?thesis by (intro exI [of _ "x # zs"]) auto
  next
    case False
    with 1(2,3) show ?thesis by (auto simp: max_def)
  qed
qed auto

section \<open>The table\<close>

lemma dp_idx_eq_iff:
  assumes "j < cols" "j' < cols"
  shows "dp_idx i j cols = dp_idx i' j' cols \<longleftrightarrow> i = i' \<and> j = j'"
proof
  assume e: "dp_idx i j cols = dp_idx i' j' cols"
  have "dp_idx i j cols div cols = i" "dp_idx i' j' cols div cols = i'"
    "dp_idx i j cols mod cols = j" "dp_idx i' j' cols mod cols = j'"
    using assms by (simp_all add: dp_idx_def)
  with e show "i = i' \<and> j = j'" by simp
qed simp

lemma dp_idx_less: "i \<le> n \<Longrightarrow> j < cols \<Longrightarrow> dp_idx i j cols < (n + 1) * cols"
proof -
  assume "i \<le> n" "j < cols"
  then have "i * cols \<le> n * cols" by (intro mult_le_mono1)
  with \<open>j < cols\<close> have "i * cols + j < n * cols + cols" by linarith
  then show ?thesis by (simp add: dp_idx_def add.commute)
qed

text \<open>The cells a partially filled table has right: row \<open>i\<close> from column \<open>j\<close> on, and all below.\<close>

definition table_ok :: "'a list \<Rightarrow> 'a list \<Rightarrow> nat \<Rightarrow> nat \<Rightarrow> u32 list \<Rightarrow> bool" where
  "table_ok before after i j t \<longleftrightarrow>
     length t = (length before + 1) * (length after + 1) \<and>
     (\<forall>i' j'. i' \<le> length before \<longrightarrow> j' \<le> length after \<longrightarrow>
        i < i' \<or> i = i' \<and> j \<le> j' \<or> j' = length after \<longrightarrow>
        t ! dp_idx i' j' (length after + 1) = of_nat (lcs (drop i' before) (drop j' after)))"

lemma lcs_drop:
  "i < length xs \<Longrightarrow> j < length ys \<Longrightarrow>
   lcs (drop i xs) (drop j ys) =
     (if xs ! i = ys ! j then Suc (lcs (drop (Suc i) xs) (drop (Suc j) ys))
      else max (lcs (drop (Suc i) xs) (drop j ys)) (lcs (drop i xs) (drop (Suc j) ys)))"
  by (simp add: Cons_nth_drop_Suc [symmetric])

lemma u32_of_nat_le: "a < 2 ^ 32 \<Longrightarrow> b < 2 ^ 32 \<Longrightarrow> (of_nat a :: u32) \<le> of_nat b \<longleftrightarrow> a \<le> b"
  by (simp add: word_le_nat_alt unsigned_of_nat take_bit_eq_mod)

lemma u32_of_nat_max:
  "a < 2 ^ 32 \<Longrightarrow> b < 2 ^ 32 \<Longrightarrow> max (of_nat a :: u32) (of_nat b) = of_nat (max a b)"
  by (simp add: max_def u32_of_nat_le)

lemma lcs_drop_bound: "length xs < 2 ^ 32 \<Longrightarrow> lcs (drop i xs) ys < 2 ^ 32"
  by (rule le_less_trans [of _ "length xs"])
    (use lcs_le [of "drop i xs" ys] in \<open>auto intro: le_trans [of _ "length xs - i"]\<close>)

lemma table_ok_cell:
  "table_ok before after i j t \<Longrightarrow> i' \<le> length before \<Longrightarrow> j' \<le> length after \<Longrightarrow>
   i < i' \<or> i = i' \<and> j \<le> j' \<or> j' = length after \<Longrightarrow>
   t ! dp_idx i' j' (length after + 1) = of_nat (lcs (drop i' before) (drop j' after))"
  unfolding table_ok_def by blast

lemma table_ok_step:
  assumes "table_ok before after i (Suc j) t" and "i < length before" "j < length after"
    and "length before < 2 ^ 32"
  shows "table_ok before after i j
    (t[dp_idx i j (length after + 1) :=
        if before ! i = after ! j then t ! dp_idx (i + 1) (j + 1) (length after + 1) + 1
        else max (t ! dp_idx (i + 1) j (length after + 1)) (t ! dp_idx i (j + 1) (length after + 1))])"
proof -
  let ?c = "length after + 1"
  let ?v = "if before ! i = after ! j then t ! dp_idx (i + 1) (j + 1) ?c + 1
        else max (t ! dp_idx (i + 1) j ?c) (t ! dp_idx i (j + 1) ?c)"
  have len: "length t = (length before + 1) * ?c"
    using assms(1) by (simp add: table_ok_def)
  note cell = table_ok_cell [OF assms(1)]
  have "?v = of_nat (lcs (drop i before) (drop j after))"
    using assms(2,3) cell [of "i + 1" "j + 1"] cell [of "i + 1" j] cell [of i "j + 1"]
      u32_of_nat_max [OF lcs_drop_bound [OF assms(4), of "Suc i" "drop j after"]
        lcs_drop_bound [OF assms(4), of i "drop (Suc j) after"]]
    by (simp add: lcs_drop add.commute)
  moreover have "dp_idx i j ?c < length t"
    unfolding len using assms(2,3) by (intro dp_idx_less) simp_all
  moreover have "dp_idx i' j' ?c = dp_idx i j ?c \<longleftrightarrow> i' = i \<and> j' = j" if "j' \<le> length after" for i' j'
    using that assms(3) by (intro dp_idx_eq_iff) simp_all
  moreover have "t[dp_idx i j ?c := ?v] ! dp_idx i' j' ?c = of_nat (lcs (drop i' before) (drop j' after))"
    if b: "i' \<le> length before" "j' \<le> length after" and c: "i < i' \<or> i = i' \<and> j \<le> j' \<or> j' = length after"
    for i' j'
  proof (cases "i' = i \<and> j' = j")
    case True
    with calculation show ?thesis by simp
  next
    case False
    with c have "i < i' \<or> i = i' \<and> Suc j \<le> j' \<or> j' = length after" by auto
    from cell [OF b this] calculation(3) [OF b(2), of i'] False show ?thesis by simp
  qed
  ultimately show ?thesis
    unfolding table_ok_def by (simp only: length_list_update len) blast
qed

lemma fill_cols_ok:
  "table_ok before after i j t \<Longrightarrow> i < length before \<Longrightarrow> j \<le> length after \<Longrightarrow> length before < 2 ^ 32 \<Longrightarrow>
   table_ok before after i 0 (fill_cols before after (length after + 1) i j t)"
proof (induction j arbitrary: t)
  case (Suc j)
  then have "table_ok before after i j
    (t[dp_idx i j (length after + 1) :=
        if before ! i = after ! j then t ! dp_idx (i + 1) (j + 1) (length after + 1) + 1
        else max (t ! dp_idx (i + 1) j (length after + 1)) (t ! dp_idx i (j + 1) (length after + 1))])"
    by (intro table_ok_step) simp_all
  then show ?case
    unfolding fill_cols.simps by (rule Suc.IH) (use Suc.prems in simp_all)
qed simp

lemma table_ok_next_row: "table_ok before after (Suc i) 0 t \<Longrightarrow> table_ok before after i (length after) t"
proof -
  assume "table_ok before after (Suc i) 0 t"
  moreover have "i < i' \<longleftrightarrow> Suc i < i' \<or> Suc i = i'" for i' by auto
  ultimately show ?thesis unfolding table_ok_def by auto
qed

lemma fill_rows_ok:
  "table_ok before after i 0 t \<Longrightarrow> i \<le> length before \<Longrightarrow> length before < 2 ^ 32 \<Longrightarrow>
   table_ok before after 0 0 (fill_rows before after (length after + 1) i t)"
proof (induction i arbitrary: t)
  case (Suc i)
  from Suc.prems have "table_ok before after i 0 (fill_cols before after (length after + 1) i (length after) t)"
    by (intro fill_cols_ok table_ok_next_row) simp_all
  from Suc.IH [OF this] Suc.prems show ?case by simp
qed simp

lemma table_ok_zero:
  "table_ok before after (length before) 0 (replicate ((length before + 1) * (length after + 1)) 0)"
proof -
  define N where "N = (length before + 1) * (length after + 1)"
  have "dp_idx i' j' (length after + 1) < N" if "i' \<le> length before" "j' \<le> length after" for i' j'
    unfolding N_def using that by (intro dp_idx_less) simp_all
  then show ?thesis
    unfolding N_def [symmetric] table_ok_def by (auto simp: N_def [symmetric])
qed

lemma length_fill_cols [simp]: "length (fill_cols before after cols i j t) = length t"
  by (induction j arbitrary: t) simp_all

lemma length_fill_rows [simp]: "length (fill_rows before after cols i t) = length t"
  by (induction i arbitrary: t) simp_all

text \<open>Whatever the scratch buffer held, the table starts zeroed.\<close>

lemma prepared_table:
  assumes "prepare_dp s rows cols = Some s1" and "dp_mut s1 rows cols = Some (t, s2)"
  shows "t = replicate (saturating_mul rows cols) 0"
proof -
  have "saturating_mul rows cols \<le> length (dp s1)"
    using assms(1) by (auto simp: prepare_dp_def resize_zero_def Let_def split: if_splits)
  with assms(2) show ?thesis
    by (auto simp: dp_mut_def prepare_dp_def Let_def)
qed

lemma basic_diff_Some:
  assumes "basic_diff scratch before after = Some (script, scratch')"
  shows "edits script = coalesce (walk before after
    (fill_rows before after (length after + 1) (length before)
      (replicate (saturating_mul (length before + 1) (length after + 1)) 0)) 0 0)"
proof -
  from assms obtain s1 t s2 where s1: "prepare_dp scratch (length before + 1) (length after + 1) = Some s1"
    and s2: "dp_mut s1 (length before + 1) (length after + 1) = Some (t, s2)"
    and script: "script = coalesce_replace \<lparr>edits = walk before after
        (fill_rows before after (length after + 1) (length before) t) 0 0\<rparr>"
    by (auto simp: basic_diff_def Let_def bind_eq_Some_conv)
  show ?thesis
    unfolding script prepared_table [OF s1 s2] by (simp add: coalesce_replace_def)
qed

section \<open>Walk and coalescing\<close>

lemma slice_same [simp]: "slice xs a a = []"
  by (simp add: slice_def)

lemma slice_one: "a < length xs \<Longrightarrow> slice xs a (Suc a) = [xs ! a]"
  by (simp add: slice_def Cons_nth_drop_Suc [symmetric])

lemma slice_Cons: "a < b \<Longrightarrow> b \<le> length xs \<Longrightarrow> slice xs a b = xs ! a # slice xs (Suc a) b"
  by (simp add: slice_def Cons_nth_drop_Suc [symmetric] take_Cons')

lemma length_slice: "b \<le> length xs \<Longrightarrow> length (slice xs a b) = b - a"
  by (simp add: slice_def)

lemma script_ok_weaken:
  "script_ok n m pos apos es \<Longrightarrow> pos' \<le> pos \<Longrightarrow> apos' \<le> apos \<Longrightarrow> script_ok n m pos' apos' es"
proof (induction n m pos apos es arbitrary: pos' apos' rule: script_ok.induct)
  case (2 n m pos apos s e es)
  from 2(2,3,4) 2(1) [of e apos'] show ?case by simp
qed auto

lemma patch_skip:
  "script_ok (length before) m (Suc pos) apos es \<Longrightarrow> pos < length before \<Longrightarrow>
   patch before after pos es = before ! pos # patch before after (Suc pos) es"
proof (cases es)
  case (Cons e es')
  assume "script_ok (length before) m (Suc pos) apos es" "pos < length before"
  with Cons show ?thesis by (cases e) (auto simp: slice_Cons)
qed (simp add: Cons_nth_drop_Suc)

lemma walk_cost_simps [simp]:
  "script_cost (walk_deletes i k) = k" "script_cost (walk_inserts i j k) = k"
  by (induction k arbitrary: i j) simp_all

lemma walk_deletes_ok: "i + k = n \<Longrightarrow> script_ok n m i apos (walk_deletes i k)"
  by (induction k arbitrary: i) auto

lemma walk_deletes_patch: "i + k = length before \<Longrightarrow> patch before after i (walk_deletes i k) = []"
  by (induction k arbitrary: i) auto

lemma walk_inserts_ok:
  "i \<le> n \<Longrightarrow> j + k = m \<Longrightarrow> script_ok n m i j (walk_inserts i j k)"
  by (induction k arbitrary: j) auto

lemma walk_inserts_patch:
  "i = length before \<Longrightarrow> j + k = length after \<Longrightarrow> patch before after i (walk_inserts i j k) = drop j after"
  by (induction k arbitrary: j) (auto simp: slice_one Cons_nth_drop_Suc)

lemma walk_ok:
  "i \<le> length before \<Longrightarrow> j \<le> length after \<Longrightarrow>
   script_ok (length before) (length after) i j (walk before after t i j)"
proof (induction before after t i j rule: walk.induct)
  case (1 before after t i j)
  show ?case
  proof (cases "i < length before \<and> j < length after")
    case True
    have "script_ok n m (i + 1) (j + 1) es \<Longrightarrow> script_ok n m i j es" for n m es
      by (rule script_ok_weaken) auto
    with True 1 show ?thesis
      by (auto simp: walk.simps [of before after t i j] Let_def)
  next
    case False
    with 1(4,5) show ?thesis
      by (auto simp: walk.simps [of before after t i j] walk_deletes_ok walk_inserts_ok Let_def)
  qed
qed

lemma walk_patch:
  "i \<le> length before \<Longrightarrow> j \<le> length after \<Longrightarrow>
   patch before after i (walk before after t i j) = drop j after"
proof (induction before after t i j rule: walk.induct)
  case (1 before after t i j)
  show ?case
  proof (cases "i < length before \<and> j < length after")
    case True
    have "script_ok (length before) (length after) (Suc i) (Suc j) (walk before after t (i + 1) (j + 1))"
      using walk_ok [of "i + 1" before "j + 1" after t] True by simp
    from patch_skip [OF this] True 1 show ?thesis
      by (auto simp: walk.simps [of before after t i j] Let_def slice_one Cons_nth_drop_Suc)
  next
    case False
    with 1(4,5) show ?thesis
      by (auto simp: walk.simps [of before after t i j] walk_deletes_patch walk_inserts_patch Let_def)
  qed
qed

lemma walk_cost:
  "table_ok before after 0 0 t \<Longrightarrow> length before < 2 ^ 32 \<Longrightarrow> i \<le> length before \<Longrightarrow> j \<le> length after \<Longrightarrow>
   script_cost (walk before after t i j) + 2 * lcs (drop i before) (drop j after)
     = (length before - i) + (length after - j)"
proof (induction before after t i j rule: walk.induct)
  case (1 before after t i j)
  show ?case
  proof (cases "i < length before \<and> j < length after")
    case True
    have t: "t ! dp_idx i' j' (length after + 1) = of_nat (lcs (drop i' before) (drop j' after))"
      if "i' \<le> length before" "j' \<le> length after" for i' j'
      using that by (intro table_ok_cell [OF 1(4)]) auto
    let ?d = "lcs (drop (Suc i) before) (drop j after)" and ?n = "lcs (drop i before) (drop (Suc j) after)"
    have cmp: "t ! dp_idx i (j + 1) (length after + 1) \<le> t ! dp_idx (i + 1) j (length after + 1)
        \<longleftrightarrow> ?n \<le> ?d"
      using t [of "i + 1" j] t [of i "j + 1"] True
        u32_of_nat_le [OF lcs_drop_bound [OF 1(5), of i "drop (Suc j) after"]
          lcs_drop_bound [OF 1(5), of "Suc i" "drop j after"]]
      by simp
    consider (eq) "before ! i = after ! j" | (del) "before ! i \<noteq> after ! j" "?n \<le> ?d"
      | (ins) "before ! i \<noteq> after ! j" "\<not> ?n \<le> ?d" by blast
    then show ?thesis
    proof cases
      case eq
      with 1(1) [OF refl refl refl True eq 1(4,5)] True show ?thesis
        by (auto simp: walk.simps [of before after t i j] lcs_drop)
    next
      case del
      with 1(2) [OF refl refl refl True del(1) refl refl _ 1(4,5)] cmp True show ?thesis
        by (auto simp: walk.simps [of before after t i j] lcs_drop max_def)
    next
      case ins
      with 1(3) [OF refl refl refl True ins(1) refl refl _ 1(4,5)] cmp True show ?thesis
        by (auto simp: walk.simps [of before after t i j] lcs_drop max_def)
    qed
  next
    case False
    with 1(6,7) show ?thesis
      by (auto simp: walk.simps [of before after t i j] Let_def)
  qed
qed

lemma coalesce_Cons:
  "coalesce (e # es) = e # coalesce es \<or>
   (\<exists>b at a rest. e = EDelete b \<and> es = EInsert at a # rest \<and> (at = fst b \<or> at = snd b) \<and>
      coalesce (e # es) = EReplace b a # coalesce rest)"
  by (cases e; cases es; cases "hd es") auto

lemma coalesce_ok:
  "script_ok n m pos apos es \<Longrightarrow>
   script_ok n m pos apos (coalesce es) \<and> script_cost (coalesce es) = script_cost es \<and>
   patch before after pos (coalesce es) = patch before after pos es"
proof (induction es arbitrary: pos apos rule: length_induct)
  case (1 es)
  show ?case
  proof (cases es)
    case (Cons e es')
    then have IH: "script_ok n m pos apos rest \<Longrightarrow>
        script_ok n m pos apos (coalesce rest) \<and> script_cost (coalesce rest) = script_cost rest \<and>
        patch before after pos (coalesce rest) = patch before after pos rest"
      if "rest = es' \<or> es' = x # rest" for pos apos rest x
      using 1(1) that by auto
    from coalesce_Cons [of e es'] show ?thesis
    proof
      assume "coalesce (e # es') = e # coalesce es'"
      with 1(2) Cons show ?thesis
        by (cases e) (auto dest: IH [OF disjI1 [OF refl]] split: prod.splits)
    next
      assume "\<exists>b at a rest. e = EDelete b \<and> es' = EInsert at a # rest \<and> (at = fst b \<or> at = snd b) \<and>
          coalesce (e # es') = EReplace b a # coalesce rest"
      then obtain s t at s' t' rest where e: "e = EDelete (s, t)" "es' = EInsert at (s', t') # rest"
        "at = s \<or> at = t" "coalesce (e # es') = EReplace (s, t) (s', t') # coalesce rest"
        by (metis prod.collapse)
      with 1(2) Cons have at: "at = t" and ok: "script_ok n m t t' rest" by auto
      from IH [OF disjI2 [OF e(2)] ok] 1(2) Cons e at show ?thesis by auto
    qed
  qed simp
qed

section \<open>Correctness of the differ\<close>

lemma drop_slice: "a \<le> b \<Longrightarrow> b \<le> length xs \<Longrightarrow> drop a xs = slice xs a b @ drop b xs"
  by (simp add: slice_def) (metis add.commute append_take_drop_id drop_drop le_add_diff_inverse)

text \<open>What a script keeps of the old sequence is a common subsequence, and pays for the rest.\<close>

lemma patch_kept:
  "script_ok (length before) (length after) pos apos es \<Longrightarrow> pos \<le> length before \<Longrightarrow>
   \<exists>zs. subseq zs (drop pos before) \<and> subseq zs (patch before after pos es) \<and>
        script_cost es + 2 * length zs = (length before - pos) + length (patch before after pos es)"
proof (induction "length before" "length after" pos apos es rule: script_ok.induct)
  case (1 pos apos)
  show ?case by (rule exI [of _ "drop pos before"]) simp
next
  case (2 pos apos s e es)
  then obtain zs where zs: "subseq zs (drop e before)" "subseq zs (patch before after e es)"
    "script_cost es + 2 * length zs = (length before - e) + length (patch before after e es)" by auto
  have "drop pos before = slice before pos s @ slice before s e @ drop e before"
    using 2 drop_slice [of pos s before] drop_slice [of s e before] by simp
  with zs 2(2) show ?case
    by (intro exI [of _ "slice before pos s @ zs"])
      (auto simp: length_slice subseq_append' list_emb_append2)
next
  case (3 pos apos at s e es)
  then obtain zs where zs: "subseq zs (drop at before)" "subseq zs (patch before after at es)"
    "script_cost es + 2 * length zs = (length before - at) + length (patch before after at es)" by auto
  have "drop pos before = slice before pos at @ drop at before"
    using 3 drop_slice [of pos at before] by simp
  with zs 3(2) show ?case
    by (intro exI [of _ "slice before pos at @ zs"])
      (auto simp: length_slice subseq_append' list_emb_append2)
next
  case (4 pos apos s e s' e' es)
  then obtain zs where zs: "subseq zs (drop e before)" "subseq zs (patch before after e es)"
    "script_cost es + 2 * length zs = (length before - e) + length (patch before after e es)" by auto
  have "drop pos before = slice before pos s @ slice before s e @ drop e before"
    using 4 drop_slice [of pos s before] drop_slice [of s e before] by simp
  with zs 4(2) show ?case
    by (intro exI [of _ "slice before pos s @ zs"])
      (auto simp: length_slice subseq_append' list_emb_append2)
qed

lemma script_cost_lower:
  assumes "script_ok (length before) (length after) 0 0 es" and "patch before after 0 es = after"
  shows "length before + length after \<le> script_cost es + 2 * lcs before after"
proof -
  obtain zs where "subseq zs before" "subseq zs after"
    "script_cost es + 2 * length zs = length before + length after"
    using patch_kept [OF assms(1)] assms(2) by auto
  with lcs_upper [of zs before after] show ?thesis by linarith
qed

lemma basic_diff_total:
  assumes "4 * ((length before + 1) * (length after + 1)) < 2 ^ 63"
  shows "basic_diff scratch before after \<noteq> None"
  using assms by (auto simp: basic_diff_def Let_def prepare_dp_def dp_mut_def resize_zero_def
      saturating_mul_def bind_eq_None_conv split: if_splits)

lemma basic_diff_script:
  assumes "basic_diff scratch before after = Some (script, scratch')"
  shows "script_ok (length before) (length after) 0 0 (edits script)"
    and "patch before after 0 (edits script) = after"
proof -
  obtain t where t: "edits script = coalesce (walk before after t 0 0)"
    using basic_diff_Some [OF assms] by blast
  note ok = coalesce_ok [OF walk_ok [OF le0 le0, of before after t], of before after]
  show "script_ok (length before) (length after) 0 0 (edits script)" using ok by (simp add: t)
  show "patch before after 0 (edits script) = after"
    using ok walk_patch [OF le0 le0, of before after t] by (simp add: t)
qed

lemma basic_diff_cost:
  assumes "basic_diff scratch before after = Some (script, scratch')"
    and "length before < 2 ^ 32" and "(length before + 1) * (length after + 1) < 2 ^ 64"
  shows "script_cost (edits script) + 2 * lcs before after = length before + length after"
proof -
  define t where "t = fill_rows before after (length after + 1) (length before)
      (replicate (saturating_mul (length before + 1) (length after + 1)) 0)"
  have sat: "saturating_mul (length before + 1) (length after + 1) = (length before + 1) * (length after + 1)"
    unfolding saturating_mul_def usize_max_def by (rule min_absorb2) (use assms(3) in linarith)
  have "table_ok before after 0 0 t"
    unfolding t_def sat by (rule fill_rows_ok [OF table_ok_zero]) (use assms(2) in simp_all)
  from walk_cost [OF this assms(2), of 0 0]
    coalesce_ok [OF walk_ok [OF le0 le0, of before after t], of before after] basic_diff_Some [OF assms(1)]
  show ?thesis unfolding t_def [symmetric] by simp
qed

text \<open>
  Whenever the table fits in memory the differ returns a script, whatever its scratch
  buffer held before: its ranges are in bounds and in order, and applying it to the old
  sequence gives the new one.
\<close>

theorem diff_transforms:
  assumes "4 * ((length before + 1) * (length after + 1)) < 2 ^ 63"
  shows "\<exists>script scratch'. basic_diff scratch before after = Some (script, scratch') \<and>
     script_ok (length before) (length after) 0 0 (edits script) \<and>
     patch before after 0 (edits script) = after"
  using basic_diff_total [OF assms, of scratch] basic_diff_script [of scratch before after]
  by (cases "basic_diff scratch before after") auto

definition sample_scratch :: scratch_buffer where
  "sample_scratch = \<lparr>dp = replicate 20 7, path_backing = []\<rparr>"

theorem diff_transforms_witness:
  "\<exists>script scratch'. basic_diff sample_scratch ''abcd'' ''axd'' = Some (script, scratch') \<and>
     script_ok (length ''abcd'') (length ''axd'') 0 0 (edits script) \<and>
     patch ''abcd'' ''axd'' 0 (edits script) = ''axd''"
  by (rule diff_transforms) simp


definition sample_script :: edit_script where
  "sample_script = \<lparr>edits = [EReplace (0, 1) (0, 1)]\<rparr>"

lemma sample_table: "fill_rows ''ab'' ''xb'' 3 2 (replicate 9 0) = [1, 1, 0, 1, 1, 0, 0, 0, 0]"
  by code_simp

lemma sample_walk: "coalesce (walk ''ab'' ''xb'' [1, 1, 0, 1, 1, 0, 0, 0, 0] 0 0) = [EReplace (0, 1) (0, 1)]"
  by code_simp

lemma sample_size: "saturating_mul 3 3 = 9"
  by (simp add: saturating_mul_def usize_max_def)

lemma sample_prepare:
  "prepare_dp sample_scratch 3 3 = Some \<lparr>dp = replicate 9 0 @ replicate 11 7, path_backing = []\<rparr>"
  by (simp add: prepare_dp_def sample_scratch_def sample_size)

lemma sample_dp_mut:
  "dp_mut \<lparr>dp = replicate 9 0 @ replicate 11 7, path_backing = []\<rparr> 3 3
     = Some (replicate 9 0, \<lparr>dp = replicate 9 0 @ replicate 11 7, path_backing = []\<rparr>)"
  by (simp add: dp_mut_def prepare_dp_def sample_size)

lemma sample_diff: "\<exists>s'. basic_diff sample_scratch ''ab'' ''xb'' = Some (sample_script, s')"
proof -
  have n: "length ''ab'' = 2" "length ''xb'' = 2" "(2::nat) + 1 = 3" by simp_all
  show ?thesis
    unfolding basic_diff_def Let_def n sample_prepare bind.bind_lunit sample_dp_mut prod.case
      sample_table coalesce_replace_def edit_script.select_convs sample_walk sample_script_def
    by blast
qed


end
