(* ===== verification/Caches.thy ===== *)
theory Caches
  imports Ids
begin

text \<open>
  The in-memory caches in front of the object store (\<^verbatim>\<open>arc-store-cas/src/cas.rs\<close>): the
  admission policies, the no-op cache and the weighted LRU.  The trait \<^verbatim>\<open>CasCache\<close> is the
  locale \<open>cas_cache\<close>; its operations return \<^const>\<open>None\<close> when the code panics.  The weighted
  LRU is shown to be an LRU list whose eviction follows a byte budget.
\<close>

section \<open>Policies and the cache interface\<close>

datatype cache_policy = NeverCache | SizeWindow (sw_min: nat) (sw_max: nat)

fun should_cache :: "cache_policy \<Rightarrow> nat \<Rightarrow> bool" where
  "should_cache NeverCache size_bytes = False"
| "should_cache (SizeWindow lo hi) size_bytes = (lo \<le> size_bytes \<and> size_bytes \<le> hi)"

definition size_window_default :: cache_policy where
  "size_window_default = SizeWindow 1 (2 * 1024 * 1024)"

text \<open>
  A cache holds a partial map, its view.  A lookup answers from the view and keeps it (it may
  reorder); an insertion may drop entries but invents none.  No operation panics.
\<close>

locale cas_cache =
  fixes inv :: "'c \<Rightarrow> bool"
    and view :: "'c \<Rightarrow> blake3_hash \<Rightarrow> bytes option"
    and get :: "'c \<Rightarrow> blake3_hash \<Rightarrow> (bytes option \<times> 'c) option"
    and put :: "'c \<Rightarrow> blake3_hash \<Rightarrow> bytes \<Rightarrow> 'c option"
  assumes get_law: "inv c \<Longrightarrow> \<exists>c'. get c k = Some (view c k, c') \<and> inv c' \<and> view c' = view c"
    and put_law: "inv c \<Longrightarrow> \<exists>c'. put c k b = Some c' \<and> inv c' \<and>
      (\<forall>k' b'. view c' k' = Some b' \<longrightarrow> (k', b') = (k, b) \<or> view c k' = Some b')"
begin

lemma get_cases:
  assumes "inv c"
  obtains c' where "get c k = Some (view c k, c')" "inv c'" "view c' = view c"
  using get_law [OF assms] by blast

lemma put_cases:
  assumes "inv c"
  obtains c' where "put c k b = Some c'" "inv c'"
    "\<And>k' b'. view c' k' = Some b' \<Longrightarrow> (k', b') = (k, b) \<or> view c k' = Some b'"
  using put_law [OF assms] by blast

end

section \<open>No cache\<close>

definition no_cache_get :: "unit \<Rightarrow> blake3_hash \<Rightarrow> (bytes option \<times> unit) option" where
  "no_cache_get c key = Some (None, c)"

definition no_cache_put :: "unit \<Rightarrow> blake3_hash \<Rightarrow> bytes \<Rightarrow> unit option" where
  "no_cache_put c key bs = Some c"

interpretation no_cache: cas_cache "\<lambda>_. True" "\<lambda>_. Map.empty" no_cache_get no_cache_put
  by unfold_locales (simp_all add: no_cache_get_def no_cache_put_def)

section \<open>Reference LRU list\<close>

text \<open>
  The specification of the two LRU caches: an association list with distinct keys, least
  recently used entry first.
\<close>

type_synonym lru_list = "(blake3_hash \<times> bytes) list"

definition lru_drop :: "blake3_hash \<Rightarrow> lru_list \<Rightarrow> lru_list" where
  "lru_drop k es = filter (\<lambda>e. fst e \<noteq> k) es"

definition lru_touch :: "blake3_hash \<Rightarrow> lru_list \<Rightarrow> lru_list" where
  "lru_touch k es = (case map_of es k of None \<Rightarrow> es | Some b \<Rightarrow> lru_drop k es @ [(k, b)])"

text \<open>The total size of the cached payloads, and eviction of the oldest down to a budget.\<close>

definition lru_size :: "lru_list \<Rightarrow> nat" where
  "lru_size es = sum_list (List.map (\<lambda>e. length (snd e)) es)"

fun lru_shrink :: "nat \<Rightarrow> lru_list \<Rightarrow> lru_list" where
  "lru_shrink budget [] = []"
| "lru_shrink budget (e # es) =
     (if lru_size (e # es) \<le> budget then e # es else lru_shrink budget es)"

definition lru_put_weighted :: "nat \<Rightarrow> blake3_hash \<Rightarrow> bytes \<Rightarrow> lru_list \<Rightarrow> lru_list" where
  "lru_put_weighted cap k b es =
     (if length b > cap then es else lru_shrink (cap - length b) (lru_drop k es) @ [(k, b)])"

definition lru_put_bounded :: "nat \<Rightarrow> blake3_hash \<Rightarrow> bytes \<Rightarrow> lru_list \<Rightarrow> lru_list" where
  "lru_put_bounded n k b es =
     (if n = 0 then es
      else if map_of es k \<noteq> None then lru_drop k es @ [(k, b)]
      else (if length es < n then es else tl es) @ [(k, b)])"

lemma lru_size_simps [simp]:
  "lru_size [] = 0" "lru_size (e # es) = length (snd e) + lru_size es"
  "lru_size (es @ fs) = lru_size es + lru_size fs"
  by (simp_all add: lru_size_def)

lemma lru_shrink_suffix: "\<exists>gone. es = gone @ lru_shrink budget es"
proof (induction es)
  case (Cons e es)
  then obtain gone where "es = gone @ lru_shrink budget es" by blast
  then show ?case by (auto intro: exI [of _ "[]"] exI [of _ "e # gone"])
qed simp

lemma lru_shrink_size [simp]: "lru_size (lru_shrink budget es) \<le> budget"
  by (induction es) auto

lemma map_of_lru_drop [simp]: "map_of (lru_drop k es) k' = (if k' = k then None else map_of es k')"
  by (induction es) (auto simp: lru_drop_def)

lemma set_lru_drop: "e \<in> set (lru_drop k es) \<longleftrightarrow> e \<in> set es \<and> fst e \<noteq> k"
  by (simp add: lru_drop_def)

lemma distinct_lru_drop: "distinct (List.map fst es) \<Longrightarrow> distinct (List.map fst (lru_drop k es))"
  by (simp add: lru_drop_def distinct_map_filter)

lemma lru_drop_append [simp]: "lru_drop k (es @ fs) = lru_drop k es @ lru_drop k fs"
  by (simp add: lru_drop_def)

lemma lru_drop_Cons [simp]:
  "lru_drop k (e # es) = (if fst e = k then lru_drop k es else e # lru_drop k es)"
  "lru_drop k [] = []"
  by (simp_all add: lru_drop_def)

lemma lru_drop_id: "k \<notin> fst ` set es \<Longrightarrow> lru_drop k es = es"
  by (induction es) auto

section \<open>Weighted LRU\<close>

record weighted_entry =
  we_bytes :: bytes
  we_weight :: nat

record weighted_lru_cache =
  wl_capacity_bytes :: nat
  wl_used_bytes :: nat
  wl_entries :: "(blake3_hash, weighted_entry) fmap"
  wl_lru :: "blake3_hash list"
  wl_free_buffers :: "bytes list"

definition weighted_new :: "nat \<Rightarrow> weighted_lru_cache" where
  "weighted_new capacity_bytes =
     \<lparr>wl_capacity_bytes = capacity_bytes, wl_used_bytes = 0, wl_entries = fmempty, wl_lru = [],
      wl_free_buffers = []\<rparr>"

definition weighted_touch :: "blake3_hash \<Rightarrow> weighted_lru_cache \<Rightarrow> weighted_lru_cache" where
  "weighted_touch key c = c\<lparr>wl_lru := filter (\<lambda>k. k \<noteq> key) (wl_lru c) @ [key]\<rparr>"

text \<open>Taking an entry out: the budget is given back and its buffer, cleared, is recycled.\<close>

definition recycle_entry :: "weighted_entry \<Rightarrow> weighted_lru_cache \<Rightarrow> weighted_lru_cache" where
  "recycle_entry entry c =
     c\<lparr>wl_used_bytes := wl_used_bytes c - we_weight entry,
       wl_free_buffers := wl_free_buffers c @ [[]]\<rparr>"

definition evict_one :: "blake3_hash \<Rightarrow> weighted_lru_cache \<Rightarrow> weighted_lru_cache" where
  "evict_one key c =
     (case fmlookup (wl_entries c) key of
        None \<Rightarrow> c
      | Some entry \<Rightarrow> recycle_entry entry (c\<lparr>wl_entries := fmdrop key (wl_entries c)\<rparr>))"

lemma evict_one_lru [simp]:
  "wl_lru (evict_one key c) = wl_lru c" "wl_capacity_bytes (evict_one key c) = wl_capacity_bytes c"
  by (simp_all add: evict_one_def recycle_entry_def split: option.split)

function evict_until :: "nat \<Rightarrow> weighted_lru_cache \<Rightarrow> weighted_lru_cache" where
  "evict_until incoming c =
     (if saturating_add (wl_used_bytes c) incoming > wl_capacity_bytes c
      then (case wl_lru c of
              [] \<Rightarrow> c
            | key # ks \<Rightarrow> evict_until incoming (evict_one key (c\<lparr>wl_lru := ks\<rparr>)))
      else c)"
  by pat_completeness auto
termination by (relation "measure (\<lambda>(_, c). length (wl_lru c))") simp_all

declare evict_until.simps [simp del]

definition weighted_used_bytes :: "weighted_lru_cache \<Rightarrow> nat" where
  "weighted_used_bytes c = wl_used_bytes c"

definition weighted_free_buffer_count :: "weighted_lru_cache \<Rightarrow> nat" where
  "weighted_free_buffer_count c = length (wl_free_buffers c)"

definition weighted_get ::
  "weighted_lru_cache \<Rightarrow> blake3_hash \<Rightarrow> (bytes option \<times> weighted_lru_cache) option" where
  "weighted_get c key =
     (case fmlookup (wl_entries c) key of
        None \<Rightarrow> Some (None, c)
      | Some entry \<Rightarrow> Some (Some (we_bytes entry), weighted_touch key c))"

text \<open>The buffer of an insertion is a recycled one when there is one; its old content is cleared.\<close>

definition take_buffer :: "bytes \<Rightarrow> weighted_lru_cache \<Rightarrow> bytes \<times> weighted_lru_cache" where
  "take_buffer bs c =
     (case rev (wl_free_buffers c) of
        [] \<Rightarrow> (bs, c)
      | buf # rest \<Rightarrow> (take 0 buf @ bs, c\<lparr>wl_free_buffers := rev rest\<rparr>))"

definition insert_stored :: "blake3_hash \<Rightarrow> bytes \<Rightarrow> weighted_lru_cache \<Rightarrow> weighted_lru_cache" where
  "insert_stored key bs c0 =
     (let (stored, c) = take_buffer bs c0
      in c\<lparr>wl_used_bytes := saturating_add (wl_used_bytes c) (length stored),
           wl_entries := fmupd key \<lparr>we_bytes = stored, we_weight = length bs\<rparr> (wl_entries c),
           wl_lru := wl_lru c @ [key]\<rparr>)"

definition remove_previous :: "blake3_hash \<Rightarrow> weighted_lru_cache \<Rightarrow> weighted_lru_cache" where
  "remove_previous key c =
     (case fmlookup (wl_entries c) key of
        None \<Rightarrow> c
      | Some prev \<Rightarrow>
          recycle_entry prev
            (c\<lparr>wl_entries := fmdrop key (wl_entries c), wl_lru := filter (\<lambda>k. k \<noteq> key) (wl_lru c)\<rparr>))"

definition weighted_put ::
  "weighted_lru_cache \<Rightarrow> blake3_hash \<Rightarrow> bytes \<Rightarrow> weighted_lru_cache option" where
  "weighted_put c key bs =
     Some (if length bs > wl_capacity_bytes c then c
           else insert_stored key bs (evict_until (length bs) (remove_previous key c)))"

subsection \<open>The list a weighted cache stands for\<close>

text \<open>
  \<open>wl_rel c es\<close>: the recency queue and the entry map are the list \<open>es\<close>.  \<open>wl_exact\<close> adds the
  accounting, which is exact when the capacity is below the saturation point of \<^verbatim>\<open>usize\<close>.
\<close>

definition entry_of :: "bytes \<Rightarrow> weighted_entry" where
  "entry_of b = \<lparr>we_bytes = b, we_weight = length b\<rparr>"

definition wl_rel :: "weighted_lru_cache \<Rightarrow> lru_list \<Rightarrow> bool" where
  "wl_rel c es \<longleftrightarrow>
     wl_lru c = List.map fst es \<and> distinct (List.map fst es) \<and>
     (\<forall>k. fmlookup (wl_entries c) k = map_option entry_of (map_of es k))"

definition wl_exact :: "weighted_lru_cache \<Rightarrow> lru_list \<Rightarrow> bool" where
  "wl_exact c es \<longleftrightarrow>
     wl_rel c es \<and> wl_used_bytes c = lru_size es \<and> lru_size es \<le> wl_capacity_bytes c \<and>
     wl_capacity_bytes c < usize_max"

lemma wl_relD:
  assumes "wl_rel c es"
  shows "wl_lru c = List.map fst es" "distinct (List.map fst es)"
    "fmlookup (wl_entries c) k = map_option entry_of (map_of es k)"
  using assms by (simp_all add: wl_rel_def)

lemma entry_of_sel [simp]: "we_bytes (entry_of b) = b" "we_weight (entry_of b) = length b"
  by (simp_all add: entry_of_def)

lemma map_fst_lru_drop: "List.map fst (lru_drop k es) = filter (\<lambda>k'. k' \<noteq> k) (List.map fst es)"
  by (induction es) auto

lemma wl_rel_weighted_new [simp]: "wl_rel (weighted_new cap) []"
  by (simp add: wl_rel_def weighted_new_def)

lemma lru_size_drop:
  "distinct (List.map fst es) \<Longrightarrow> map_of es k = Some b \<Longrightarrow>
   lru_size (lru_drop k es) = lru_size es - length b \<and> length b \<le> lru_size es"
proof (induction es)
  case (Cons e es)
  show ?case
  proof (cases "fst e = k")
    case True
    with Cons.prems have "k \<notin> fst ` set es" by auto
    with True Cons.prems show ?thesis by (auto simp: lru_drop_id)
  next
    case False
    with Cons show ?thesis by auto
  qed
qed simp

lemma lru_size_drop_None: "map_of es k = None \<Longrightarrow> lru_drop k es = es"
  by (rule lru_drop_id) (simp add: map_of_eq_None_iff)

lemma evict_one_rel:
  assumes "wl_rel c ((k, b) # es)"
  defines "d \<equiv> evict_one k (c\<lparr>wl_lru := List.map fst es\<rparr>)"
  shows "wl_rel d es" "wl_used_bytes d = wl_used_bytes c - length b"
proof -
  note r = wl_relD [OF assms(1)]
  have e: "fmlookup (wl_entries c) k = Some (entry_of b)" using r(3) [of k] by simp
  have "k \<notin> fst ` set es" using r(2) by simp
  then have "map_of es k = None" by (simp add: map_of_eq_None_iff)
  then show "wl_rel d es" using r(2) r(3)
    by (auto simp: d_def wl_rel_def evict_one_def e recycle_entry_def)
  show "wl_used_bytes d = wl_used_bytes c - length b"
    by (simp add: d_def evict_one_def e recycle_entry_def)
qed

lemma evict_until_rel:
  "wl_rel c es \<Longrightarrow> \<exists>gone rest. es = gone @ rest \<and> wl_rel (evict_until n c) rest \<and>
     wl_capacity_bytes (evict_until n c) = wl_capacity_bytes c"
proof (induction es arbitrary: c)
  case Nil
  then have "wl_lru c = []" by (simp add: wl_relD)
  then have "evict_until n c = c" by (subst evict_until.simps) simp
  with Nil show ?case by simp
next
  case (Cons e es)
  define d where "d = evict_one (fst e) (c\<lparr>wl_lru := List.map fst es\<rparr>)"
  have l: "wl_lru c = fst e # List.map fst es" using Cons.prems by (simp add: wl_relD)
  have "wl_rel c ((fst e, snd e) # es)" using Cons.prems by simp
  note step = evict_one_rel [OF this, folded d_def]
  show ?case
  proof (cases "saturating_add (wl_used_bytes c) n > wl_capacity_bytes c")
    case True
    then have "evict_until n c = evict_until n d"
      by (subst evict_until.simps) (simp add: l d_def)
    moreover obtain gone rest where
      "es = gone @ rest" "wl_rel (evict_until n d) rest"
      "wl_capacity_bytes (evict_until n d) = wl_capacity_bytes d"
      using Cons.IH [OF step(1)] by blast
    moreover have "wl_capacity_bytes d = wl_capacity_bytes c" by (simp add: d_def)
    ultimately show ?thesis by (intro exI [of _ "e # gone"] exI [of _ rest]) simp
  next
    case False
    then have "evict_until n c = c" by (subst evict_until.simps) simp
    with Cons.prems show ?thesis by (intro exI [of _ "[]"] exI [of _ "e # es"]) simp
  qed
qed

lemma saturating_add_exceeds:
  "cap < usize_max \<Longrightarrow> saturating_add a n > cap \<longleftrightarrow> a + n > cap"
  by (auto simp: saturating_add_def)

lemma evict_until_exact:
  assumes "wl_rel c es" "wl_used_bytes c = lru_size es" "n \<le> wl_capacity_bytes c"
    "wl_capacity_bytes c < usize_max"
  shows "wl_rel (evict_until n c) (lru_shrink (wl_capacity_bytes c - n) es) \<and>
    wl_used_bytes (evict_until n c) = lru_size (lru_shrink (wl_capacity_bytes c - n) es) \<and>
    wl_capacity_bytes (evict_until n c) = wl_capacity_bytes c"
  using assms
proof (induction es arbitrary: c)
  case Nil
  then have "wl_lru c = []" by (simp add: wl_relD)
  then have "evict_until n c = c" by (subst evict_until.simps) simp
  with Nil show ?case by simp
next
  case (Cons e es)
  define d where "d = evict_one (fst e) (c\<lparr>wl_lru := List.map fst es\<rparr>)"
  have l: "wl_lru c = fst e # List.map fst es" using Cons.prems(1) by (simp add: wl_relD)
  have "wl_rel c ((fst e, snd e) # es)" using Cons.prems(1) by simp
  note step = evict_one_rel [OF this, folded d_def]
  have cap: "wl_capacity_bytes d = wl_capacity_bytes c" by (simp add: d_def)
  have over: "saturating_add (wl_used_bytes c) n > wl_capacity_bytes c \<longleftrightarrow>
      \<not> lru_size (e # es) \<le> wl_capacity_bytes c - n"
    unfolding saturating_add_exceeds [OF Cons.prems(4)] using Cons.prems(2,3) by auto
  show ?case
  proof (cases "lru_size (e # es) \<le> wl_capacity_bytes c - n")
    case True
    with over have "evict_until n c = c" by (subst evict_until.simps) simp
    with True Cons.prems show ?thesis by simp
  next
    case False
    with over have "evict_until n c = evict_until n d"
      by (subst evict_until.simps) (simp add: l d_def)
    moreover have "wl_used_bytes d = lru_size es" using step(2) Cons.prems(2) by simp
    ultimately show ?thesis using Cons.IH [OF step(1)] Cons.prems(3,4) False cap by simp
  qed
qed

lemma remove_previous_rel:
  assumes "wl_rel c es"
  shows "wl_rel (remove_previous k c) (lru_drop k es)"
    "wl_capacity_bytes (remove_previous k c) = wl_capacity_bytes c"
    "wl_used_bytes c = lru_size es \<Longrightarrow>
     wl_used_bytes (remove_previous k c) = lru_size (lru_drop k es)"
proof -
  note r = wl_relD [OF assms]
  have "wl_rel (remove_previous k c) (lru_drop k es) \<and>
    wl_capacity_bytes (remove_previous k c) = wl_capacity_bytes c \<and>
    (wl_used_bytes c = lru_size es \<longrightarrow>
     wl_used_bytes (remove_previous k c) = lru_size (lru_drop k es))"
  proof (cases "map_of es k")
    case None
    with assms r(3) [of k] show ?thesis by (simp add: remove_previous_def lru_size_drop_None)
  next
    case (Some b)
    then have "fmlookup (wl_entries c) k = Some (entry_of b)" using r(3) by simp
    then show ?thesis using lru_size_drop [OF r(2) Some] r distinct_lru_drop [OF r(2), of k]
      by (auto simp: wl_rel_def remove_previous_def recycle_entry_def map_fst_lru_drop)
  qed
  then show "wl_rel (remove_previous k c) (lru_drop k es)"
    "wl_capacity_bytes (remove_previous k c) = wl_capacity_bytes c"
    "wl_used_bytes c = lru_size es \<Longrightarrow>
     wl_used_bytes (remove_previous k c) = lru_size (lru_drop k es)" by auto
qed

lemma take_buffer_fields:
  "take_buffer bs c = (stored, c') \<Longrightarrow> stored = bs \<and> wl_lru c' = wl_lru c \<and>
     wl_entries c' = wl_entries c \<and> wl_used_bytes c' = wl_used_bytes c \<and>
     wl_capacity_bytes c' = wl_capacity_bytes c"
  by (auto simp: take_buffer_def split: list.splits)

lemma insert_stored_fields:
  "wl_lru (insert_stored k b c) = wl_lru c @ [k]"
  "wl_entries (insert_stored k b c) = fmupd k (entry_of b) (wl_entries c)"
  "wl_used_bytes (insert_stored k b c) = saturating_add (wl_used_bytes c) (length b)"
  "wl_capacity_bytes (insert_stored k b c) = wl_capacity_bytes c"
  by (auto simp: insert_stored_def entry_of_def dest: take_buffer_fields split: prod.split)

lemma insert_stored_rel:
  "wl_rel c es \<Longrightarrow> k \<notin> fst ` set es \<Longrightarrow> wl_rel (insert_stored k b c) (es @ [(k, b)])"
  by (force simp: wl_rel_def insert_stored_fields map_add_def split: option.split)

lemma weighted_get_rel:
  assumes "wl_rel c es"
  shows "\<exists>c'. weighted_get c k = Some (map_of es k, c') \<and> wl_rel c' (lru_touch k es) \<and>
    wl_used_bytes c' = wl_used_bytes c \<and> wl_capacity_bytes c' = wl_capacity_bytes c"
proof -
  note r = wl_relD [OF assms]
  show ?thesis
  proof (cases "map_of es k")
    case None
    with assms r(3) [of k] show ?thesis by (simp add: weighted_get_def lru_touch_def)
  next
    case (Some b)
    have "k \<notin> fst ` set (lru_drop k es)" by (auto simp: set_lru_drop)
    moreover have "map_of (lru_drop k es @ [(k, b)]) = map_of es"
      using Some by (auto simp: map_add_def split: option.split)
    ultimately show ?thesis
      using Some r distinct_lru_drop [OF r(2), of k]
      by (auto simp: weighted_get_def lru_touch_def weighted_touch_def wl_rel_def map_fst_lru_drop)
  qed
qed

lemma weighted_put_rel:
  assumes "wl_rel c es"
  shows "\<exists>c' es'. weighted_put c k b = Some c' \<and> wl_rel c' es' \<and>
    wl_capacity_bytes c' = wl_capacity_bytes c \<and> set es' \<subseteq> insert (k, b) (set es)"
proof (cases "length b > wl_capacity_bytes c")
  case True
  with assms show ?thesis by (auto simp: weighted_put_def intro: exI [of _ es])
next
  case False
  note p = remove_previous_rel [OF assms, of k]
  obtain gone rest where e: "lru_drop k es = gone @ rest"
    "wl_rel (evict_until (length b) (remove_previous k c)) rest"
    "wl_capacity_bytes (evict_until (length b) (remove_previous k c)) = wl_capacity_bytes c"
    using evict_until_rel [OF p(1)] p(2) by metis
  then have sub: "set rest \<subseteq> set (lru_drop k es)" by simp
  then have "k \<notin> fst ` set rest" by (auto simp: set_lru_drop)
  note i = insert_stored_rel [OF e(2) this]
  have "set (rest @ [(k, b)]) \<subseteq> insert (k, b) (set es)" using sub by (auto simp: lru_drop_def)
  with False i e(3) show ?thesis
    by (auto simp: weighted_put_def insert_stored_fields intro!: exI [of _ "rest @ [(k, b)]"])
qed

lemma weighted_put_exact:
  assumes "wl_exact c es"
  shows "\<exists>c'. weighted_put c k b = Some c' \<and>
    wl_exact c' (lru_put_weighted (wl_capacity_bytes c) k b es) \<and>
    wl_capacity_bytes c' = wl_capacity_bytes c"
proof (cases "length b > wl_capacity_bytes c")
  case True
  with assms show ?thesis by (auto simp: weighted_put_def lru_put_weighted_def)
next
  case False
  from assms have a: "wl_rel c es" "wl_used_bytes c = lru_size es" "wl_capacity_bytes c < usize_max"
    by (simp_all add: wl_exact_def)
  note p = remove_previous_rel [OF a(1), of k]
  define d where "d = evict_until (length b) (remove_previous k c)"
  define rest where "rest = lru_shrink (wl_capacity_bytes c - length b) (lru_drop k es)"
  have e: "wl_rel d rest" "wl_used_bytes d = lru_size rest" "wl_capacity_bytes d = wl_capacity_bytes c"
    using evict_until_exact [OF p(1) p(3) [OF a(2)], of "length b"] False a(3) p(2)
    by (simp_all add: d_def rest_def)
  obtain gone where "lru_drop k es = gone @ rest" using lru_shrink_suffix unfolding rest_def by blast
  then have "set rest \<subseteq> set (lru_drop k es)" by simp
  then have k: "k \<notin> fst ` set rest" by (auto simp: set_lru_drop)
  have "lru_size rest \<le> wl_capacity_bytes c - length b" by (simp add: rest_def)
  then have fits: "lru_size rest + length b \<le> wl_capacity_bytes c" using False by simp
  then have "saturating_add (lru_size rest) (length b) = lru_size rest + length b"
    using a(3) by (simp add: saturating_add_def)
  then have "wl_exact (insert_stored k b d) (rest @ [(k, b)])"
    using insert_stored_rel [OF e(1) k, of b] e a(3) fits
    by (simp add: wl_exact_def insert_stored_fields)
  with False e(3) show ?thesis
    by (simp add: weighted_put_def lru_put_weighted_def insert_stored_fields flip: d_def rest_def)
qed

lemma map_of_lru_touch [simp]: "map_of (lru_touch k es) = map_of es"
  by (auto simp: lru_touch_def map_add_def split: option.split)

definition weighted_view :: "weighted_lru_cache \<Rightarrow> blake3_hash \<Rightarrow> bytes option" where
  "weighted_view c k = map_option we_bytes (fmlookup (wl_entries c) k)"

lemma weighted_view_rel: "wl_rel c es \<Longrightarrow> weighted_view c = map_of es"
  by (rule ext) (simp add: weighted_view_def wl_relD(3) option.map_comp comp_def option.map_ident)

interpretation weighted_lru: cas_cache "\<lambda>c. \<exists>es. wl_rel c es" weighted_view weighted_get weighted_put
proof unfold_locales
  fix c k b
  assume "\<exists>es. wl_rel c es"
  then obtain es where es: "wl_rel c es" by blast
  then obtain c' where "weighted_get c k = Some (map_of es k, c')" "wl_rel c' (lru_touch k es)"
    using weighted_get_rel by blast
  with es show "\<exists>c'. weighted_get c k = Some (weighted_view c k, c') \<and> (\<exists>es. wl_rel c' es) \<and>
      weighted_view c' = weighted_view c"
    by (auto simp: weighted_view_rel)
  obtain c' es' where p: "weighted_put c k b = Some c'" "wl_rel c' es'" "set es' \<subseteq> insert (k, b) (set es)"
    using weighted_put_rel [OF es, of k b] by blast
  have "(k', b') = (k, b) \<or> weighted_view c k' = Some b'" if "weighted_view c' k' = Some b'" for k' b'
  proof -
    have "(k', b') \<in> set es'" using that p(2) by (simp add: weighted_view_rel map_of_SomeD)
    then have "(k', b') = (k, b) \<or> (k', b') \<in> set es" using p(3) by blast
    then show ?thesis using es wl_relD(2) [OF es] by (auto simp: weighted_view_rel)
  qed
  with p show "\<exists>c'. weighted_put c k b = Some c' \<and> (\<exists>es. wl_rel c' es) \<and>
      (\<forall>k' b'. weighted_view c' k' = Some b' \<longrightarrow> (k', b') = (k, b) \<or> weighted_view c k' = Some b')"
    by blast
qed

section \<open>Sequences of cache operations\<close>

datatype cache_op = CacheGet blake3_hash | CachePut blake3_hash bytes

text \<open>The answers of the lookups of a sequence; \<^const>\<open>None\<close> when an operation panics.\<close>

fun run_cache ::
  "('c \<Rightarrow> blake3_hash \<Rightarrow> (bytes option \<times> 'c) option) \<Rightarrow> ('c \<Rightarrow> blake3_hash \<Rightarrow> bytes \<Rightarrow> 'c option) \<Rightarrow>
   cache_op list \<Rightarrow> 'c \<Rightarrow> (bytes option list \<times> 'c) option" where
  "run_cache get put [] c = Some ([], c)"
| "run_cache get put (CacheGet k # ops) c =
     (case get c k of
        None \<Rightarrow> None
      | Some (answer, c') \<Rightarrow>
          map_option (\<lambda>(answers, c''). (answer # answers, c'')) (run_cache get put ops c'))"
| "run_cache get put (CachePut k b # ops) c =
     (case put c k b of None \<Rightarrow> None | Some c' \<Rightarrow> run_cache get put ops c')"

fun run_lru ::
  "(blake3_hash \<Rightarrow> bytes \<Rightarrow> lru_list \<Rightarrow> lru_list) \<Rightarrow> cache_op list \<Rightarrow> lru_list \<Rightarrow>
   bytes option list \<times> lru_list" where
  "run_lru put [] es = ([], es)"
| "run_lru put (CacheGet k # ops) es =
     (let (answers, es') = run_lru put ops (lru_touch k es) in (map_of es k # answers, es'))"
| "run_lru put (CachePut k b # ops) es = run_lru put ops (put k b es)"

lemma run_cache_simulation:
  assumes get: "\<And>c es k. R c es \<Longrightarrow> \<exists>c'. get c k = Some (map_of es k, c') \<and> R c' (lru_touch k es)"
    and put: "\<And>c es k b. R c es \<Longrightarrow> \<exists>c'. put c k b = Some c' \<and> R c' (putf k b es)"
    and start: "R c es"
  shows "\<exists>c'. run_cache get put ops c = Some (fst (run_lru putf ops es), c') \<and>
    R c' (snd (run_lru putf ops es))"
  using start
proof (induction ops arbitrary: c es)
  case (Cons op ops)
  show ?case
  proof (cases op)
    case (CacheGet k)
    obtain c' where "get c k = Some (map_of es k, c')" "R c' (lru_touch k es)"
      using get [OF Cons.prems] by blast
    then show ?thesis using Cons.IH [of c' "lru_touch k es"] CacheGet by (auto split: prod.split)
  next
    case (CachePut k b)
    obtain c' where "put c k b = Some c'" "R c' (putf k b es)" using put [OF Cons.prems] by blast
    then show ?thesis using Cons.IH [of c' "putf k b es"] CachePut by auto
  qed
qed simp

text \<open>
  From an empty weighted cache, any sequence of lookups and insertions answers as the
  reference LRU list with the same byte budget, without a panic; the recency queue and the
  entry map describe that list, and \<^verbatim>\<open>used_bytes\<close> is its exact size, within the capacity.
\<close>

theorem weighted_lru_refines:
  assumes "cap < usize_max"
  shows "\<exists>c. run_cache weighted_get weighted_put ops (weighted_new cap) =
      Some (fst (run_lru (lru_put_weighted cap) ops []), c) \<and>
    wl_lru c = List.map fst (snd (run_lru (lru_put_weighted cap) ops [])) \<and>
    weighted_view c = map_of (snd (run_lru (lru_put_weighted cap) ops [])) \<and>
    weighted_used_bytes c = lru_size (snd (run_lru (lru_put_weighted cap) ops [])) \<and>
    weighted_used_bytes c \<le> cap"
proof -
  define R where "R c es \<longleftrightarrow> wl_exact c es \<and> wl_capacity_bytes c = cap" for c es
  have "\<exists>c'. weighted_get c k = Some (map_of es k, c') \<and> R c' (lru_touch k es)"
    if "R c es" for c es k
  proof -
    from that have w: "wl_rel c es" "wl_exact c es" "wl_capacity_bytes c = cap"
      by (simp_all add: R_def wl_exact_def)
    have "lru_size (lru_touch k es) = lru_size es"
      using lru_size_drop [OF wl_relD(2) [OF w(1)], of k] by (auto simp: lru_touch_def split: option.split)
    with weighted_get_rel [OF w(1), of k] w(2,3) show ?thesis by (auto simp: R_def wl_exact_def)
  qed
  moreover have "\<exists>c'. weighted_put c k b = Some c' \<and> R c' (lru_put_weighted cap k b es)"
    if "R c es" for c es k b
    using that weighted_put_exact [of c es k b] by (auto simp: R_def)
  moreover have "R (weighted_new cap) []"
    using assms by (simp add: R_def wl_exact_def) (simp add: weighted_new_def)
  ultimately obtain c where
    "run_cache weighted_get weighted_put ops (weighted_new cap) =
       Some (fst (run_lru (lru_put_weighted cap) ops []), c)"
    "R c (snd (run_lru (lru_put_weighted cap) ops []))"
    using run_cache_simulation [of R weighted_get weighted_put "lru_put_weighted cap"] by blast
  then show ?thesis
    by (auto simp: R_def wl_exact_def wl_relD weighted_view_rel weighted_used_bytes_def)
qed

theorem weighted_lru_refines_witness:
  "\<exists>c. run_cache weighted_get weighted_put
        [CachePut [1] [7, 7], CachePut [2] [8], CacheGet [1], CachePut [3] [9, 9], CacheGet [2], CacheGet [1]]
        (weighted_new 4) = Some ([Some [7, 7], None, Some [7, 7]], c) \<and>
     wl_lru c = [[3], [1]] \<and> weighted_used_bytes c = 4"
proof -
  let ?ops = "[CachePut [1] [7, 7], CachePut [2] [8], CacheGet [1], CachePut [3] [9, 9], CacheGet [2],
    CacheGet [1]]"
  have r: "run_lru (lru_put_weighted 4) ?ops [] =
      ([Some [7, 7], None, Some [7, 7]], [([3], [9, 9]), ([1], [7, 7])])"
    by (simp add: lru_put_weighted_def lru_touch_def)
  have "(4::nat) < usize_max" by (simp add: usize_max_def)
  from weighted_lru_refines [OF this, of ?ops] show ?thesis unfolding r by auto
qed

end
