(* ===== verification/TinyCache.thy ===== *)
theory TinyCache
  imports Caches "HOL-Library.Monad_Syntax"
begin

text \<open>
  The fixed-size LRU of \<^verbatim>\<open>arc-store-cas/src/cas.rs\<close> (\<^verbatim>\<open>TinyLinkedLruCache\<close>): a doubly linked
  list threaded through an array of slots, with an index and a free list.  A slot access out of
  bounds, or a full cache without a head, is a panic and yields \<^const>\<open>None\<close>; the invariant
  shows that neither happens, and that the cache is an LRU list of at most \<open>N\<close> entries.
\<close>

record tiny_entry =
  te_key :: blake3_hash
  te_bytes :: bytes
  te_prev :: "nat option"
  te_next :: "nat option"

type_synonym tiny_slots = "tiny_entry option list"

record tiny_cache =
  tc_slots :: tiny_slots
  tc_index :: "(blake3_hash, nat) fmap"
  tc_head :: "nat option"
  tc_tail :: "nat option"
  tc_free :: "nat list"

definition tiny_default :: "nat \<Rightarrow> tiny_cache" where
  "tiny_default n =
     \<lparr>tc_slots = replicate n None, tc_index = fmempty, tc_head = None, tc_tail = None,
      tc_free = rev [0..<n]\<rparr>"

section \<open>Slots\<close>

text \<open>\<^verbatim>\<open>if let Some(entry) = self.slots[i].as_mut()\<close>, and the same behind an optional index.\<close>

definition slot_ref :: "tiny_slots \<Rightarrow> nat \<Rightarrow> tiny_entry option option" where
  "slot_ref sl i = (if i < length sl then Some (sl ! i) else None)"

definition slot_mut :: "nat \<Rightarrow> (tiny_entry \<Rightarrow> tiny_entry) \<Rightarrow> tiny_slots \<Rightarrow> tiny_slots option" where
  "slot_mut i f sl = (if i < length sl then Some (sl[i := map_option f (sl ! i)]) else None)"

definition slot_mut_opt ::
  "nat option \<Rightarrow> (tiny_entry \<Rightarrow> tiny_entry) \<Rightarrow> tiny_slots \<Rightarrow> tiny_slots option" where
  "slot_mut_opt p f sl = (case p of None \<Rightarrow> Some sl | Some i \<Rightarrow> slot_mut i f sl)"

section \<open>Operations\<close>

definition tiny_detach :: "nat \<Rightarrow> tiny_cache \<Rightarrow> tiny_cache option" where
  "tiny_detach idx c = do {
     slot \<leftarrow> slot_ref (tc_slots c) idx;
     case slot of
       None \<Rightarrow> Some c
     | Some entry \<Rightarrow> do {
         let prev = te_prev entry;
         let next = te_next entry;
         sl1 \<leftarrow> slot_mut_opt prev (\<lambda>e. e\<lparr>te_next := next\<rparr>) (tc_slots c);
         sl2 \<leftarrow> slot_mut_opt next (\<lambda>e. e\<lparr>te_prev := prev\<rparr>) sl1;
         sl3 \<leftarrow> slot_mut idx (\<lambda>e. e\<lparr>te_prev := None, te_next := None\<rparr>) sl2;
         Some (c\<lparr>tc_slots := sl3,
                 tc_head := if tc_head c = Some idx then next else tc_head c,
                 tc_tail := if tc_tail c = Some idx then prev else tc_tail c\<rparr>)
       }
   }"

definition tiny_push_back :: "nat \<Rightarrow> tiny_cache \<Rightarrow> tiny_cache option" where
  "tiny_push_back idx c =
     (case tc_tail c of
        Some tail_idx \<Rightarrow> do {
          sl1 \<leftarrow> slot_mut tail_idx (\<lambda>e. e\<lparr>te_next := Some idx\<rparr>) (tc_slots c);
          sl2 \<leftarrow> slot_mut idx (\<lambda>e. e\<lparr>te_prev := Some tail_idx, te_next := None\<rparr>) sl1;
          Some (c\<lparr>tc_slots := sl2, tc_tail := Some idx\<rparr>)
        }
      | None \<Rightarrow> do {
          sl1 \<leftarrow> slot_mut idx (\<lambda>e. e\<lparr>te_prev := None, te_next := None\<rparr>) (tc_slots c);
          Some (c\<lparr>tc_slots := sl1, tc_head := Some idx, tc_tail := Some idx\<rparr>)
        })"

definition tiny_move_to_back :: "nat \<Rightarrow> tiny_cache \<Rightarrow> tiny_cache option" where
  "tiny_move_to_back idx c =
     (if tc_tail c = Some idx then Some c
      else do { c1 \<leftarrow> tiny_detach idx c; tiny_push_back idx c1 })"

text \<open>\<^verbatim>\<open>free.pop()\<close> takes the last element; without one the oldest entry makes room.\<close>

definition tiny_allocate_slot :: "tiny_cache \<Rightarrow> (nat \<times> tiny_cache) option" where
  "tiny_allocate_slot c =
     (case rev (tc_free c) of
        idx # rest \<Rightarrow> Some (idx, c\<lparr>tc_free := rev rest\<rparr>)
      | [] \<Rightarrow> do {
          idx \<leftarrow> tc_head c;
          c1 \<leftarrow> tiny_detach idx c;
          slot \<leftarrow> slot_ref (tc_slots c1) idx;
          let c2 = c1\<lparr>tc_slots := (tc_slots c1)[idx := None]\<rparr>;
          Some (idx, (case slot of
                        None \<Rightarrow> c2
                      | Some old \<Rightarrow> c2\<lparr>tc_index := fmdrop (te_key old) (tc_index c2)\<rparr>))
        })"

definition tiny_get ::
  "tiny_cache \<Rightarrow> blake3_hash \<Rightarrow> (bytes option \<times> tiny_cache) option" where
  "tiny_get c key =
     (case fmlookup (tc_index c) key of
        None \<Rightarrow> Some (None, c)
      | Some idx \<Rightarrow> do {
          slot \<leftarrow> slot_ref (tc_slots c) idx;
          case slot of
            None \<Rightarrow> Some (None, c)
          | Some entry \<Rightarrow> do {
              c1 \<leftarrow> tiny_move_to_back idx c;
              Some (Some (te_bytes entry), c1)
            }
        })"

definition tiny_put :: "tiny_cache \<Rightarrow> blake3_hash \<Rightarrow> bytes \<Rightarrow> tiny_cache option" where
  "tiny_put c key bs =
     (if length (tc_slots c) = 0 then Some c
      else (case fmlookup (tc_index c) key of
          Some idx \<Rightarrow> do {
            sl \<leftarrow> slot_mut idx (\<lambda>e. e\<lparr>te_bytes := bs\<rparr>) (tc_slots c);
            tiny_move_to_back idx (c\<lparr>tc_slots := sl\<rparr>)
          }
        | None \<Rightarrow> do {
            (idx, c1) \<leftarrow> tiny_allocate_slot c;
            _ \<leftarrow> slot_ref (tc_slots c1) idx;
            tiny_push_back idx
              (c1\<lparr>tc_slots := (tc_slots c1)[idx :=
                     Some \<lparr>te_key = key, te_bytes = bs, te_prev = None, te_next = None\<rparr>],
                  tc_index := fmupd key idx (tc_index c1)\<rparr>)
          }))"

section \<open>Linked segments\<close>

text \<open>
  \<open>seg sl p xs n\<close>: the slots \<open>xs\<close> form a doubly linked segment whose first \<^verbatim>\<open>prev\<close> is \<open>p\<close> and
  whose last \<^verbatim>\<open>next\<close> is \<open>n\<close>.
\<close>

definition first_of :: "nat list \<Rightarrow> nat option \<Rightarrow> nat option" where
  "first_of xs n = (case xs of [] \<Rightarrow> n | x # _ \<Rightarrow> Some x)"

definition last_of :: "nat list \<Rightarrow> nat option \<Rightarrow> nat option" where
  "last_of xs p = (if xs = [] then p else Some (last xs))"

fun seg :: "tiny_slots \<Rightarrow> nat option \<Rightarrow> nat list \<Rightarrow> nat option \<Rightarrow> bool" where
  "seg sl p [] n = True"
| "seg sl p (x # xs) n \<longleftrightarrow>
     x < length sl \<and>
     (\<exists>e. sl ! x = Some e \<and> te_prev e = p \<and> te_next e = first_of xs n) \<and> seg sl (Some x) xs n"

lemma first_of_simps [simp]:
  "first_of [] n = n" "first_of (x # xs) n = Some x" "first_of (xs @ ys) n = first_of xs (first_of ys n)"
  by (simp_all add: first_of_def split: list.split)

lemma last_of_simps [simp]:
  "last_of [] p = p" "last_of (x # xs) p = last_of xs (Some x)"
  "last_of (xs @ ys) p = last_of ys (last_of xs p)"
  by (simp_all add: last_of_def)

lemma first_of_nonempty: "xs \<noteq> [] \<Longrightarrow> first_of xs n = Some (hd xs)"
  by (cases xs) simp_all

lemma last_of_nonempty: "xs \<noteq> [] \<Longrightarrow> last_of xs p = Some (last xs)"
  by (simp add: last_of_def)

lemma first_of_eq_Some: "i \<notin> set xs \<Longrightarrow> first_of xs n = Some i \<longleftrightarrow> xs = [] \<and> n = Some i"
  by (cases xs) auto

lemma last_of_eq_Some: "i \<notin> set xs \<Longrightarrow> last_of xs p = Some i \<longleftrightarrow> xs = [] \<and> p = Some i"
  using last_in_set [of xs] by (auto simp: last_of_def)

lemma seg_append [simp]:
  "seg sl p (xs @ ys) n \<longleftrightarrow> seg sl p xs (first_of ys n) \<and> seg sl (last_of xs p) ys n"
  by (induction xs arbitrary: p) auto

lemma seg_frame [simp]: "i \<notin> set xs \<Longrightarrow> seg (sl[i := v]) p xs n = seg sl p xs n"
  by (induction xs arbitrary: p) auto

lemma seg_bounds: "seg sl p xs n \<Longrightarrow> x \<in> set xs \<Longrightarrow> x < length sl \<and> (\<exists>e. sl ! x = Some e)"
  by (induction xs arbitrary: p) auto

text \<open>The payload of a slot, which relinking leaves alone.\<close>

definition slot_content :: "tiny_slots \<Rightarrow> nat \<Rightarrow> (blake3_hash \<times> bytes) option" where
  "slot_content sl i = map_option (\<lambda>e. (te_key e, te_bytes e)) (sl ! i)"

lemma slot_content_update:
  "slot_content (sl[i := v]) j =
     (if i = j \<and> i < length sl then map_option (\<lambda>e. (te_key e, te_bytes e)) v else slot_content sl j)"
  by (cases "i = j") (auto simp: slot_content_def list_update_beyond not_less)

lemma slot_content_relink:
  "slot_mut_opt p f sl = Some sl' \<Longrightarrow> (\<And>e. te_key (f e) = te_key e \<and> te_bytes (f e) = te_bytes e) \<Longrightarrow>
   slot_content sl' j = slot_content sl j \<and> length sl' = length sl"
  by (auto simp: slot_mut_opt_def slot_mut_def slot_content_update option.map_comp comp_def
        slot_content_def nth_list_update split: option.splits if_splits)

lemma slot_mut_opt_Some [simp]: "slot_mut_opt (Some i) f sl = slot_mut i f sl"
  "slot_mut_opt None f sl = Some sl"
  by (simp_all add: slot_mut_opt_def)

lemma slot_mut_in [simp]: "i < length sl \<Longrightarrow> slot_mut i f sl = Some (sl[i := map_option f (sl ! i)])"
  by (simp add: slot_mut_def)

text \<open>Relinking the neighbours of a segment element removes it from the segment.\<close>

lemma seg_set_next:
  assumes "seg sl p as n" "distinct as" "as \<noteq> []"
  shows "\<exists>sl'. slot_mut_opt (last_of as p) (\<lambda>e. e\<lparr>te_next := m\<rparr>) sl = Some sl' \<and> seg sl' p as m \<and>
    (\<forall>j. j \<noteq> last as \<longrightarrow> sl' ! j = sl ! j) \<and> length sl' = length sl"
proof -
  from assms(3) obtain as' a where as: "as = as' @ [a]" by (cases as rule: rev_cases) auto
  with assms obtain e where e: "a < length sl" "sl ! a = Some e" "te_prev e = last_of as' p" by auto
  show ?thesis using assms e unfolding as by (auto simp: nth_list_update)
qed

lemma seg_set_prev:
  assumes "seg sl p bs n" "distinct bs" "bs \<noteq> []"
  shows "\<exists>sl'. slot_mut_opt (first_of bs n) (\<lambda>e. e\<lparr>te_prev := q\<rparr>) sl = Some sl' \<and> seg sl' q bs n \<and>
    (\<forall>j. j \<noteq> hd bs \<longrightarrow> sl' ! j = sl ! j) \<and> length sl' = length sl"
  using assms by (cases bs) auto

lemma seg_cong: "(\<And>x. x \<in> set xs \<Longrightarrow> sl' ! x = sl ! x) \<Longrightarrow> length sl' = length sl \<Longrightarrow>
  seg sl' p xs n = seg sl p xs n"
  by (induction xs arbitrary: p) auto

lemma relink_next:
  assumes "seg sl None as n" "distinct as"
  shows "\<exists>sl'. slot_mut_opt (last_of as None) (\<lambda>e. e\<lparr>te_next := m\<rparr>) sl = Some sl' \<and> seg sl' None as m \<and>
    (\<forall>j. j \<notin> set as \<longrightarrow> sl' ! j = sl ! j) \<and> length sl' = length sl"
proof (cases "as = []")
  case False
  with seg_set_next [OF assms(1,2) False, of m] show ?thesis by (metis last_in_set)
qed simp

lemma relink_prev:
  assumes "seg sl p bs None" "distinct bs"
  shows "\<exists>sl'. slot_mut_opt (first_of bs None) (\<lambda>e. e\<lparr>te_prev := q\<rparr>) sl = Some sl' \<and> seg sl' q bs None \<and>
    (\<forall>j. j \<notin> set bs \<longrightarrow> sl' ! j = sl ! j) \<and> length sl' = length sl"
proof (cases "bs = []")
  case False
  with seg_set_prev [OF assms(1,2) False, of q] show ?thesis by (metis hd_in_set)
qed simp

section \<open>List operations on the links\<close>

text \<open>The links of a cache thread exactly the slots \<open>xs\<close>, oldest first.\<close>

definition threaded :: "tiny_cache \<Rightarrow> nat list \<Rightarrow> bool" where
  "threaded c xs \<longleftrightarrow>
     seg (tc_slots c) None xs None \<and> distinct xs \<and> tc_head c = first_of xs None \<and>
     tc_tail c = last_of xs None"

text \<open>Two caches that differ only in their links.\<close>

definition relinked :: "tiny_cache \<Rightarrow> tiny_cache \<Rightarrow> bool" where
  "relinked c c' \<longleftrightarrow>
     length (tc_slots c') = length (tc_slots c) \<and> tc_index c' = tc_index c \<and> tc_free c' = tc_free c \<and>
     (\<forall>j. slot_content (tc_slots c') j = slot_content (tc_slots c) j)"

lemma relinked_refl [simp]: "relinked c c" by (simp add: relinked_def)

lemma relinked_trans: "relinked c d \<Longrightarrow> relinked d e \<Longrightarrow> relinked c e"
  by (simp add: relinked_def)

lemma detach_threaded:
  assumes "threaded c (as @ i # bs)"
  shows "\<exists>c'. tiny_detach i c = Some c' \<and> threaded c' (as @ bs) \<and> relinked c c'"
proof -
  let ?sl = "tc_slots c"
  from assms have d: "distinct as" "distinct bs" "i \<notin> set as" "i \<notin> set bs" "set as \<inter> set bs = {}"
    by (auto simp: threaded_def)
  from assms obtain e where
    s: "seg ?sl None as (Some i)" "seg ?sl (Some i) bs None" and
    e: "i < length ?sl" "?sl ! i = Some e" "te_prev e = last_of as None" "te_next e = first_of bs None"
    by (auto simp: threaded_def)
  obtain sl1 where sl1: "slot_mut_opt (te_prev e) (\<lambda>x. x\<lparr>te_next := te_next e\<rparr>) ?sl = Some sl1"
    "seg sl1 None as (first_of bs None)" "\<And>j. j \<notin> set as \<Longrightarrow> sl1 ! j = ?sl ! j" "length sl1 = length ?sl"
    using relink_next [OF s(1) d(1)] unfolding e(3,4) by blast
  have "seg sl1 (Some i) bs None"
    using s(2) sl1(3,4) d(5) by (subst seg_cong [of bs sl1 ?sl]) (blast, simp_all)
  then obtain sl2 where sl2: "slot_mut_opt (te_next e) (\<lambda>x. x\<lparr>te_prev := te_prev e\<rparr>) sl1 = Some sl2"
    "seg sl2 (last_of as None) bs None" "\<And>j. j \<notin> set bs \<Longrightarrow> sl2 ! j = sl1 ! j" "length sl2 = length sl1"
    using relink_prev [OF _ d(2)] unfolding e(3,4) by blast
  have as2: "seg sl2 None as (first_of bs None)"
    using sl1(2) sl2(3,4) d(5) by (subst seg_cong [of as sl2 sl1]) (blast, simp_all)
  define sl3 where "sl3 = sl2[i := map_option (\<lambda>x. x\<lparr>te_prev := None, te_next := None\<rparr>) (sl2 ! i)]"
  have len: "i < length sl2" using e(1) sl1(4) sl2(4) by simp
  let ?c = "c\<lparr>tc_slots := sl3, tc_head := if tc_head c = Some i then te_next e else tc_head c,
    tc_tail := if tc_tail c = Some i then te_prev e else tc_tail c\<rparr>"
  have run: "tiny_detach i c = Some ?c"
    using e(1,2) len by (simp add: tiny_detach_def slot_ref_def sl1(1) sl2(1) sl3_def)
  have "seg sl3 None (as @ bs) None" using as2 sl2(2) d(3,4) by (simp add: sl3_def)
  moreover have "tc_head ?c = first_of (as @ bs) None" "tc_tail ?c = last_of (as @ bs) None"
    using assms d(3,4) e(3,4) by (auto simp: threaded_def first_of_eq_Some last_of_eq_Some first_of_nonempty last_of_nonempty)
  ultimately have "threaded ?c (as @ bs)" using d by (simp add: threaded_def)
  moreover have "slot_content sl3 j = slot_content ?sl j" for j
    using slot_content_relink [OF sl1(1), of j] slot_content_relink [OF sl2(1), of j] len
    by (simp add: sl3_def slot_content_update) (simp add: slot_content_def option.map_comp comp_def)
  then have "relinked c ?c" by (simp add: relinked_def sl3_def sl1(4) sl2(4))
  ultimately show ?thesis using run by blast
qed

lemma push_back_threaded:
  assumes "threaded c xs" "i \<notin> set xs" "i < length (tc_slots c)" "tc_slots c ! i = Some e"
  shows "\<exists>c'. tiny_push_back i c = Some c' \<and> threaded c' (xs @ [i]) \<and> relinked c c'"
proof -
  let ?sl = "tc_slots c"
  from assms(1) have t: "seg ?sl None xs None" "distinct xs" "tc_tail c = last_of xs None"
    "tc_head c = first_of xs None" by (simp_all add: threaded_def)
  obtain sl1 where sl1: "slot_mut_opt (last_of xs None) (\<lambda>x. x\<lparr>te_next := Some i\<rparr>) ?sl = Some sl1"
    "seg sl1 None xs (Some i)" "\<And>j. j \<notin> set xs \<Longrightarrow> sl1 ! j = ?sl ! j" "length sl1 = length ?sl"
    using relink_next [OF t(1,2)] by blast
  define sl2 where
    "sl2 = sl1[i := map_option (\<lambda>x. x\<lparr>te_prev := last_of xs None, te_next := None\<rparr>) (sl1 ! i)]"
  let ?c = "c\<lparr>tc_slots := sl2, tc_head := first_of (xs @ [i]) None, tc_tail := Some i\<rparr>"
  have "tiny_push_back i c = Some ?c"
  proof (cases "xs = []")
    case True
    with t sl1 assms(3) show ?thesis by (simp add: tiny_push_back_def sl2_def)
  next
    case False
    then have "last_of xs None = Some (last xs)" "first_of xs (Some i) = first_of xs None"
      by (auto simp: last_of_def first_of_def split: list.split)
    with t sl1 assms(3) show ?thesis by (simp add: tiny_push_back_def sl2_def)
  qed
  moreover have "threaded ?c (xs @ [i])"
    using t(2) assms sl1(2-4) by (simp add: threaded_def sl2_def)
  moreover have "slot_content sl2 j = slot_content ?sl j" for j
    using slot_content_relink [OF sl1(1), of j] sl1(4) assms(3)
    by (simp add: sl2_def slot_content_update) (simp add: slot_content_def option.map_comp comp_def)
  then have "relinked c ?c" by (simp add: relinked_def sl2_def sl1(4))
  ultimately show ?thesis by blast
qed

lemma move_to_back_threaded:
  assumes "threaded c (as @ i # bs)"
  shows "\<exists>c'. tiny_move_to_back i c = Some c' \<and> threaded c' (as @ bs @ [i]) \<and> relinked c c'"
proof (cases "tc_tail c = Some i")
  case True
  have "i \<notin> set bs" using assms by (simp add: threaded_def)
  moreover have "last_of bs (Some i) = Some i" using assms True by (simp add: threaded_def)
  ultimately have "bs = []" using last_in_set [of bs] by (auto simp: last_of_def split: if_splits)
  with assms True show ?thesis by (simp add: tiny_move_to_back_def)
next
  case False
  obtain c1 where c1: "tiny_detach i c = Some c1" "threaded c1 (as @ bs)" "relinked c c1"
    using detach_threaded [OF assms] by blast
  from assms obtain e where e: "i < length (tc_slots c)" "tc_slots c ! i = Some e" "i \<notin> set (as @ bs)"
    by (auto simp: threaded_def)
  then have "slot_content (tc_slots c1) i \<noteq> None" using c1(3) by (simp add: relinked_def slot_content_def)
  then obtain e1 where "tc_slots c1 ! i = Some e1" by (auto simp: slot_content_def)
  moreover have "i < length (tc_slots c1)" using c1(3) e(1) by (simp add: relinked_def)
  ultimately obtain c2 where "tiny_push_back i c1 = Some c2" "threaded c2 (as @ bs @ [i])" "relinked c1 c2"
    using push_back_threaded [OF c1(2) e(3)] by auto
  with c1 False show ?thesis by (auto simp: tiny_move_to_back_def intro: relinked_trans)
qed

section \<open>The list a tiny cache stands for\<close>

definition indexed :: "tiny_cache \<Rightarrow> nat list \<Rightarrow> bool" where
  "indexed c xs \<longleftrightarrow>
     (\<forall>k i. fmlookup (tc_index c) k = Some i \<longleftrightarrow>
            i \<in> set xs \<and> (\<exists>b. slot_content (tc_slots c) i = Some (k, b)))"

definition tiny_wf :: "tiny_cache \<Rightarrow> nat list \<Rightarrow> bool" where
  "tiny_wf c xs \<longleftrightarrow>
     threaded c xs \<and> indexed c xs \<and> distinct (tc_free c) \<and>
     set (tc_free c) = {..<length (tc_slots c)} - set xs"

definition entries :: "tiny_cache \<Rightarrow> nat list \<Rightarrow> lru_list" where
  "entries c xs = List.map (\<lambda>i. the (slot_content (tc_slots c) i)) xs"

lemma entries_simps [simp]:
  "entries c [] = []" "entries c (x # xs) = the (slot_content (tc_slots c) x) # entries c xs"
  "entries c (xs @ ys) = entries c xs @ entries c ys"
  by (simp_all add: entries_def)

lemma threaded_content:
  "threaded c xs \<Longrightarrow> i \<in> set xs \<Longrightarrow> i < length (tc_slots c) \<and> (\<exists>k b. slot_content (tc_slots c) i = Some (k, b))"
  using seg_bounds [of "tc_slots c" None xs None i] by (auto simp: threaded_def slot_content_def)

lemma indexedD:
  assumes "indexed c xs" "threaded c xs" "fmlookup (tc_index c) k = Some i"
  obtains b as bs where "slot_content (tc_slots c) i = Some (k, b)" "xs = as @ i # bs"
    "\<And>j k' b'. j \<in> set (as @ bs) \<Longrightarrow> slot_content (tc_slots c) j = Some (k', b') \<Longrightarrow> k' \<noteq> k"
proof -
  from assms(1,3) obtain b where b: "i \<in> set xs" "slot_content (tc_slots c) i = Some (k, b)"
    by (auto simp: indexed_def)
  from b(1) obtain as bs where xs: "xs = as @ i # bs" by (meson split_list)
  have "k' \<noteq> k" if "j \<in> set (as @ bs)" "slot_content (tc_slots c) j = Some (k', b')" for j k' b'
  proof
    assume "k' = k"
    with that assms(1) xs have "fmlookup (tc_index c) k = Some j" by (auto simp: indexed_def)
    then show False using assms(2,3) that(1) xs by (auto simp: threaded_def)
  qed
  with b(2) xs that show thesis by blast
qed

lemma entries_without:
  assumes "threaded c ys" "set xs \<subseteq> set ys"
    "\<And>j k' b'. j \<in> set xs \<Longrightarrow> slot_content (tc_slots c) j = Some (k', b') \<Longrightarrow> k' \<noteq> k"
  shows "lru_drop k (entries c xs) = entries c xs" "map_of (entries c xs) k = None"
proof -
  have "k \<notin> fst ` set (entries c xs)"
  proof
    assume "k \<in> fst ` set (entries c xs)"
    then obtain j where j: "j \<in> set xs" "fst (the (slot_content (tc_slots c) j)) = k"
      by (auto simp: entries_def)
    then obtain k' b' where "slot_content (tc_slots c) j = Some (k', b')"
      using threaded_content [OF assms(1)] assms(2) by blast
    with j assms(3) show False by simp
  qed
  then show "lru_drop k (entries c xs) = entries c xs" "map_of (entries c xs) k = None"
    by (simp_all add: lru_drop_id map_of_eq_None_iff)
qed

lemma entries_present:
  assumes "indexed c xs" "threaded c xs" "fmlookup (tc_index c) k = Some i"
  obtains b as bs where "slot_content (tc_slots c) i = Some (k, b)" "xs = as @ i # bs"
    "map_of (entries c xs) k = Some b" "lru_drop k (entries c xs) = entries c (as @ bs)"
proof -
  obtain b as bs where d: "slot_content (tc_slots c) i = Some (k, b)" "xs = as @ i # bs"
    "\<And>j k' b'. j \<in> set (as @ bs) \<Longrightarrow> slot_content (tc_slots c) j = Some (k', b') \<Longrightarrow> k' \<noteq> k"
    using indexedD [OF assms] by blast
  note w = entries_without [OF assms(2), of _ k]
  have "lru_drop k (entries c as) = entries c as" "map_of (entries c as) k = None"
    "lru_drop k (entries c bs) = entries c bs"
    by (rule w; use d in auto)+
  then have "map_of (entries c xs) k = Some b" "lru_drop k (entries c xs) = entries c (as @ bs)"
    using d(1,2) by (simp_all add: map_add_def)
  with d(1,2) that show thesis by blast
qed

lemma indexed_absent:
  assumes "indexed c xs" "fmlookup (tc_index c) k = None"
    "j \<in> set xs" "slot_content (tc_slots c) j = Some (k', b')"
  shows "k' \<noteq> k"
proof
  assume "k' = k"
  with assms(1,3,4) have "fmlookup (tc_index c) k = Some j" by (simp add: indexed_def)
  with assms(2) show False by simp
qed

lemma entries_absent:
  assumes "indexed c xs" "threaded c xs" "fmlookup (tc_index c) k = None"
  shows "map_of (entries c xs) k = None"
  by (rule entries_without(2) [OF assms(2) order_refl]) (rule indexed_absent [OF assms(1,3)])

lemma tiny_wf_relinked:
  assumes "tiny_wf c xs" "relinked c c'" "threaded c' ys" "set ys = set xs"
  shows "tiny_wf c' ys" "entries c' ys = entries c ys"
  using assms by (simp_all add: tiny_wf_def indexed_def relinked_def entries_def)

lemma tiny_get_wf:
  assumes "tiny_wf c xs"
  shows "\<exists>c' ys. tiny_get c k = Some (map_of (entries c xs) k, c') \<and> tiny_wf c' ys \<and>
    entries c' ys = lru_touch k (entries c xs) \<and> length (tc_slots c') = length (tc_slots c)"
proof -
  from assms have w: "indexed c xs" "threaded c xs" by (simp_all add: tiny_wf_def)
  show ?thesis
  proof (cases "fmlookup (tc_index c) k")
    case None
    with entries_absent [OF w None] assms show ?thesis by (auto simp: tiny_get_def lru_touch_def)
  next
    case (Some i)
    obtain b as bs where p: "slot_content (tc_slots c) i = Some (k, b)" "xs = as @ i # bs"
      "map_of (entries c xs) k = Some b" "lru_drop k (entries c xs) = entries c (as @ bs)"
      using entries_present [OF w Some] by blast
    obtain c' where c': "tiny_move_to_back i c = Some c'" "threaded c' (as @ bs @ [i])" "relinked c c'"
      using move_to_back_threaded w(2) p(2) by blast
    have i: "i < length (tc_slots c)" using threaded_content [OF w(2)] p(2) by simp
    have "set (as @ bs @ [i]) = set xs" using p(2) by auto
    note r = tiny_wf_relinked [OF assms c'(3,2) this]
    have "entries c (as @ bs @ [i]) = lru_touch k (entries c xs)"
      by (simp add: lru_touch_def p(1,3,4))
    with r(2) have "entries c' (as @ bs @ [i]) = lru_touch k (entries c xs)" by (rule trans)
    moreover obtain e where "tc_slots c ! i = Some e" "te_bytes e = b"
      using p(1) by (auto simp: slot_content_def)
    ultimately show ?thesis
      using Some c' p(3) i r(1)
      by (auto simp: tiny_get_def slot_ref_def relinked_def simp del: entries_simps)
  qed
qed

lemma seg_payload:
  assumes "sl ! i = Some e" "te_prev e' = te_prev e" "te_next e' = te_next e" "i < length sl"
  shows "seg (sl[i := Some e']) p xs n = seg sl p xs n"
  using assms by (induction xs arbitrary: p) (auto simp: nth_list_update)

lemma tiny_put_present:
  assumes "tiny_wf c xs" "fmlookup (tc_index c) k = Some i"
  shows "\<exists>c' ys. tiny_put c k b = Some c' \<and> tiny_wf c' ys \<and>
    entries c' ys = lru_drop k (entries c xs) @ [(k, b)] \<and> length (tc_slots c') = length (tc_slots c)"
proof -
  from assms(1) have w: "indexed c xs" "threaded c xs" by (simp_all add: tiny_wf_def)
  obtain b0 as bs where p: "slot_content (tc_slots c) i = Some (k, b0)" "xs = as @ i # bs"
    "lru_drop k (entries c xs) = entries c (as @ bs)"
    using entries_present [OF w assms(2)] by blast
  then obtain e where e: "tc_slots c ! i = Some e" "te_key e = k" by (auto simp: slot_content_def)
  have i: "i < length (tc_slots c)" using threaded_content [OF w(2)] p(2) by simp
  define d where "d = c\<lparr>tc_slots := (tc_slots c)[i := Some (e\<lparr>te_bytes := b\<rparr>)]\<rparr>"
  have content: "slot_content (tc_slots d) j = (if j = i then Some (k, b) else slot_content (tc_slots c) j)" for j
    using i e by (simp add: d_def slot_content_update)
  have "threaded d xs" using w(2) e i by (simp add: d_def threaded_def seg_payload)
  moreover have "indexed d xs" using w(1) p(1)
    unfolding indexed_def content by (auto simp: d_def)
  ultimately have wd: "tiny_wf d xs" using assms(1) by (simp add: tiny_wf_def d_def)
  obtain c' where c': "tiny_move_to_back i d = Some c'" "threaded c' (as @ bs @ [i])" "relinked d c'"
    using move_to_back_threaded \<open>threaded d xs\<close> p(2) by blast
  have "set (as @ bs @ [i]) = set xs" using p(2) by auto
  note r = tiny_wf_relinked [OF wd c'(3,2) this]
  have "i \<notin> set (as @ bs)" using w(2) p(2) by (auto simp: threaded_def)
  then have "entries d (as @ bs) = entries c (as @ bs)" by (auto simp: entries_def content)
  then have "entries d (as @ bs @ [i]) = lru_drop k (entries c xs) @ [(k, b)]"
    by (simp add: p(3) content)
  moreover have "tiny_put c k b = Some c'"
    using assms(2) i e c'(1) by (auto simp: tiny_put_def d_def)
  ultimately show ?thesis
    using r c'(3) by (auto simp: relinked_def d_def)
qed

text \<open>Filling a fresh slot and threading it at the back.\<close>

lemma install_slot:
  assumes "threaded c xs" "indexed c xs" "fmlookup (tc_index c) k = None" "distinct (tc_free c)"
    "i \<notin> set xs" "i < length (tc_slots c)" "set (tc_free c) = {..<length (tc_slots c)} - insert i (set xs)"
  shows "\<exists>c'. tiny_push_back i
      (c\<lparr>tc_slots := (tc_slots c)[i :=
             Some \<lparr>te_key = k, te_bytes = b, te_prev = None, te_next = None\<rparr>],
          tc_index := fmupd k i (tc_index c)\<rparr>) = Some c' \<and>
    tiny_wf c' (xs @ [i]) \<and> entries c' (xs @ [i]) = entries c xs @ [(k, b)] \<and>
    length (tc_slots c') = length (tc_slots c)"
proof -
  define e where "e = \<lparr>te_key = k, te_bytes = b, te_prev = None, te_next = None\<rparr>"
  define d where "d = c\<lparr>tc_slots := (tc_slots c)[i := Some e], tc_index := fmupd k i (tc_index c)\<rparr>"
  have content: "slot_content (tc_slots d) j = (if j = i then Some (k, b) else slot_content (tc_slots c) j)" for j
    using assms(6) by (simp add: d_def e_def slot_content_update)
  have "threaded d xs" using assms(1,5) by (simp add: d_def threaded_def)
  moreover have "i < length (tc_slots d)" "tc_slots d ! i = Some e" using assms(6) by (simp_all add: d_def)
  ultimately obtain c' where c': "tiny_push_back i d = Some c'" "threaded c' (xs @ [i])" "relinked d c'"
    using push_back_threaded [of d xs i] assms(5) by blast
  have "fmlookup (fmupd k i (tc_index c)) k' = Some j \<longleftrightarrow>
      j \<in> set (xs @ [i]) \<and> (\<exists>b'. slot_content (tc_slots d) j = Some (k', b'))" for k' j
  proof (cases "k' = k")
    case True
    with indexed_absent [OF assms(2,3)] show ?thesis unfolding content by auto
  next
    case False
    with assms(2,5) show ?thesis unfolding content by (auto simp: indexed_def)
  qed
  then have "indexed c' (xs @ [i])"
    using c'(3) by (simp add: indexed_def relinked_def d_def)
  moreover have "distinct (tc_free c') \<and> set (tc_free c') = {..<length (tc_slots c')} - set (xs @ [i])"
    using c'(3) assms(4,7) by (auto simp: relinked_def d_def)
  ultimately have "tiny_wf c' (xs @ [i])" using c'(2) by (simp add: tiny_wf_def)
  moreover have "entries d xs = entries c xs" using assms(5) by (auto simp: entries_def content)
  then have "entries c' (xs @ [i]) = entries c xs @ [(k, b)]"
    using c'(3) content [of i] by (simp add: entries_def relinked_def)
  moreover have "length (tc_slots c') = length (tc_slots c)"
    using c'(3) by (simp add: relinked_def d_def)
  ultimately show ?thesis using c'(1) unfolding d_def e_def by blast
qed

lemma length_entries [simp]: "length (entries c xs) = length xs"
  by (simp add: entries_def)

lemma tiny_put_free:
  assumes "tiny_wf c xs" "fmlookup (tc_index c) k = None" "tc_free c \<noteq> []"
  shows "\<exists>c' ys. tiny_put c k b = Some c' \<and> tiny_wf c' ys \<and>
    entries c' ys = entries c xs @ [(k, b)] \<and> length (tc_slots c') = length (tc_slots c)"
proof -
  from assms(3) obtain rest i where free: "tc_free c = rest @ [i]" by (cases "tc_free c" rule: rev_cases) auto
  from assms(1) have w: "threaded c xs" "indexed c xs" "distinct (rest @ [i])"
    "set (rest @ [i]) = {..<length (tc_slots c)} - set xs" by (simp_all add: tiny_wf_def free)
  define d where "d = c\<lparr>tc_free := rest\<rparr>"
  have i: "i < length (tc_slots c)" "i \<notin> set xs" using w(4) by auto
  have "set rest = {..<length (tc_slots c)} - insert i (set xs)" using w(3,4) by auto
  then obtain c' where c': "tiny_push_back i
      (d\<lparr>tc_slots := (tc_slots d)[i := Some \<lparr>te_key = k, te_bytes = b, te_prev = None, te_next = None\<rparr>],
         tc_index := fmupd k i (tc_index d)\<rparr>) = Some c'"
    "tiny_wf c' (xs @ [i])" "entries c' (xs @ [i]) = entries d xs @ [(k, b)]"
    "length (tc_slots c') = length (tc_slots d)"
    using install_slot [of d xs k i b] w(1-3) assms(2) i
    by (auto simp: d_def threaded_def indexed_def simp del: entries_simps)
  have "tiny_allocate_slot c = Some (i, d)" by (simp add: tiny_allocate_slot_def free d_def)
  moreover have "entries d xs = entries c xs" by (simp add: entries_def d_def)
  moreover have "tc_slots d = tc_slots c" by (simp add: d_def)
  moreover have "length (tc_slots c) \<noteq> 0" using i by auto
  ultimately have "tiny_put c k b = Some c'" "entries c' (xs @ [i]) = entries c xs @ [(k, b)]"
    "length (tc_slots c') = length (tc_slots c)"
    using c' assms(2) i by (auto simp: tiny_put_def slot_ref_def)
  with c'(2) show ?thesis by blast
qed

lemma tiny_put_full:
  assumes "tiny_wf c xs" "fmlookup (tc_index c) k = None" "tc_free c = []" "tc_slots c \<noteq> []"
  shows "\<exists>c' ys. tiny_put c k b = Some c' \<and> tiny_wf c' ys \<and>
    entries c' ys = tl (entries c xs) @ [(k, b)] \<and> length (tc_slots c') = length (tc_slots c)"
proof -
  from assms(1,3) have w: "threaded c xs" "indexed c xs" "{..<length (tc_slots c)} - set xs = {}"
    by (simp_all add: tiny_wf_def)
  from w(3) assms(4) have "0 \<in> set xs" by auto
  then obtain i bs where xs: "xs = i # bs" by (cases xs) auto
  have i: "i < length (tc_slots c)" "i \<notin> set bs" "tc_head c = Some i"
    using w(1) by (auto simp: threaded_def xs)
  obtain c1 where c1: "tiny_detach i c = Some c1" "threaded c1 bs" "relinked c c1"
    using detach_threaded [of c "[]" i bs] w(1) xs by auto
  obtain k0 b0 where old: "slot_content (tc_slots c) i = Some (k0, b0)"
    using threaded_content [OF w(1), of i] xs by auto
  then have "slot_content (tc_slots c1) i = Some (k0, b0)" using c1(3) by (simp add: relinked_def)
  then obtain e where e: "tc_slots c1 ! i = Some e" "te_key e = k0" by (auto simp: slot_content_def)
  define d where "d = c1\<lparr>tc_slots := (tc_slots c1)[i := None], tc_index := fmdrop k0 (tc_index c1)\<rparr>"
  have len: "length (tc_slots c1) = length (tc_slots c)" "tc_index c1 = tc_index c" "tc_free c1 = []"
    using c1(3) assms(3) by (simp_all add: relinked_def)
  have content: "slot_content (tc_slots d) j = (if j = i then None else slot_content (tc_slots c) j)" for j
    using i(1) c1(3) by (simp add: d_def slot_content_update relinked_def)
  have "threaded d bs" using c1(2) i(2) by (simp add: d_def threaded_def)
  moreover have "indexed d bs" unfolding indexed_def
  proof (intro allI)
    fix k' j
    have own: "fmlookup (tc_index c) k0 = Some i" using w(2) old by (simp add: indexed_def xs)
    have "k' \<noteq> k0" if "j \<in> set bs" "slot_content (tc_slots c) j = Some (k', b')" for b'
    proof
      assume "k' = k0"
      with that w(2) have "fmlookup (tc_index c) k0 = Some j" by (simp add: indexed_def xs)
      with own i(2) that(1) show False by simp
    qed
    moreover have "fmlookup (tc_index c) k' = Some j \<longleftrightarrow>
        (j = i \<or> j \<in> set bs) \<and> (\<exists>b. slot_content (tc_slots c) j = Some (k', b))"
      using w(2) by (simp add: indexed_def xs)
    ultimately show "fmlookup (tc_index d) k' = Some j \<longleftrightarrow>
        j \<in> set bs \<and> (\<exists>b. slot_content (tc_slots d) j = Some (k', b))"
      using i(2) old own unfolding content by (auto simp: d_def len)
  qed
  moreover have "fmlookup (tc_index d) k = None" using assms(2) by (simp add: d_def len)
  moreover have "set (tc_free d) = {..<length (tc_slots d)} - insert i (set bs)"
    using w(3) by (simp add: d_def len xs)
  ultimately obtain c' where c': "tiny_push_back i
      (d\<lparr>tc_slots := (tc_slots d)[i := Some \<lparr>te_key = k, te_bytes = b, te_prev = None, te_next = None\<rparr>],
         tc_index := fmupd k i (tc_index d)\<rparr>) = Some c'"
    "tiny_wf c' (bs @ [i])" "entries c' (bs @ [i]) = entries d bs @ [(k, b)]"
    "length (tc_slots c') = length (tc_slots d)"
    using install_slot [of d bs k i b] i len by (auto simp: d_def simp del: entries_simps)
  have "tiny_allocate_slot c = Some (i, d)"
    using i c1(1) e len by (simp add: tiny_allocate_slot_def assms(3) slot_ref_def d_def)
  moreover have "entries d bs = tl (entries c xs)"
    using i(2) by (auto simp: entries_def content xs)
  moreover have "length (tc_slots d) = length (tc_slots c)" by (simp add: d_def len)
  ultimately have "tiny_put c k b = Some c'" "entries c' (bs @ [i]) = tl (entries c xs) @ [(k, b)]"
    "length (tc_slots c') = length (tc_slots c)"
    using c' assms(2,4) i by (auto simp: tiny_put_def slot_ref_def)
  with c'(2) show ?thesis by blast
qed

lemma tiny_put_wf:
  assumes "tiny_wf c xs"
  shows "\<exists>c' ys. tiny_put c k b = Some c' \<and> tiny_wf c' ys \<and>
    entries c' ys = lru_put_bounded (length (tc_slots c)) k b (entries c xs) \<and>
    length (tc_slots c') = length (tc_slots c)"
proof (cases "length (tc_slots c) = 0")
  case True
  with assms show ?thesis by (auto simp: tiny_put_def lru_put_bounded_def)
next
  case False
  from assms have w: "indexed c xs" "threaded c xs" by (simp_all add: tiny_wf_def)
  have bound: "set xs \<subseteq> {..<length (tc_slots c)}" using threaded_content [OF w(2)] by auto
  have card: "length xs = card (set xs)" using w(2) by (simp add: threaded_def distinct_card)
  show ?thesis
  proof (cases "fmlookup (tc_index c) k")
    case (Some i)
    obtain b0 where "map_of (entries c xs) k = Some b0" using entries_present [OF w Some] by blast
    with tiny_put_present [OF assms Some, of b] False show ?thesis by (simp add: lru_put_bounded_def)
  next
    case None
    note absent = entries_absent [OF w None]
    show ?thesis
    proof (cases "tc_free c = []")
      case True
      then have "{..<length (tc_slots c)} \<subseteq> set xs" using assms by (auto simp: tiny_wf_def)
      with bound have "set xs = {..<length (tc_slots c)}" by blast
      with card have "length xs = length (tc_slots c)" by simp
      with tiny_put_full [OF assms None True, of b] False absent show ?thesis
        by (simp add: lru_put_bounded_def)
    next
      case ne: False
      then obtain i where "i \<in> set (tc_free c)" by (cases "tc_free c") auto
      then have "i < length (tc_slots c)" "i \<notin> set xs" using assms by (auto simp: tiny_wf_def)
      with bound have "set xs \<subset> {..<length (tc_slots c)}" by auto
      then have "length xs < length (tc_slots c)" using card psubset_card_mono [of "{..<length (tc_slots c)}"] by simp
      with tiny_put_free [OF assms None ne, of b] False absent show ?thesis
        by (simp add: lru_put_bounded_def)
    qed
  qed
qed

lemma tiny_default_wf: "tiny_wf (tiny_default n) []"
  by (auto simp: tiny_wf_def threaded_def indexed_def tiny_default_def)

definition tiny_view :: "tiny_cache \<Rightarrow> blake3_hash \<Rightarrow> bytes option" where
  "tiny_view c k =
     (case fmlookup (tc_index c) k of
        None \<Rightarrow> None
      | Some i \<Rightarrow> map_option snd (slot_content (tc_slots c) i))"

lemma tiny_view_wf:
  assumes "tiny_wf c xs"
  shows "tiny_view c = map_of (entries c xs)"
proof
  fix k
  from assms have w: "indexed c xs" "threaded c xs" by (simp_all add: tiny_wf_def)
  show "tiny_view c k = map_of (entries c xs) k"
  proof (cases "fmlookup (tc_index c) k")
    case None
    with entries_absent [OF w] show ?thesis by (simp add: tiny_view_def)
  next
    case (Some i)
    with entries_present [OF w Some] show ?thesis by (metis option.map(2) option.simps(5) snd_conv tiny_view_def)
  qed
qed

lemma map_of_lru_put_bounded:
  assumes "map_of (lru_put_bounded n k b es) k' = Some b'" "distinct (List.map fst es)"
  shows "(k', b') = (k, b) \<or> map_of es k' = Some b'"
proof -
  have "set (lru_put_bounded n k b es) \<subseteq> insert (k, b) (set es)"
    by (cases es) (auto simp: lru_put_bounded_def set_lru_drop)
  with map_of_SomeD [OF assms(1)] assms(2) show ?thesis by auto
qed

lemma entries_distinct:
  assumes "tiny_wf c xs"
  shows "distinct (List.map fst (entries c xs))"
proof -
  from assms have w: "indexed c xs" "threaded c xs" by (simp_all add: tiny_wf_def)
  have key: "fmlookup (tc_index c) (fst (the (slot_content (tc_slots c) i))) = Some i" if "i \<in> set xs" for i
    using threaded_content [OF w(2) that] w(1) that by (auto simp: indexed_def)
  have "inj_on (\<lambda>i. fst (the (slot_content (tc_slots c) i))) (set xs)"
    by (rule inj_on_inverseI [where g = "\<lambda>k. the (fmlookup (tc_index c) k)"]) (simp add: key)
  with w(2) show ?thesis by (simp add: entries_def distinct_map threaded_def comp_def)
qed

interpretation tiny_lru: cas_cache "\<lambda>c. \<exists>xs. tiny_wf c xs" tiny_view tiny_get tiny_put
proof unfold_locales
  fix c k b
  assume "\<exists>xs. tiny_wf c xs"
  then obtain xs where xs: "tiny_wf c xs" by blast
  obtain c' ys where "tiny_get c k = Some (map_of (entries c xs) k, c')" "tiny_wf c' ys"
    "entries c' ys = lru_touch k (entries c xs)"
    using tiny_get_wf [OF xs, of k] by blast
  with xs show "\<exists>c'. tiny_get c k = Some (tiny_view c k, c') \<and> (\<exists>xs. tiny_wf c' xs) \<and>
      tiny_view c' = tiny_view c"
    by (auto simp: tiny_view_wf)
  obtain c' ys where p: "tiny_put c k b = Some c'" "tiny_wf c' ys"
    "entries c' ys = lru_put_bounded (length (tc_slots c)) k b (entries c xs)"
    using tiny_put_wf [OF xs, of k b] by blast
  with map_of_lru_put_bounded [OF _ entries_distinct [OF xs]] xs
  show "\<exists>c'. tiny_put c k b = Some c' \<and> (\<exists>xs. tiny_wf c' xs) \<and>
      (\<forall>k' b'. tiny_view c' k' = Some b' \<longrightarrow> (k', b') = (k, b) \<or> tiny_view c k' = Some b')"
    by (auto simp: tiny_view_wf)
qed

text \<open>
  C3. From the default cache of \<open>N\<close> slots, any sequence of lookups and insertions runs without
  a panic and answers as the reference LRU list of at most \<open>N\<close> entries, which the linked slots
  store in order of use.
\<close>

theorem tiny_lru_refines:
  "\<exists>c xs. run_cache tiny_get tiny_put ops (tiny_default n) =
      Some (fst (run_lru (lru_put_bounded n) ops []), c) \<and>
    tiny_wf c xs \<and> entries c xs = snd (run_lru (lru_put_bounded n) ops []) \<and>
    tiny_view c = map_of (entries c xs) \<and> length (tc_slots c) = n"
proof -
  define R where "R c es \<longleftrightarrow> (\<exists>xs. tiny_wf c xs \<and> es = entries c xs) \<and> length (tc_slots c) = n" for c es
  have "\<exists>c'. tiny_get c k = Some (map_of es k, c') \<and> R c' (lru_touch k es)" if "R c es" for c es k
  proof -
    from that obtain xs where "tiny_wf c xs" "es = entries c xs" "length (tc_slots c) = n"
      by (auto simp: R_def)
    with tiny_get_wf [of c xs k] show ?thesis unfolding R_def by metis
  qed
  moreover have "\<exists>c'. tiny_put c k b = Some c' \<and> R c' (lru_put_bounded n k b es)" if "R c es" for c es k b
  proof -
    from that obtain xs where "tiny_wf c xs" "es = entries c xs" "length (tc_slots c) = n"
      by (auto simp: R_def)
    with tiny_put_wf [of c xs k b] show ?thesis unfolding R_def by metis
  qed
  moreover have "R (tiny_default n) []"
    using tiny_default_wf by (auto simp: R_def intro: exI [of _ "[]"]) (simp add: tiny_default_def)
  ultimately obtain c where
    "run_cache tiny_get tiny_put ops (tiny_default n) = Some (fst (run_lru (lru_put_bounded n) ops []), c)"
    "R c (snd (run_lru (lru_put_bounded n) ops []))"
    using run_cache_simulation [of R tiny_get tiny_put "lru_put_bounded n"] by blast
  then show ?thesis unfolding R_def by (metis tiny_view_wf)
qed

end
