(* ===== verification/Cas.thy ===== *)
theory Cas
  imports TinyCache
begin

text \<open>
  The content-addressed object store (\<^verbatim>\<open>ObjectStore\<close> of \<^verbatim>\<open>arc-store-cas/src/cas.rs\<close>) on the
  files below \<^verbatim>\<open>.arc\<close>, as one writer sees them; the publication protocol with its temporary
  files and concurrent writers is the theory \<open>Publish\<close>.  BLAKE3 and the outcome of \<^verbatim>\<open>mmap\<close> are
  parameters: \<open>ce_mmap E content\<close> is what a mapping of a file with that content shows, \<^const>\<open>None\<close>
  when it fails.  An incremental hasher hashes the concatenation of its updates.
\<close>

record cas_env =
  ce_blake3 :: "bytes \<Rightarrow> blake3_hash"
  ce_mmap :: "bytes \<Rightarrow> bytes option"

datatype cas_io = NotFound | ReaderFailed

datatype cas_error = CasIo cas_io | ChecksumMismatch | HashMismatch

record cas_read_policy =
  mmap_threshold_bytes :: nat

definition small_object_threshold :: nat where
  "small_object_threshold = 4096"

definition read_policy_default :: cas_read_policy where
  "read_policy_default = \<lparr>mmap_threshold_bytes = small_object_threshold\<rparr>"

datatype cas_bytes = Owned bytes | Mapped bytes

fun cas_deref :: "cas_bytes \<Rightarrow> bytes" where
  "cas_deref (Owned v) = v"
| "cas_deref (Mapped m) = m"

definition cas_bytes_default :: cas_bytes where
  "cas_bytes_default = Owned []"

section \<open>Paths\<close>

text \<open>A path is the list of its components below \<^verbatim>\<open>.arc\<close>.\<close>

type_synonym cas_path = "string list"
type_synonym cas_files = "(cas_path, bytes) fmap"

definition hex_encode :: "blake3_hash \<Rightarrow> string" where
  "hex_encode hash = foldl (\<lambda>acc b. acc @ hex_byte b) [] hash"

definition object_path :: "blake3_hash \<Rightarrow> cas_path" where
  "object_path hash = (let hex = hex_encode hash in [''store'', take 2 hex, drop 2 hex])"

definition blob_path :: "blake3_hash \<Rightarrow> cas_path" where
  "blob_path hash = [''blobs'', hex_encode hash]"

lemma hex_encode_to_hex: "hex_encode h = hash_to_hex h"
proof -
  have "foldl (\<lambda>acc b. acc @ hex_byte b) s h = s @ hash_to_hex h" for s
    by (induction h arbitrary: s) (simp_all add: hash_to_hex_def)
  then show ?thesis by (simp add: hex_encode_def)
qed

lemma hash_to_hex_Cons [simp]: "hash_to_hex (b # h) = hex_byte b @ hash_to_hex h" "hash_to_hex [] = []"
  by (simp_all add: hash_to_hex_def)

lemma length_hex_byte [simp]: "length (hex_byte b) = 2"
  by (simp add: hex_byte_def)

lemma hash_to_hex_inject [simp]: "hash_to_hex h = hash_to_hex h' \<longleftrightarrow> h = h'"
proof
  show "hash_to_hex h = hash_to_hex h' \<Longrightarrow> h = h'"
  proof (induction h arbitrary: h')
    case Nil
    then have "length (hash_to_hex h') = 0" by simp
    then show ?case by (simp del: hash_to_hex_Cons)
  next
    case (Cons b h)
    then have "length (hash_to_hex h') \<noteq> 0" by (metis append_is_Nil_conv hash_to_hex_Cons(1) length_0_conv length_hex_byte zero_neq_numeral)
    then obtain b' t where h': "h' = b' # t" by (cases h') auto
    with Cons.prems have e: "hex_byte b = hex_byte b'" "hash_to_hex h = hash_to_hex t"
      by (auto simp: append_eq_append_conv)
    have "unat b div 16 < 16" "unat b mod 16 < 16" using unat_u8_less [of b] by auto
    then have "b = b'" using e(1) hex_byte_join_iff [of "unat b div 16" "unat b mod 16"] by (metis hex_byte_def)
    with Cons.IH [OF e(2)] h' show ?case by simp
  qed
qed simp

lemma path_inject [simp]:
  "object_path h = object_path h' \<longleftrightarrow> h = h'" "blob_path h = blob_path h' \<longleftrightarrow> h = h'"
  "object_path h \<noteq> blob_path h'" "blob_path h' \<noteq> object_path h"
proof -
  show "object_path h = object_path h' \<longleftrightarrow> h = h'"
    unfolding object_path_def hex_encode_to_hex Let_def
    by (metis append_take_drop_id hash_to_hex_inject list.inject)
qed (simp_all add: object_path_def blob_path_def hex_encode_to_hex Let_def)

section \<open>Files\<close>

text \<open>
  \<^verbatim>\<open>write_once_atomic\<close> as an uninterrupted single writer sees it; \<open>Publish\<close> derives this
  from the individual file operations.
\<close>

definition write_once_atomic :: "cas_path \<Rightarrow> bytes \<Rightarrow> cas_files \<Rightarrow> bool \<times> cas_files" where
  "write_once_atomic path bs fs =
     (if path |\<in>| fmdom fs then (False, fs) else (True, fmupd path bs fs))"

text \<open>The check of a buffered read against the expected hash, if any.\<close>

definition check_owned :: "cas_env \<Rightarrow> blake3_hash option \<Rightarrow> bytes \<Rightarrow> cas_error + cas_bytes" where
  "check_owned E expected_hash owned =
     (case expected_hash of
        None \<Rightarrow> Inr (Owned owned)
      | Some expected \<Rightarrow>
          if expected \<noteq> ce_blake3 E owned then Inl ChecksumMismatch else Inr (Owned owned))"

definition read_cas_bytes_with_policy ::
  "cas_env \<Rightarrow> cas_path \<Rightarrow> cas_read_policy \<Rightarrow> blake3_hash option \<Rightarrow> cas_files \<Rightarrow> cas_error + cas_bytes" where
  "read_cas_bytes_with_policy E path read_policy expected_hash fs =
     (case fmlookup fs path of
        None \<Rightarrow> Inl (CasIo NotFound)
      | Some content \<Rightarrow>
          if length content < mmap_threshold_bytes read_policy
          then check_owned E expected_hash content
          else (case ce_mmap E content of
              Some mapped \<Rightarrow>
                (case expected_hash of
                   Some expected \<Rightarrow>
                     if expected \<noteq> ce_blake3 E mapped then check_owned E expected_hash content
                     else Inr (Mapped mapped)
                 | None \<Rightarrow> Inr (Mapped mapped))
            | None \<Rightarrow> check_owned E expected_hash content))"

section \<open>The store\<close>

definition write_object ::
  "cas_env \<Rightarrow> blake3_hash \<Rightarrow> bytes \<Rightarrow> cas_files \<Rightarrow> (cas_error + blake3_hash) \<times> cas_files" where
  "write_object E hash bs fs =
     (if ce_blake3 E bs \<noteq> hash then (Inl HashMismatch, fs)
      else (Inr hash, snd (write_once_atomic (object_path hash) bs fs)))"

definition read_object ::
  "cas_env \<Rightarrow> cas_read_policy \<Rightarrow> blake3_hash \<Rightarrow> cas_files \<Rightarrow> cas_error + cas_bytes" where
  "read_object E pol hash fs = read_cas_bytes_with_policy E (object_path hash) pol (Some hash) fs"

definition write_blob :: "cas_env \<Rightarrow> bytes \<Rightarrow> cas_files \<Rightarrow> (cas_error + blake3_hash) \<times> cas_files" where
  "write_blob E bs fs =
     (let hash = ce_blake3 E bs
      in (Inr hash, snd (write_once_atomic (blob_path hash) bs fs)))"

definition read_blob ::
  "cas_env \<Rightarrow> cas_read_policy \<Rightarrow> blake3_hash \<Rightarrow> cas_files \<Rightarrow> cas_error + cas_bytes" where
  "read_blob E pol hash fs = read_cas_bytes_with_policy E (blob_path hash) pol (Some hash) fs"

definition contains_blob :: "blake3_hash \<Rightarrow> cas_files \<Rightarrow> bool" where
  "contains_blob hash fs \<longleftrightarrow> blob_path hash |\<in>| fmdom fs"

definition write_change_bytes ::
  "change_id \<Rightarrow> bytes \<Rightarrow> cas_files \<Rightarrow> (cas_error + change_id) \<times> cas_files" where
  "write_change_bytes i bs fs = (Inr i, snd (write_once_atomic (object_path i) bs fs))"

definition read_change_bytes ::
  "cas_env \<Rightarrow> cas_read_policy \<Rightarrow> change_id \<Rightarrow> cas_files \<Rightarrow> cas_error + cas_bytes" where
  "read_change_bytes E pol i fs = read_cas_bytes_with_policy E (object_path i) pol None fs"

text \<open>
  The streaming writer.  Each \<^verbatim>\<open>read\<close> of the source fills the buffer, is interrupted, or fails;
  an empty read, or the end of the list, is the end of the stream.
\<close>

datatype read_event = Chunk bytes | Interrupted | ReadFailure

fun stream_loop :: "read_event list \<Rightarrow> bytes \<Rightarrow> nat \<Rightarrow> cas_error + bytes \<times> nat" where
  "stream_loop [] written seen = Inr (written, seen)"
| "stream_loop (Chunk bs # rest) written seen =
     (if bs = [] then Inr (written, seen)
      else stream_loop rest (written @ bs) (saturating_add seen (length bs)))"
| "stream_loop (Interrupted # rest) written seen = stream_loop rest written seen"
| "stream_loop (ReadFailure # rest) written seen = Inl (CasIo ReaderFailed)"

definition write_blob_stream ::
  "cas_env \<Rightarrow> read_event list \<Rightarrow> cas_files \<Rightarrow> (cas_error + blake3_hash \<times> nat) \<times> cas_files" where
  "write_blob_stream E reader fs =
     (case stream_loop reader [] 0 of
        Inl err \<Rightarrow> (Inl err, fs)
      | Inr (written, total_bytes) \<Rightarrow>
          (let hash = ce_blake3 E written; final_path = blob_path hash
           in if final_path |\<in>| fmdom fs then (Inr (hash, total_bytes), fs)
              else (Inr (hash, total_bytes), fmupd final_path written fs)))"

text \<open>A read through a cache; \<^const>\<open>None\<close> when the cache panics.\<close>

definition read_blob_cached ::
  "('c \<Rightarrow> blake3_hash \<Rightarrow> (bytes option \<times> 'c) option) \<Rightarrow> ('c \<Rightarrow> blake3_hash \<Rightarrow> bytes \<Rightarrow> 'c option) \<Rightarrow>
   cas_env \<Rightarrow> cas_read_policy \<Rightarrow> cache_policy \<Rightarrow> blake3_hash \<Rightarrow> cas_files \<Rightarrow> 'c \<Rightarrow>
   ((cas_error + cas_bytes) \<times> 'c) option" where
  "read_blob_cached get put E pol policy hash fs cache =
     (case get cache hash of
        None \<Rightarrow> None
      | Some (Some hit, cache') \<Rightarrow> Some (Inr (Owned hit), cache')
      | Some (None, cache') \<Rightarrow>
          (case read_blob E pol hash fs of
             Inl e \<Rightarrow> Some (Inl e, cache')
           | Inr loaded \<Rightarrow>
               if should_cache policy (length (cas_deref loaded))
               then map_option (\<lambda>cache''. (Inr loaded, cache'')) (put cache' hash (cas_deref loaded))
               else Some (Inr loaded, cache')))"

section \<open>Refinement of two write-once maps\<close>

datatype store_op =
    WriteObject blake3_hash bytes
  | ReadObject blake3_hash
  | WriteBlob bytes
  | WriteBlobStream "read_event list"
  | ReadBlob blake3_hash
  | ContainsBlob blake3_hash
  | WriteChange change_id bytes
  | ReadChange change_id

datatype store_answer =
    Stored blake3_hash
  | Streamed blake3_hash nat
  | Content bytes
  | Present bool
  | Failed cas_error

fun answer_bytes :: "cas_error + cas_bytes \<Rightarrow> store_answer" where
  "answer_bytes (Inl e) = Failed e"
| "answer_bytes (Inr b) = Content (cas_deref b)"

fun answer_hash :: "cas_error + blake3_hash \<Rightarrow> store_answer" where
  "answer_hash (Inl e) = Failed e"
| "answer_hash (Inr h) = Stored h"

fun answer_stream :: "cas_error + blake3_hash \<times> nat \<Rightarrow> store_answer" where
  "answer_stream (Inl e) = Failed e"
| "answer_stream (Inr (h, n)) = Streamed h n"

fun store_step :: "cas_env \<Rightarrow> cas_read_policy \<Rightarrow> store_op \<Rightarrow> cas_files \<Rightarrow> store_answer \<times> cas_files" where
  "store_step E pol (WriteObject h bs) fs = map_prod answer_hash id (write_object E h bs fs)"
| "store_step E pol (ReadObject h) fs = (answer_bytes (read_object E pol h fs), fs)"
| "store_step E pol (WriteBlob bs) fs = map_prod answer_hash id (write_blob E bs fs)"
| "store_step E pol (WriteBlobStream r) fs = map_prod answer_stream id (write_blob_stream E r fs)"
| "store_step E pol (ReadBlob h) fs = (answer_bytes (read_blob E pol h fs), fs)"
| "store_step E pol (ContainsBlob h) fs = (Present (contains_blob h fs), fs)"
| "store_step E pol (WriteChange i bs) fs = map_prod answer_hash id (write_change_bytes i bs fs)"
| "store_step E pol (ReadChange i) fs = (answer_bytes (read_change_bytes E pol i fs), fs)"

fun run_store :: "cas_env \<Rightarrow> cas_read_policy \<Rightarrow> store_op list \<Rightarrow> cas_files \<Rightarrow> store_answer list \<times> cas_files" where
  "run_store E pol [] fs = ([], fs)"
| "run_store E pol (op # ops) fs =
     (let (a, fs') = store_step E pol op fs; (as, fs'') = run_store E pol ops fs' in (a # as, fs''))"

text \<open>
  The specification: two maps from keys to bytes in which the first write of a key wins.  A
  checked read answers only bytes that hash to the key.
\<close>

type_synonym content_map = "blake3_hash \<Rightarrow> bytes option"

definition put_once :: "blake3_hash \<Rightarrow> bytes \<Rightarrow> content_map \<Rightarrow> content_map" where
  "put_once k b m = (if m k = None then m(k \<mapsto> b) else m)"

definition spec_read :: "cas_env \<Rightarrow> bool \<Rightarrow> blake3_hash \<Rightarrow> content_map \<Rightarrow> store_answer" where
  "spec_read E checked k m =
     (case m k of
        None \<Rightarrow> Failed (CasIo NotFound)
      | Some b \<Rightarrow> if checked \<and> ce_blake3 E b \<noteq> k then Failed ChecksumMismatch else Content b)"

text \<open>What a stream delivers before its end, or its failure.\<close>

fun stream_payload :: "read_event list \<Rightarrow> bytes option" where
  "stream_payload [] = Some []"
| "stream_payload (Chunk bs # rest) =
     (if bs = [] then Some [] else map_option (\<lambda>p. bs @ p) (stream_payload rest))"
| "stream_payload (Interrupted # rest) = stream_payload rest"
| "stream_payload (ReadFailure # rest) = None"

fun spec_step :: "cas_env \<Rightarrow> store_op \<Rightarrow> content_map \<times> content_map \<Rightarrow> store_answer \<times> content_map \<times> content_map" where
  "spec_step E (WriteObject h bs) (obj, blb) =
     (if ce_blake3 E bs = h then (Stored h, put_once h bs obj, blb) else (Failed HashMismatch, obj, blb))"
| "spec_step E (ReadObject h) (obj, blb) = (spec_read E True h obj, obj, blb)"
| "spec_step E (WriteBlob bs) (obj, blb) =
     (Stored (ce_blake3 E bs), obj, put_once (ce_blake3 E bs) bs blb)"
| "spec_step E (WriteBlobStream r) (obj, blb) =
     (case stream_payload r of
        None \<Rightarrow> (Failed (CasIo ReaderFailed), obj, blb)
      | Some bs \<Rightarrow> (Streamed (ce_blake3 E bs) (min usize_max (length bs)), obj,
                   put_once (ce_blake3 E bs) bs blb))"
| "spec_step E (ReadBlob h) (obj, blb) = (spec_read E True h blb, obj, blb)"
| "spec_step E (ContainsBlob h) (obj, blb) = (Present (blb h \<noteq> None), obj, blb)"
| "spec_step E (WriteChange i bs) (obj, blb) = (Stored i, put_once i bs obj, blb)"
| "spec_step E (ReadChange i) (obj, blb) = (spec_read E False i obj, obj, blb)"

fun run_spec :: "cas_env \<Rightarrow> store_op list \<Rightarrow> content_map \<times> content_map \<Rightarrow>
    store_answer list \<times> content_map \<times> content_map" where
  "run_spec E [] m = ([], m)"
| "run_spec E (op # ops) m =
     (let (a, m') = spec_step E op m; (as, m'') = run_spec E ops m' in (a # as, m''))"

definition files_abs :: "cas_files \<Rightarrow> content_map \<times> content_map" where
  "files_abs fs = (\<lambda>h. fmlookup fs (object_path h), \<lambda>h. fmlookup fs (blob_path h))"

text \<open>A mapping of an immutable file fails or shows its content.\<close>

definition faithful_mmap :: "cas_env \<Rightarrow> bool" where
  "faithful_mmap E \<longleftrightarrow> (\<forall>c. ce_mmap E c = None \<or> ce_mmap E c = Some c)"

lemma read_policy_spec:
  assumes "faithful_mmap E"
  shows "answer_bytes (read_cas_bytes_with_policy E path pol expected fs) =
    (case fmlookup fs path of
       None \<Rightarrow> Failed (CasIo NotFound)
     | Some b \<Rightarrow>
         if (case expected of None \<Rightarrow> False | Some h \<Rightarrow> ce_blake3 E b \<noteq> h)
         then Failed ChecksumMismatch else Content b)"
proof (cases "fmlookup fs path")
  case (Some b)
  from assms have "ce_mmap E b = None \<or> ce_mmap E b = Some b" by (simp add: faithful_mmap_def)
  with Some show ?thesis
    by (auto simp: read_cas_bytes_with_policy_def check_owned_def split: option.split)
qed (simp add: read_cas_bytes_with_policy_def)

lemma write_once_object:
  "files_abs (snd (write_once_atomic (object_path h) bs fs)) =
   map_prod (put_once h bs) id (files_abs fs)"
  by (auto simp: files_abs_def write_once_atomic_def put_once_def fun_eq_iff fmdom_notI fmdomI
      dest: fmdom_notD)

lemma write_once_blob:
  "files_abs (snd (write_once_atomic (blob_path h) bs fs)) =
   map_prod id (put_once h bs) (files_abs fs)"
  by (auto simp: files_abs_def write_once_atomic_def put_once_def fun_eq_iff fmdom_notI fmdomI
      dest: fmdom_notD)

lemma stream_loop_payload:
  "stream_loop r written (min usize_max n) =
     (case stream_payload r of
        None \<Rightarrow> Inl (CasIo ReaderFailed)
      | Some bs \<Rightarrow> Inr (written @ bs, min usize_max (n + length bs)))"
proof (induction r arbitrary: written n)
  case (Cons ev r)
  have "saturating_add (min usize_max n) k = min usize_max (n + k)" for k
    by (auto simp: saturating_add_def)
  with Cons show ?case by (cases ev) (auto split: option.split simp: add.assoc)
qed simp

lemma write_blob_stream_payload:
  "write_blob_stream E r fs =
     (case stream_payload r of
        None \<Rightarrow> (Inl (CasIo ReaderFailed), fs)
      | Some bs \<Rightarrow> (Inr (ce_blake3 E bs, min usize_max (length bs)), snd (write_blob E bs fs)))"
  using stream_loop_payload [of r "[]" 0]
  by (auto simp: write_blob_stream_def write_blob_def write_once_atomic_def Let_def split: option.split)

lemma store_step_spec:
  assumes "faithful_mmap E"
  shows "(fst (store_step E pol op fs), files_abs (snd (store_step E pol op fs))) =
    spec_step E op (files_abs fs)"
proof -
  obtain obj blb where m: "files_abs fs = (obj, blb)" by (cases "files_abs fs")
  then have look: "obj h = fmlookup fs (object_path h)" "blb h = fmlookup fs (blob_path h)" for h
    by (auto simp: files_abs_def)
  note read = read_policy_spec [OF assms] spec_read_def look
  show ?thesis
  proof (cases op)
    case (WriteBlobStream r)
    then show ?thesis
      by (auto simp: m write_blob_stream_payload write_blob_def Let_def write_once_blob split: option.split)
  next
    case (ReadObject h)
    then show ?thesis by (auto simp: m read_object_def read split: option.split)
  next
    case (ReadBlob h)
    then show ?thesis by (auto simp: m read_blob_def read split: option.split)
  next
    case (ReadChange h)
    then show ?thesis by (auto simp: m read_change_bytes_def read split: option.split)
  next
    case (ContainsBlob h)
    then show ?thesis by (auto simp: m contains_blob_def look fmdomI dest: fmdom_notD)
  qed (auto simp: m write_object_def write_blob_def write_change_bytes_def Let_def
      write_once_object write_once_blob)
qed

text \<open>
  C1. Whatever the sequence of operations, the store on its sharded files answers as two
  independent write-once maps, one for objects and one for blobs: no two keys share a path,
  duplicates are skipped, a write under a foreign key is refused, a failed stream stores
  nothing, and a checked read never answers bytes that do not hash to the key.
\<close>

theorem object_store_refines:
  assumes "faithful_mmap E"
  shows "(fst (run_store E pol ops fs), files_abs (snd (run_store E pol ops fs))) =
    run_spec E ops (files_abs fs)"
proof (induction ops arbitrary: fs)
  case (Cons op ops)
  obtain a fs' where step: "store_step E pol op fs = (a, fs')" by fastforce
  then have "spec_step E op (files_abs fs) = (a, files_abs fs')"
    using store_step_spec [OF assms, of pol op fs] by simp
  then show ?case using step by (simp add: split_beta Let_def flip: Cons.IH)
qed simp

definition sample_env :: cas_env where
  "sample_env =
     \<lparr>ce_blake3 = (\<lambda>bs. replicate 31 0 @ [word_of_nat (length bs)]),
      ce_mmap = (\<lambda>bs. if bs = [] then None else Some bs)\<rparr>"

theorem object_store_refines_witness:
  "fst (run_store sample_env read_policy_default
     [WriteBlobStream [Chunk [5], Interrupted, Chunk [6]], ReadBlob (replicate 31 0 @ [2]),
      WriteObject (replicate 32 0) [1], ReadObject (replicate 32 0)] fmempty) =
   [Streamed (replicate 31 0 @ [2]) 2, Content [5, 6], Failed HashMismatch, Failed (CasIo NotFound)]"
proof -
  let ?ops = "[WriteBlobStream [Chunk [5], Interrupted, Chunk [6]], ReadBlob (replicate 31 0 @ [2]),
      WriteObject (replicate 32 0) [1], ReadObject (replicate 32 0)]"
  have "faithful_mmap sample_env" by (simp add: faithful_mmap_def sample_env_def)
  note r = object_store_refines [OF this, of read_policy_default ?ops fmempty]
  have "replicate 31 0 @ [1] \<noteq> replicate 32 (0 :: u8)" by (simp add: numeral_eq_Suc)
  then have "fst (run_spec sample_env ?ops (files_abs fmempty)) =
    [Streamed (replicate 31 0 @ [2]) 2, Content [5, 6], Failed HashMismatch, Failed (CasIo NotFound)]"
    by (simp add: files_abs_def sample_env_def put_once_def spec_read_def usize_max_def)
  then show ?thesis unfolding r [symmetric] by simp
qed

section \<open>Reads through a cache\<close>

text \<open>Every blob read of the sequence goes through the cache, as \<^verbatim>\<open>read_blob_cached\<close> does.\<close>

fun run_store_cached ::
  "('c \<Rightarrow> blake3_hash \<Rightarrow> (bytes option \<times> 'c) option) \<Rightarrow> ('c \<Rightarrow> blake3_hash \<Rightarrow> bytes \<Rightarrow> 'c option) \<Rightarrow>
   cas_env \<Rightarrow> cas_read_policy \<Rightarrow> cache_policy \<Rightarrow> store_op list \<Rightarrow> cas_files \<Rightarrow> 'c \<Rightarrow>
   (store_answer list \<times> cas_files) option" where
  "run_store_cached get put E pol policy [] fs c = Some ([], fs)"
| "run_store_cached get put E pol policy (op # ops) fs c =
     (case op of
        ReadBlob h \<Rightarrow>
          (case read_blob_cached get put E pol policy h fs c of
             None \<Rightarrow> None
           | Some (r, c') \<Rightarrow>
               map_option (\<lambda>(as, fs'). (answer_bytes r # as, fs'))
                 (run_store_cached get put E pol policy ops fs c'))
      | _ \<Rightarrow>
          (let (a, fs') = store_step E pol op fs
           in map_option (\<lambda>(as, fs''). (a # as, fs''))
                (run_store_cached get put E pol policy ops fs' c)))"

text \<open>Blob files are never replaced, so what a read answered once it answers again.\<close>

lemma write_once_keeps:
  "fmlookup fs p = Some b \<Longrightarrow> fmlookup (snd (write_once_atomic q bs fs)) p = Some b"
  by (auto simp: write_once_atomic_def fmdom_notI intro: fmdomI)

lemma store_step_keeps:
  assumes "fmlookup fs p = Some b"
  shows "fmlookup (snd (store_step E pol op fs)) p = Some b"
proof (cases op)
  case (WriteBlobStream r)
  with assms show ?thesis
    by (auto simp: write_blob_stream_payload write_blob_def Let_def write_once_keeps split: option.split)
qed (use assms in \<open>auto simp: write_object_def write_blob_def write_change_bytes_def Let_def write_once_keeps\<close>)

lemma read_blob_stable:
  assumes "answer_bytes (read_blob E pol h fs) = Content b"
  shows "answer_bytes (read_blob E pol h (snd (store_step E pol op fs))) = Content b"
proof -
  obtain x where x: "fmlookup fs (blob_path h) = Some x"
    using assms by (cases "fmlookup fs (blob_path h)") (auto simp: read_blob_def read_cas_bytes_with_policy_def)
  with assms store_step_keeps [OF x, of E pol op] show ?thesis
    by (simp add: read_blob_def read_cas_bytes_with_policy_def)
qed

lemma read_blob_checked:
  assumes "answer_bytes (read_blob E pol h fs) = Content b"
  shows "ce_blake3 E b = h"
  using assms by (auto simp: read_blob_def read_cas_bytes_with_policy_def check_owned_def
      split: option.splits if_splits)

text \<open>A cache is coherent when each of its entries is what the store answers.\<close>

definition coherent :: "cas_env \<Rightarrow> cas_read_policy \<Rightarrow> cas_files \<Rightarrow> content_map \<Rightarrow> bool" where
  "coherent E pol fs m \<longleftrightarrow> (\<forall>k b. m k = Some b \<longrightarrow> answer_bytes (read_blob E pol k fs) = Content b)"

lemma coherent_step: "coherent E pol fs m \<Longrightarrow> coherent E pol (snd (store_step E pol op fs)) m"
  by (simp add: coherent_def read_blob_stable)

context cas_cache
begin

lemma read_blob_cached_view:
  assumes "inv c"
  obtains r c' where "read_blob_cached get put E pol policy h fs c = Some (r, c')" "inv c'"
    "answer_bytes r = (case view c h of Some b \<Rightarrow> Content b | None \<Rightarrow> answer_bytes (read_blob E pol h fs))"
    "\<And>k b. view c' k = Some b \<Longrightarrow>
       view c k = Some b \<or> (k = h \<and> answer_bytes (read_blob E pol h fs) = Content b)"
proof -
  obtain c1 where c1: "get c h = Some (view c h, c1)" "inv c1" "view c1 = view c"
    using get_cases [OF assms] by blast
  show thesis
  proof (cases "view c h")
    case (Some b)
    with c1 show thesis by (intro that [of "Inr (Owned b)" c1]) (auto simp: read_blob_cached_def)
  next
    case None
    show thesis
    proof (cases "read_blob E pol h fs")
      case (Inl e)
      with None c1 show thesis by (intro that [of "Inl e" c1]) (auto simp: read_blob_cached_def)
    next
      case (Inr x)
      obtain c2 where c2: "put c1 h (cas_deref x) = Some c2" "inv c2"
        "\<And>k' b'. view c2 k' = Some b' \<Longrightarrow> (k', b') = (h, cas_deref x) \<or> view c1 k' = Some b'"
        using put_cases [OF c1(2)] by blast
      show thesis
      proof (cases "should_cache policy (length (cas_deref x))")
        case True
        with None Inr c1 c2 show thesis by (intro that [of "Inr x" c2]) (auto simp: read_blob_cached_def)
      next
        case False
        with None Inr c1 show thesis by (intro that [of "Inr x" c1]) (auto simp: read_blob_cached_def)
      qed
    qed
  qed
qed

lemma read_blob_cached_coherent:
  assumes "inv c" "coherent E pol fs (view c)"
  obtains r c' where "read_blob_cached get put E pol policy h fs c = Some (r, c')" "inv c'"
    "answer_bytes r = answer_bytes (read_blob E pol h fs)" "coherent E pol fs (view c')"
proof -
  obtain r c' where r: "read_blob_cached get put E pol policy h fs c = Some (r, c')" "inv c'"
    "answer_bytes r = (case view c h of Some b \<Rightarrow> Content b | None \<Rightarrow> answer_bytes (read_blob E pol h fs))"
    "\<And>k b. view c' k = Some b \<Longrightarrow>
       view c k = Some b \<or> (k = h \<and> answer_bytes (read_blob E pol h fs) = Content b)"
    using read_blob_cached_view [OF assms(1)] by blast
  have "answer_bytes r = answer_bytes (read_blob E pol h fs)"
    using r(3) assms(2) by (cases "view c h") (auto simp: coherent_def)
  moreover have "coherent E pol fs (view c')"
    using r(4) assms(2) by (auto simp: coherent_def)
  ultimately show thesis using that r(1,2) by blast
qed

lemma run_store_cached_transparent:
  assumes "inv c" "coherent E pol fs (view c)"
  shows "run_store_cached get put E pol policy ops fs c = Some (run_store E pol ops fs)"
  using assms
proof (induction ops arbitrary: fs c)
  case (Cons op ops)
  show ?case
  proof (cases "\<exists>h. op = ReadBlob h")
    case True
    then obtain h where op: "op = ReadBlob h" by blast
    obtain r c' where "read_blob_cached get put E pol policy h fs c = Some (r, c')" "inv c'"
      "answer_bytes r = answer_bytes (read_blob E pol h fs)" "coherent E pol fs (view c')"
      using read_blob_cached_coherent [OF Cons.prems] by blast
    with Cons.IH [of c' fs] show ?thesis by (simp add: op split_beta Let_def)
  next
    case False
    then have "run_store_cached get put E pol policy (op # ops) fs c =
        (let (a, fs') = store_step E pol op fs
         in map_option (\<lambda>(as, fs''). (a # as, fs''))
              (run_store_cached get put E pol policy ops fs' c))"
      by (cases op) simp_all
    with Cons.IH [OF Cons.prems(1) coherent_step [OF Cons.prems(2)], of op] show ?thesis
      by (simp add: split_beta Let_def)
  qed
qed simp

text \<open>Nothing is assumed of the files here: they may be any at each read.\<close>

lemma read_blob_cached_checked:
  assumes "inv c" "\<And>k b. view c k = Some b \<Longrightarrow> ce_blake3 E b = k"
  obtains r c' where "read_blob_cached get put E pol policy h fs c = Some (r, c')" "inv c'"
    "\<And>b. answer_bytes r = Content b \<Longrightarrow> ce_blake3 E b = h"
    "\<And>k b. view c' k = Some b \<Longrightarrow> ce_blake3 E b = k"
proof -
  obtain r c' where r: "read_blob_cached get put E pol policy h fs c = Some (r, c')" "inv c'"
    "answer_bytes r = (case view c h of Some b \<Rightarrow> Content b | None \<Rightarrow> answer_bytes (read_blob E pol h fs))"
    "\<And>k b. view c' k = Some b \<Longrightarrow>
       view c k = Some b \<or> (k = h \<and> answer_bytes (read_blob E pol h fs) = Content b)"
    using read_blob_cached_view [OF assms(1)] by blast
  have "ce_blake3 E b = h" if "answer_bytes r = Content b" for b
    using that r(3) assms(2) read_blob_checked [of E pol h fs b] by (cases "view c h") auto
  moreover have "ce_blake3 E b = k" if "view c' k = Some b" for k b
    using r(4) [OF that] assms(2) read_blob_checked by blast
  ultimately show thesis using that r(1,2) by blast
qed

end

text \<open>
  Reading through any of the caches changes no answer: from any files and an empty cache,
  every sequence of operations in which the blob reads go through the weighted LRU of any capacity, the tiny
  LRU of any size or no cache, under any admission policy, runs without a panic and answers
  what the uncached store answers.
\<close>

theorem cached_store_transparent:
  "run_store_cached weighted_get weighted_put E pol policy ops fs (weighted_new cap) =
     Some (run_store E pol ops fs) \<and>
   run_store_cached tiny_get tiny_put E pol policy ops fs (tiny_default n) =
     Some (run_store E pol ops fs) \<and>
   run_store_cached no_cache_get no_cache_put E pol policy ops fs () =
     Some (run_store E pol ops fs)"
proof (intro conjI)
  have "\<exists>es. wl_rel (weighted_new cap) es" using wl_rel_weighted_new by blast
  then show "run_store_cached weighted_get weighted_put E pol policy ops fs (weighted_new cap) =
      Some (run_store E pol ops fs)"
    by (rule weighted_lru.run_store_cached_transparent)
      (simp add: coherent_def weighted_view_rel [OF wl_rel_weighted_new])
  have "\<exists>xs. tiny_wf (tiny_default n) xs" using tiny_default_wf by blast
  then show "run_store_cached tiny_get tiny_put E pol policy ops fs (tiny_default n) =
      Some (run_store E pol ops fs)"
    by (rule tiny_lru.run_store_cached_transparent)
      (simp add: coherent_def tiny_view_wf [OF tiny_default_wf])
  show "run_store_cached no_cache_get no_cache_put E pol policy ops fs () = Some (run_store E pol ops fs)"
    by (rule no_cache.run_store_cached_transparent) (simp_all add: coherent_def)
qed

section \<open>Reads of damaged files\<close>

text \<open>A sequence of cached reads, each on the files as they are at that moment.\<close>

fun run_reads ::
  "('c \<Rightarrow> blake3_hash \<Rightarrow> (bytes option \<times> 'c) option) \<Rightarrow> ('c \<Rightarrow> blake3_hash \<Rightarrow> bytes \<Rightarrow> 'c option) \<Rightarrow>
   cas_env \<Rightarrow> cas_read_policy \<Rightarrow> cache_policy \<Rightarrow> (cas_files \<times> blake3_hash) list \<Rightarrow> 'c \<Rightarrow>
   store_answer list option" where
  "run_reads get put E pol policy [] c = Some []"
| "run_reads get put E pol policy ((fs, h) # reads) c =
     (case read_blob_cached get put E pol policy h fs c of
        None \<Rightarrow> None
      | Some (r, c') \<Rightarrow>
          map_option (\<lambda>as. answer_bytes r # as) (run_reads get put E pol policy reads c'))"

text \<open>The answers a reader may see: an error, or bytes that hash to the key asked for.\<close>

fun genuine :: "cas_env \<Rightarrow> blake3_hash \<Rightarrow> store_answer \<Rightarrow> bool" where
  "genuine E h (Content b) = (ce_blake3 E b = h)"
| "genuine E h (Failed e) = True"
| "genuine E h _ = False"

context cas_cache
begin

lemma run_reads_genuine:
  assumes "inv c" "\<And>k b. view c k = Some b \<Longrightarrow> ce_blake3 E b = k"
  shows "\<exists>as. run_reads get put E pol policy reads c = Some as \<and>
    list_all2 (genuine E) (List.map snd reads) as"
  using assms
proof (induction reads arbitrary: c)
  case (Cons rd reads)
  obtain fs h where rd: "rd = (fs, h)" by fastforce
  obtain r c' where r: "read_blob_cached get put E pol policy h fs c = Some (r, c')" "inv c'"
    "\<And>b. answer_bytes r = Content b \<Longrightarrow> ce_blake3 E b = h"
    "\<And>k b. view c' k = Some b \<Longrightarrow> ce_blake3 E b = k"
    using read_blob_cached_checked [OF Cons.prems] by blast
  have "genuine E h (answer_bytes r)" using r(3) by (cases r) auto
  with Cons.IH [OF r(2,4)] r(1) show ?case by (auto simp: rd)
qed simp

end

text \<open>
  Even if the files change arbitrarily between reads (damage, truncation, another writer),
  each blob read through a cache answers an error or bytes that hash to the key.
\<close>

theorem cached_reads_genuine:
  "(\<exists>as. run_reads weighted_get weighted_put E pol policy reads (weighted_new cap) = Some as \<and>
      list_all2 (genuine E) (List.map snd reads) as) \<and>
   (\<exists>as. run_reads tiny_get tiny_put E pol policy reads (tiny_default n) = Some as \<and>
      list_all2 (genuine E) (List.map snd reads) as)"
proof
  have "\<exists>es. wl_rel (weighted_new cap) es" using wl_rel_weighted_new by blast
  then show "\<exists>as. run_reads weighted_get weighted_put E pol policy reads (weighted_new cap) = Some as \<and>
      list_all2 (genuine E) (List.map snd reads) as"
    by (rule weighted_lru.run_reads_genuine) (simp add: weighted_view_rel [OF wl_rel_weighted_new])
  have "\<exists>xs. tiny_wf (tiny_default n) xs" using tiny_default_wf by blast
  then show "\<exists>as. run_reads tiny_get tiny_put E pol policy reads (tiny_default n) = Some as \<and>
      list_all2 (genuine E) (List.map snd reads) as"
    by (rule tiny_lru.run_reads_genuine) (simp add: tiny_view_wf [OF tiny_default_wf])
qed

end
