(* ===== verification/Publish.thy ===== *)
theory Publish
  imports Cas
begin

text \<open>
  Publication of a file in the object store (\<^verbatim>\<open>write_once_atomic\<close> and
  \<^verbatim>\<open>create_unique_temp_path\<close> of \<^verbatim>\<open>arc-store-cas/src/cas.rs\<close>) as the file operations it is made
  of, run by any number of writers in any order, with any operation failing.  A crashed writer
  is one that takes no further step, so what holds of every reachable state holds after a crash.
\<close>

section \<open>One writer\<close>

datatype io_kind = AlreadyExists | PermissionDenied | OtherIo

text \<open>Why a publication fails: an operation of the system, or no free temporary name.\<close>

datatype publish_error = PublishIo io_kind | TempNamesExhausted | WriteZero

text \<open>Where a writer is; \<open>Trying n\<close> has tried \<open>n\<close> names, \<open>Writing t n\<close> has written \<open>n\<close> bytes.\<close>

datatype writer_pc =
    Entered
  | NotPresent
  | Trying nat
  | Named cas_path
  | Writing cas_path nat
  | Synced cas_path
  | Renamed
  | Returned bool
  | Errored publish_error

record writer =
  w_pid :: nat
  w_path :: cas_path
  w_bytes :: bytes
  w_pc :: writer_pc

text \<open>
  The outcome of the next file operation: it succeeds (with the clock reading or the number of
  bytes written), or fails, and then the removal of the temporary file, if the code attempts
  one, may fail too.
\<close>

datatype io_outcome = IoOk nat | IoErr io_kind bool

definition temp_attempts :: nat where
  "temp_attempts = 16"

text \<open>\<^verbatim>\<open>format!(".{base}.tmp-{pid}-{nanos}-{tick}")\<close> next to the target.\<close>

definition temp_path :: "cas_path \<Rightarrow> nat \<Rightarrow> nat \<Rightarrow> nat \<Rightarrow> cas_path" where
  "temp_path path pid nanos tick =
     butlast path @ [''.'' @ last path @ ''.tmp-'' @ nat_dec pid @ ''-'' @ nat_dec nanos @ ''-'' @ nat_dec tick]"

definition remove_temp :: "bool \<Rightarrow> cas_path \<Rightarrow> cas_files \<Rightarrow> cas_files" where
  "remove_temp removed tmp fs = (if removed then fmdrop tmp fs else fs)"

text \<open>A rename replaces what is at the target.\<close>

definition rename :: "cas_path \<Rightarrow> cas_path \<Rightarrow> cas_files \<Rightarrow> cas_files" where
  "rename tmp path fs =
     (case fmlookup fs tmp of None \<Rightarrow> fs | Some content \<Rightarrow> fmupd path content (fmdrop tmp fs))"

text \<open>
  The counter of temporary names is per process.  \<^const>\<open>None\<close>: the writer has returned, or the
  outcome is impossible (an \<open>AlreadyExists\<close> while nothing is there).
\<close>

fun writer_step ::
  "io_outcome \<Rightarrow> writer \<Rightarrow> cas_files \<Rightarrow> (nat \<Rightarrow> nat) \<Rightarrow> (writer_pc \<times> cas_files \<times> (nat \<Rightarrow> nat)) option" where
  "writer_step ev w fs ticks =
     (case w_pc w of
        Entered \<Rightarrow> Some (if w_path w |\<in>| fmdom fs then Returned False else NotPresent, fs, ticks)
      | NotPresent \<Rightarrow>
          (case ev of
             IoOk _ \<Rightarrow> Some (Trying 0, fs, ticks)
           | IoErr e _ \<Rightarrow> Some (Errored (PublishIo e), fs, ticks))
      | Trying n \<Rightarrow>
          if n < temp_attempts
          then (case ev of
                  IoOk nanos \<Rightarrow>
                    (let tick = ticks (w_pid w);
                         candidate = temp_path (w_path w) (w_pid w) nanos tick
                     in Some (if candidate |\<in>| fmdom fs then Trying (Suc n) else Named candidate,
                              fs, ticks(w_pid w := Suc tick)))
                | IoErr _ _ \<Rightarrow> None)
          else Some (Errored TempNamesExhausted, fs, ticks)
      | Named tmp \<Rightarrow>
          (case ev of
             IoOk _ \<Rightarrow>
               if tmp |\<in>| fmdom fs then Some (Errored (PublishIo AlreadyExists), fs, ticks)
               else Some (Writing tmp 0, fmupd tmp [] fs, ticks)
           | IoErr e _ \<Rightarrow> Some (Errored (PublishIo e), fs, ticks))
      | Writing tmp n \<Rightarrow>
          (case ev of
             IoOk k \<Rightarrow>
               if n < length (w_bytes w)
               then if k = 0 then Some (Errored WriteZero, fs, ticks)
                    else (let m = min (n + k) (length (w_bytes w))
                          in Some (Writing tmp m, fmupd tmp (take m (w_bytes w)) fs, ticks))
               else Some (Synced tmp, fs, ticks)
           | IoErr e _ \<Rightarrow> Some (Errored (PublishIo e), fs, ticks))
      | Synced tmp \<Rightarrow>
          (case ev of
             IoOk _ \<Rightarrow> Some (Renamed, rename tmp (w_path w) fs, ticks)
           | IoErr e removed \<Rightarrow>
               if e = AlreadyExists \<and> w_path w |\<notin>| fmdom fs then None
               else Some (if e = AlreadyExists \<or> e = PermissionDenied \<and> w_path w |\<in>| fmdom fs
                          then Returned False else Errored (PublishIo e),
                          remove_temp removed tmp fs, ticks))
      | Renamed \<Rightarrow>
          (case ev of
             IoOk _ \<Rightarrow> Some (Returned True, fs, ticks)
           | IoErr e _ \<Rightarrow> Some (Errored (PublishIo e), fs, ticks))
      | Returned _ \<Rightarrow> None
      | Errored _ \<Rightarrow> None)"

declare writer_step.simps [simp del]

section \<open>Many writers\<close>

record pub_state =
  ps_files :: cas_files
  ps_ticks :: "nat \<Rightarrow> nat"
  ps_writers :: "writer list"

inductive pub_step :: "pub_state \<Rightarrow> pub_state \<Rightarrow> bool" where
  writer_moves:
    "i < length (ps_writers s) \<Longrightarrow>
     writer_step ev (ps_writers s ! i) (ps_files s) (ps_ticks s) = Some (pc, fs, ticks) \<Longrightarrow>
     pub_step s \<lparr>ps_files = fs, ps_ticks = ticks,
                 ps_writers = (ps_writers s)[i := (ps_writers s ! i)\<lparr>w_pc := pc\<rparr>]\<rparr>"

inductive_cases pub_stepE: "pub_step s s'"

text \<open>A temporary name is recognised by its leading dot; no key path has one.\<close>

definition is_temp :: "cas_path \<Rightarrow> bool" where
  "is_temp p \<longleftrightarrow> p \<noteq> [] \<and> take 1 (last p) = ''.''"

lemma is_temp_temp_path [simp]: "is_temp (temp_path path pid nanos tick)"
  by (simp add: is_temp_def temp_path_def)

lemma hex_digit_not_dot: "d < 16 \<Longrightarrow> hex_digit d \<noteq> CHR ''.''"
proof
  assume "d < 16" "hex_digit d = CHR ''.''"
  then have "hex_val (of_char (CHR ''.'')) = Some d" using hex_digit_val by metis
  then show False by (simp add: hex_val_def)
qed

lemma no_dot_in_hex: "CHR ''.'' \<notin> set (hash_to_hex h)"
proof (induction h)
  case (Cons b h)
  have "unat b div 16 < 16" "unat b mod 16 < 16" using unat_u8_less [of b] by auto
  with Cons hex_digit_not_dot [THEN not_sym] show ?case by (simp add: hex_byte_def)
qed simp

lemma key_paths_not_temp [simp]: "\<not> is_temp (object_path h)" "\<not> is_temp (blob_path h)"
proof -
  have "take 1 (drop n (hash_to_hex h)) \<noteq> ''.''" for n
    using no_dot_in_hex [of h] by (metis in_set_dropD in_set_takeD list.set_intros(1))
  from this [of 2] this [of 0] show "\<not> is_temp (object_path h)" "\<not> is_temp (blob_path h)"
    by (simp_all add: is_temp_def object_path_def blob_path_def hex_encode_to_hex Let_def)
qed

section \<open>The invariant of publication\<close>

text \<open>The temporary file a writer owns, with the bytes it has put there so far.\<close>

fun owned_temp :: "writer \<Rightarrow> (cas_path \<times> bytes) option" where
  "owned_temp w =
     (case w_pc w of
        Writing t n \<Rightarrow> Some (t, take n (w_bytes w))
      | Synced t \<Rightarrow> Some (t, w_bytes w)
      | _ \<Rightarrow> None)"

fun pc_ok :: "writer \<Rightarrow> cas_files \<Rightarrow> bool" where
  "pc_ok w fs =
     (case w_pc w of
        Named t \<Rightarrow> is_temp t
      | Writing t n \<Rightarrow> is_temp t \<and> n \<le> length (w_bytes w)
      | Synced t \<Rightarrow> is_temp t
      | Renamed \<Rightarrow> w_path w |\<in>| fmdom fs
      | Returned b \<Rightarrow> w_path w |\<in>| fmdom fs
      | _ \<Rightarrow> True)"

text \<open>
  \<open>good p c\<close> is what may stand at a target.  Each owned temporary holds exactly what its writer
  has written and belongs to no other writer, and every visible file that is not temporary is
  good.
\<close>

definition pub_inv :: "(cas_path \<Rightarrow> bytes \<Rightarrow> bool) \<Rightarrow> pub_state \<Rightarrow> bool" where
  "pub_inv good s \<longleftrightarrow>
     (\<forall>w \<in> set (ps_writers s). \<not> is_temp (w_path w) \<and> good (w_path w) (w_bytes w)) \<and>
     (\<forall>i < length (ps_writers s). pc_ok (ps_writers s ! i) (ps_files s)) \<and>
     (\<forall>i < length (ps_writers s). \<forall>t c. owned_temp (ps_writers s ! i) = Some (t, c) \<longrightarrow>
        fmlookup (ps_files s) t = Some c) \<and>
     (\<forall>i < length (ps_writers s). \<forall>j < length (ps_writers s). \<forall>t c c'.
        owned_temp (ps_writers s ! i) = Some (t, c) \<longrightarrow> owned_temp (ps_writers s ! j) = Some (t, c') \<longrightarrow> i = j) \<and>
     (\<forall>p c. \<not> is_temp p \<longrightarrow> fmlookup (ps_files s) p = Some c \<longrightarrow> good p c)"

text \<open>
  What a step does: it touches no visible file but its own target, which it fills with the
  whole payload, no temporary of another writer, and keeps its own in order.
\<close>

lemma writer_step_effect:
  assumes step: "writer_step ev w fs ticks = Some (pc, fs', ticks')"
    and ok: "pc_ok w fs" "\<not> is_temp (w_path w)"
    and own: "\<forall>t c. owned_temp w = Some (t, c) \<longrightarrow> fmlookup fs t = Some c"
  shows "\<not> is_temp p \<Longrightarrow>
      fmlookup fs' p = fmlookup fs p \<or> p = w_path w \<and> fmlookup fs' p = Some (w_bytes w)"
    and "fmlookup fs t = Some c \<Longrightarrow> is_temp t \<Longrightarrow> (\<forall>c'. owned_temp w \<noteq> Some (t, c')) \<Longrightarrow> fmlookup fs' t = Some c"
    and "owned_temp (w\<lparr>w_pc := pc\<rparr>) = Some (t, c) \<Longrightarrow>
      fmlookup fs' t = Some c \<and> is_temp t \<and> (fmlookup fs t = None \<or> (\<exists>c'. owned_temp w = Some (t, c')))"
    and "pc_ok (w\<lparr>w_pc := pc\<rparr>) fs'"
proof -
  note defs = writer_step.simps Let_def rename_def remove_temp_def
  note splits = if_splits io_outcome.splits option.splits
  show "\<not> is_temp p \<Longrightarrow>
      fmlookup fs' p = fmlookup fs p \<or> p = w_path w \<and> fmlookup fs' p = Some (w_bytes w)"
    using step ok own by (cases "w_pc w") (auto simp: defs split: splits)
  show "fmlookup fs t = Some c \<Longrightarrow> is_temp t \<Longrightarrow> (\<forall>c'. owned_temp w \<noteq> Some (t, c')) \<Longrightarrow> fmlookup fs' t = Some c"
    using step ok own by (cases "w_pc w") (auto simp: defs dest: fmdomI split: splits)
  show "owned_temp (w\<lparr>w_pc := pc\<rparr>) = Some (t, c) \<Longrightarrow>
      fmlookup fs' t = Some c \<and> is_temp t \<and> (fmlookup fs t = None \<or> (\<exists>c'. owned_temp w = Some (t, c')))"
    using step ok own by (cases "w_pc w") (auto simp: defs dest: fmdom_notD split: splits)
  show "pc_ok (w\<lparr>w_pc := pc\<rparr>) fs'"
    using step ok own by (cases "w_pc w") (auto simp: defs split: splits)
qed

lemma pub_invD:
  assumes "pub_inv good s" "i < length (ps_writers s)"
  shows "\<not> is_temp (w_path (ps_writers s ! i))" "good (w_path (ps_writers s ! i)) (w_bytes (ps_writers s ! i))"
    "pc_ok (ps_writers s ! i) (ps_files s)"
    "\<forall>t c. owned_temp (ps_writers s ! i) = Some (t, c) \<longrightarrow> fmlookup (ps_files s) t = Some c"
    "owned_temp (ps_writers s ! i) = Some (t, c) \<Longrightarrow> is_temp t"
proof -
  show p: "pc_ok (ps_writers s ! i) (ps_files s)" using assms by (simp add: pub_inv_def)
  then show "owned_temp (ps_writers s ! i) = Some (t, c) \<Longrightarrow> is_temp t"
    by (auto split: writer_pc.splits)
qed (use assms in \<open>auto simp: pub_inv_def\<close>)

lemma pub_inv_step:
  assumes "pub_step s s'" "pub_inv good s"
  shows "pub_inv good s'"
  using assms(1)
proof cases
  case (writer_moves i ev pc fs ticks)
  let ?w = "ps_writers s ! i" and ?w' = "(ps_writers s ! i)\<lparr>w_pc := pc\<rparr>"
  note inv = pub_invD [OF assms(2)]
  note i = writer_moves(2)
  note eff = writer_step_effect [OF writer_moves(3) inv(3) [OF i] inv(1) [OF i] inv(4) [OF i]]
  have w': "ps_writers s' ! j = (if j = i then ?w' else ps_writers s ! j)"
    if "j < length (ps_writers s)" for j
    using that i by (simp add: writer_moves(1))
  have len: "length (ps_writers s') = length (ps_writers s)" "ps_files s' = fs"
    by (simp_all add: writer_moves(1))
  have targets: "\<not> is_temp (w_path w) \<and> good (w_path w) (w_bytes w)" if "w \<in> set (ps_writers s')" for w
  proof -
    from that obtain j where "j < length (ps_writers s)" "w = ps_writers s' ! j"
      by (metis in_set_conv_nth len(1))
    with inv(1,2) w' show ?thesis by simp
  qed
  have pcs: "pc_ok (ps_writers s' ! j) fs" if j: "j < length (ps_writers s)" for j
  proof (cases "j = i")
    case True
    with eff(4) w' [OF j] show ?thesis by simp
  next
    case False
    have "p |\<in>| fmdom fs" if "\<not> is_temp p" "p |\<in>| fmdom (ps_files s)" for p
      using eff(1) [OF that(1)] that(2) by (metis fmdomI fmlookup_dom_iff)
    with inv(1,3) [OF j] False show ?thesis by (auto simp: w' [OF j] split: writer_pc.splits)
  qed
  have others: "fmlookup fs t = Some c" "\<forall>c'. owned_temp ?w' \<noteq> Some (t, c')"
    if j: "j < length (ps_writers s)" "j \<noteq> i" and t: "owned_temp (ps_writers s ! j) = Some (t, c)" for j t c
  proof -
    have look: "fmlookup (ps_files s) t = Some c" "is_temp t" using inv(4) [OF j(1)] inv(5) [OF j(1) t] t by simp_all
    have no: "\<forall>c'. owned_temp ?w \<noteq> Some (t, c')"
      using assms(2) i j t unfolding pub_inv_def by blast
    show "fmlookup fs t = Some c" by (rule eff(2) [OF look no])
    show "\<forall>c'. owned_temp ?w' \<noteq> Some (t, c')" using eff(3) [of t] look(1) no by auto
  qed
  have holds: "fmlookup fs t = Some c"
    if "j < length (ps_writers s)" "owned_temp (ps_writers s' ! j) = Some (t, c)" for j t c
    using that eff(3) others(1) w' by (cases "j = i") auto
  have unique: "j = k"
    if "j < length (ps_writers s)" "k < length (ps_writers s)"
      "owned_temp (ps_writers s' ! j) = Some (t, c)" "owned_temp (ps_writers s' ! k) = Some (t, c')" for j k t c c'
  proof (rule ccontr)
    assume "j \<noteq> k"
    then consider "j = i" "k \<noteq> i" | "j \<noteq> i" "k = i" | "j \<noteq> i" "k \<noteq> i" by blast
    then show False
    proof cases
      case 1
      with that others(2) [OF that(2) 1(2)] w' show False by auto
    next
      case 2
      with that others(2) [OF that(1) 2(1)] w' show False by auto
    next
      case 3
      with that w' assms(2) \<open>j \<noteq> k\<close> show False unfolding pub_inv_def by metis
    qed
  qed
  have visible: "good p c" if "\<not> is_temp p" "fmlookup fs p = Some c" for p c
    using eff(1) [OF that(1)] that(2) inv(2) [OF i] assms(2) that(1) unfolding pub_inv_def by force
  show ?thesis
    unfolding pub_inv_def len using targets pcs holds unique visible by blast
qed

text \<open>The start: writers about to publish, on files whose targets are already good.\<close>

definition pub_start :: "(cas_path \<Rightarrow> bytes \<Rightarrow> bool) \<Rightarrow> pub_state \<Rightarrow> bool" where
  "pub_start good s \<longleftrightarrow>
     (\<forall>w \<in> set (ps_writers s). w_pc w = Entered \<and> \<not> is_temp (w_path w) \<and> good (w_path w) (w_bytes w)) \<and>
     (\<forall>p c. \<not> is_temp p \<longrightarrow> fmlookup (ps_files s) p = Some c \<longrightarrow> good p c)"

lemma pub_start_inv: "pub_start good s \<Longrightarrow> pub_inv good s"
  by (auto simp: pub_start_def pub_inv_def)

lemma pub_inv_reachable:
  assumes "pub_step\<^sup>*\<^sup>* s s'" "pub_inv good s"
  shows "pub_inv good s'"
  using assms by (induction rule: rtranclp_induct) (auto intro: pub_inv_step)

text \<open>Targets stay visible once they are.\<close>

lemma pub_step_keeps:
  assumes "pub_step s s'" "pub_inv good s" "\<not> is_temp p" "p |\<in>| fmdom (ps_files s)"
  shows "p |\<in>| fmdom (ps_files s')"
  using assms(1)
proof cases
  case (writer_moves i ev pc fs ticks)
  note inv = pub_invD [OF assms(2) writer_moves(2)]
  show ?thesis
    using writer_step_effect(1) [OF writer_moves(3) inv(3,1,4) assms(3)] assms(4)
    by (simp add: writer_moves(1)) (metis fmdomI fmlookup_dom_iff)
qed

lemma reachable_keeps:
  assumes "pub_step\<^sup>*\<^sup>* s s'" "pub_inv good s" "\<not> is_temp p" "p |\<in>| fmdom (ps_files s)"
  shows "p |\<in>| fmdom (ps_files s')"
  using assms
proof (induction rule: rtranclp_induct)
  case (step y z)
  with pub_inv_reachable [OF step.hyps(1) step.prems(1)] show ?case by (metis pub_step_keeps)
qed simp

section \<open>Schedules\<close>

text \<open>A given interleaving: which writer moves, and how its operation ends.\<close>

fun run_schedule :: "(nat \<times> io_outcome) list \<Rightarrow> pub_state \<Rightarrow> pub_state option" where
  "run_schedule [] s = Some s"
| "run_schedule ((i, ev) # rest) s =
     (if i < length (ps_writers s)
      then (case writer_step ev (ps_writers s ! i) (ps_files s) (ps_ticks s) of
              None \<Rightarrow> None
            | Some (pc, fs, ticks) \<Rightarrow>
                run_schedule rest
                  \<lparr>ps_files = fs, ps_ticks = ticks,
                   ps_writers = (ps_writers s)[i := (ps_writers s ! i)\<lparr>w_pc := pc\<rparr>]\<rparr>)
      else None)"

lemma run_schedule_steps: "run_schedule sch s = Some s' \<Longrightarrow> (pub_step ^^ length sch) s s'"
proof (induction sch arbitrary: s)
  case (Cons x sch)
  obtain i ev where x: "x = (i, ev)" by fastforce
  from Cons.prems obtain pc fs ticks where step: "i < length (ps_writers s)"
    "writer_step ev (ps_writers s ! i) (ps_files s) (ps_ticks s) = Some (pc, fs, ticks)"
    and rest: "run_schedule sch \<lparr>ps_files = fs, ps_ticks = ticks,
      ps_writers = (ps_writers s)[i := (ps_writers s ! i)\<lparr>w_pc := pc\<rparr>]\<rparr> = Some s'"
    by (auto simp: x split: if_splits option.splits)
  show ?case using relpowp_Suc_I2 [OF pub_step.intros [OF step] Cons.IH [OF rest]] by simp
qed simp

lemma run_schedule_reaches: "run_schedule sch s = Some s' \<Longrightarrow> pub_step\<^sup>*\<^sup>* s s'"
  by (rule relpowp_imp_rtranclp [OF run_schedule_steps])

section \<open>Properties of publication\<close>

text \<open>A key path with content that hashes to its key.\<close>

definition addressed :: "cas_env \<Rightarrow> cas_path \<Rightarrow> bytes \<Rightarrow> bool" where
  "addressed E p c \<longleftrightarrow> (\<forall>h. p = blob_path h \<or> p = object_path h \<longrightarrow> ce_blake3 E c = h)"

text \<open>The writers that \<^verbatim>\<open>write_blob\<close> and \<^verbatim>\<open>write_object\<close> (after its key check) start.\<close>

definition blob_writer :: "cas_env \<Rightarrow> nat \<Rightarrow> bytes \<Rightarrow> writer" where
  "blob_writer E pid bs =
     \<lparr>w_pid = pid, w_path = blob_path (ce_blake3 E bs), w_bytes = bs, w_pc = Entered\<rparr>"

definition object_writer :: "cas_env \<Rightarrow> nat \<Rightarrow> bytes \<Rightarrow> writer" where
  "object_writer E pid bs =
     \<lparr>w_pid = pid, w_path = object_path (ce_blake3 E bs), w_bytes = bs, w_pc = Entered\<rparr>"

definition reports_stored :: "writer_pc \<Rightarrow> bool" where
  "reports_stored pc \<longleftrightarrow> pc = Returned True \<or> pc = Returned False"


text \<open>A bound on the steps a writer has left.\<close>

definition steps_left :: "writer \<Rightarrow> nat" where
  "steps_left w =
     (case w_pc w of
        Entered \<Rightarrow> 7 + temp_attempts + length (w_bytes w)
      | NotPresent \<Rightarrow> 6 + temp_attempts + length (w_bytes w)
      | Trying n \<Rightarrow> 5 + (temp_attempts - n) + length (w_bytes w)
      | Named t \<Rightarrow> 4 + length (w_bytes w)
      | Writing t n \<Rightarrow> 3 + (length (w_bytes w) - n)
      | Synced t \<Rightarrow> 2
      | Renamed \<Rightarrow> 1
      | Returned b \<Rightarrow> 0
      | Errored e \<Rightarrow> 0)"

lemma steps_left_decreases:
  "writer_step ev w fs ticks = Some (pc, fs', ticks') \<Longrightarrow> steps_left (w\<lparr>w_pc := pc\<rparr>) < steps_left w"
  by (cases "w_pc w")
    (auto simp: writer_step.simps steps_left_def Let_def split: if_splits io_outcome.splits)

lemma pub_step_decreases:
  assumes "pub_step s s'"
  shows "sum_list (List.map steps_left (ps_writers s')) < sum_list (List.map steps_left (ps_writers s))"
  using assms
proof cases
  case (writer_moves i ev pc fs ticks)
  let ?ws = "List.map steps_left (ps_writers s)" and ?n = "steps_left ((ps_writers s ! i)\<lparr>w_pc := pc\<rparr>)"
  have "?n < ?ws ! i" using steps_left_decreases [OF writer_moves(3)] writer_moves(2) by simp
  moreover have "?ws ! i \<le> sum_list ?ws" using writer_moves(2) by (intro elem_le_sum_list) simp
  ultimately show ?thesis
    using sum_list_update [of i ?ws ?n] writer_moves(2) by (simp add: writer_moves(1) map_update)
qed

text \<open>
  Every run of any set of publishers ends: a writer takes at most 23 steps and one per byte
  of its payload, whatever fails and however small the partial writes are.
\<close>

theorem publish_terminates:
  assumes "(pub_step ^^ n) s s'"
  shows "n \<le> (\<Sum>w \<leftarrow> ps_writers s. 23 + length (w_bytes w))"
proof -
  have "n + sum_list (List.map steps_left (ps_writers s')) \<le> sum_list (List.map steps_left (ps_writers s))"
    using assms
  proof (induction n arbitrary: s')
    case (Suc n)
    then obtain t where "(pub_step ^^ n) s t" "pub_step t s'" by auto
    with Suc.IH [of t] pub_step_decreases [of t s'] show ?case by simp
  qed simp
  moreover have "steps_left w \<le> 23 + length (w_bytes w)" for w
    by (auto simp: steps_left_def temp_attempts_def split: writer_pc.split)
  then have "sum_list (List.map steps_left (ps_writers s)) \<le> (\<Sum>w \<leftarrow> ps_writers s. 23 + length (w_bytes w))"
    by (intro sum_list_mono)
  ultimately show ?thesis by simp
qed

text \<open>Two processes race to store the one-byte blob; the first crashes before
  its first byte is written, the second returns.\<close>

definition race_start :: pub_state where
  "race_start =
     \<lparr>ps_files = fmempty, ps_ticks = (\<lambda>_. 0),
      ps_writers = [blob_writer sample_env 1 [9], blob_writer sample_env 2 [9]]\<rparr>"

definition race_schedule :: "(nat \<times> io_outcome) list" where
  "race_schedule =
     [(0, IoOk 0), (1, IoOk 0), (0, IoOk 0), (1, IoOk 0), (0, IoOk 5), (1, IoOk 5), (0, IoOk 0),
      (1, IoOk 0), (1, IoOk 1), (1, IoOk 0), (1, IoOk 0), (1, IoOk 0)]"

lemma race_runs:
  "map_option (\<lambda>s. List.map w_pc (tl (ps_writers s))) (run_schedule race_schedule race_start) =
     Some [Returned True]"
  by code_simp


theorem publish_terminates_witness:
  "\<exists>s. (pub_step ^^ 12) race_start s \<and> 12 \<le> (\<Sum>w \<leftarrow> ps_writers race_start. 23 + length (w_bytes w))"
proof -
  obtain s where "run_schedule race_schedule race_start = Some s" using race_runs by auto
  moreover have "length race_schedule = 12" by (simp add: race_schedule_def)
  ultimately have "(pub_step ^^ 12) race_start s" using run_schedule_steps by metis
  with publish_terminates [OF this] show ?thesis by blast
qed

section \<open>A lone writer without faults\<close>

fun run_alone ::
  "nat list \<Rightarrow> writer \<Rightarrow> cas_files \<Rightarrow> (nat \<Rightarrow> nat) \<Rightarrow> writer_pc \<times> cas_files" where
  "run_alone [] w fs ticks = (w_pc w, fs)"
| "run_alone (k # ks) w fs ticks =
     (case writer_step (IoOk (Suc k)) w fs ticks of
        None \<Rightarrow> (w_pc w, fs)
      | Some (pc, fs', ticks') \<Rightarrow> run_alone ks (w\<lparr>w_pc := pc\<rparr>) fs' ticks')"

text \<open>The files along such a run, told by where the writer is.\<close>

fun alone_ok :: "cas_files \<Rightarrow> writer \<Rightarrow> cas_files \<Rightarrow> bool" where
  "alone_ok fs0 w fs =
     (case w_pc w of
        Entered \<Rightarrow> fs = fs0
      | NotPresent \<Rightarrow> fs = fs0 \<and> w_path w |\<notin>| fmdom fs0
      | Trying n \<Rightarrow> n = 0 \<and> fs = fs0 \<and> w_path w |\<notin>| fmdom fs0
      | Named t \<Rightarrow> fs = fs0 \<and> w_path w |\<notin>| fmdom fs0 \<and> is_temp t
      | Writing t n \<Rightarrow> fs = fmupd t (take n (w_bytes w)) fs0 \<and> w_path w |\<notin>| fmdom fs0 \<and> is_temp t \<and>
          n \<le> length (w_bytes w)
      | Synced t \<Rightarrow> fs = fmupd t (w_bytes w) fs0 \<and> w_path w |\<notin>| fmdom fs0 \<and> is_temp t
      | Renamed \<Rightarrow> fs = fmupd (w_path w) (w_bytes w) fs0 \<and> w_path w |\<notin>| fmdom fs0
      | Returned b \<Rightarrow> (b, fs) = write_once_atomic (w_path w) (w_bytes w) fs0
      | Errored e \<Rightarrow> False)"

lemma alone_step:
  assumes "alone_ok fs0 w fs" "\<forall>p. p |\<in>| fmdom fs0 \<longrightarrow> \<not> is_temp p" "\<forall>b. w_pc w \<noteq> Returned b"
  shows "\<exists>pc fs' ticks'. writer_step (IoOk (Suc k)) w fs ticks = Some (pc, fs', ticks') \<and>
    alone_ok fs0 (w\<lparr>w_pc := pc\<rparr>) fs' \<and> steps_left (w\<lparr>w_pc := pc\<rparr>) < steps_left w"
proof -
  have fresh: "t |\<notin>| fmdom fs0" if "is_temp t" for t using assms(2) that by blast
  have drop: "fmdrop t (fmupd t c fs0) = fs0" if "is_temp t" for t c
    using fresh [OF that] by (intro fmap_ext) (auto simp: fmdom_notD)
  have "\<exists>pc fs' ticks'. writer_step (IoOk (Suc k)) w fs ticks = Some (pc, fs', ticks') \<and>
    alone_ok fs0 (w\<lparr>w_pc := pc\<rparr>) fs'"
    using assms(1,3) fresh drop
    by (cases "w_pc w")
      (auto simp: writer_step.simps Let_def temp_attempts_def rename_def write_once_atomic_def)
  then show ?thesis using steps_left_decreases by blast
qed

lemma run_alone_returns:
  assumes "alone_ok fs0 w fs" "\<forall>p. p |\<in>| fmdom fs0 \<longrightarrow> \<not> is_temp p" "steps_left w \<le> length ks"
  shows "\<exists>b fs'. run_alone ks w fs ticks = (Returned b, fs') \<and>
    (b, fs') = write_once_atomic (w_path w) (w_bytes w) fs0"
  using assms(1,3)
proof (induction ks arbitrary: w fs ticks)
  case Nil
  then show ?case by (auto simp: steps_left_def split: writer_pc.splits)
next
  case (Cons k ks)
  show ?case
  proof (cases "\<exists>b. w_pc w = Returned b")
    case True
    with Cons.prems(1) show ?thesis by (auto simp: writer_step.simps)
  next
    case False
    then obtain pc fs' ticks' where step: "writer_step (IoOk (Suc k)) w fs ticks = Some (pc, fs', ticks')"
      "alone_ok fs0 (w\<lparr>w_pc := pc\<rparr>) fs'" "steps_left (w\<lparr>w_pc := pc\<rparr>) < steps_left w"
      using alone_step [OF Cons.prems(1) assms(2)] by blast
    with Cons.IH [OF step(2), of ticks'] Cons.prems(2) show ?thesis by auto
  qed
qed

text \<open>
  A publication that meets no fault and no other writer returns after at most
  \<open>23 + length bs\<close> operations, whatever the sizes of the partial writes, and has the effect of
  the one-step \<^const>\<open>write_once_atomic\<close> of the store: the target is written exactly when it was
  absent, and no temporary file is left.
\<close>

theorem publish_sequential:
  assumes "\<forall>p. p |\<in>| fmdom fs \<longrightarrow> \<not> is_temp p" "23 + length bs \<le> length ks"
  shows "run_alone ks \<lparr>w_pid = pid, w_path = path, w_bytes = bs, w_pc = Entered\<rparr> fs ticks =
    (Returned (fst (write_once_atomic path bs fs)), snd (write_once_atomic path bs fs))"
proof -
  let ?w = "\<lparr>w_pid = pid, w_path = path, w_bytes = bs, w_pc = Entered\<rparr>"
  have "steps_left ?w \<le> length ks" using assms(2) by (simp add: steps_left_def temp_attempts_def)
  then obtain b fs' where "run_alone ks ?w fs ticks = (Returned b, fs')"
    "(b, fs') = write_once_atomic path bs fs"
    using run_alone_returns [of fs ?w fs ks ticks] assms(1) by auto
  then show ?thesis by (metis fst_conv snd_conv)
qed

theorem publish_sequential_witness:
  "run_alone (replicate 25 0) \<lparr>w_pid = 7, w_path = blob_path [1], w_bytes = [4, 5], w_pc = Entered\<rparr>
     fmempty (\<lambda>_. 0) = (Returned True, fmupd (blob_path [1]) [4, 5] fmempty)"
  using publish_sequential [of fmempty "[4, 5]" "replicate 25 0" 7 "blob_path [1]" "\<lambda>_. 0"]
  by (simp add: write_once_atomic_def)

end
