(* ===== verification/Repository.thy ===== *)
theory Repository
  imports Commute Graph "HOL-Library.Product_Lexorder"
begin

text \<open>
  The repository facade of the command line (\<^verbatim>\<open>arc-cli/src/repo/core.rs\<close>), first part: hydration
  of the in-memory graph from the object store through the epoch map, materialisation of a
  set of heads, and amending.  What a command leaves on disk (readable changes, epoch map,
  views) is the record \<open>repo\<close> with the in-memory graph; the working directory enters as the
  delta it yields against a state.  \<^const>\<open>None\<close> is a computation that does not return, or a
  panic of the topological sort.
\<close>

record repo =
  rp_graph :: change_graph
  rp_store :: "(blake3_hash, change) fmap"
  rp_epochs :: "(blake3_hash, blake3_hash) fmap"
  rp_views :: "(string, blake3_hash fset) fmap"

datatype repo_error =
    UnreadableChange blake3_hash
  | MissingFromGraph blake3_hash
  | ReplayError apply_error
  | NoSuchView string
  | NotSingleHead nat
  | NothingToAmend
  | DirtyWorkingDirectory
  | NoOverlappingPath
  | NoConflictAtoms
  | DiffeditInProgress
  | AiChangePending
  | UnreadableFile string
  | NoStableHistory
  | NoIdentity

text \<open>\<^verbatim>\<open>Repository::open\<close>: a new command starts with an empty graph.\<close>

definition reopen :: "'r repo_scheme \<Rightarrow> 'r repo_scheme" where
  "reopen r = r\<lparr>rp_graph := graph_new\<rparr>"

section \<open>Hydration\<close>

text \<open>
  Change objects (\<^verbatim>\<open>arc-cli/src/store_compat.rs\<close>): the first write under an id wins, and a
  payload with another id than asked for is refused.
\<close>

definition read_change :: "(blake3_hash, change) fmap \<Rightarrow> blake3_hash \<Rightarrow> change option" where
  "read_change store i =
     (case fmlookup store i of
        None \<Rightarrow> None
      | Some c \<Rightarrow> if ch_id c \<noteq> i then None else Some c)"

definition write_change :: "change \<Rightarrow> (blake3_hash, change) fmap \<Rightarrow> (blake3_hash, change) fmap" where
  "write_change c store = (if ch_id c |\<in>| fmdom store then store else fmupd (ch_id c) c store)"

lemma read_change_id: "read_change store i = Some c \<Longrightarrow> ch_id c = i"
  by (simp add: read_change_def split: option.splits if_splits)

lemma read_change_stored: "read_change store i = Some c \<Longrightarrow> i |\<in>| fmdom store"
  by (auto simp: read_change_def split: option.splits intro: fmdomI)

text \<open>
  One turn of the loop over the queue.  A replaced id is redirected through the epoch map; a
  change that is not yet known is read from the store, and its unknown dependencies are queued.
\<close>

datatype hydration = Done "repo_error + change_graph" | More change_graph "blake3_hash list"

fun hydrate_step ::
  "(blake3_hash, blake3_hash) fmap \<Rightarrow> (blake3_hash, change) fmap \<Rightarrow> change_graph \<Rightarrow>
   blake3_hash list \<Rightarrow> hydration" where
  "hydrate_step epochs store g [] = Done (Inr g)"
| "hydrate_step epochs store g (i # queue) =
     (case fmlookup epochs i of
        Some genesis \<Rightarrow> More g (if graph_get g genesis = None then queue @ [genesis] else queue)
      | None \<Rightarrow>
          if graph_get g i \<noteq> None then More g queue
          else (case read_change store i of
                  None \<Rightarrow> Done (Inl (UnreadableChange i))
                | Some c \<Rightarrow>
                    More (add_change g c)
                      (queue @ filter (\<lambda>d. graph_get g d = None) (sorted_list_of_fset (ch_deps c)))))"

partial_function (option) hydrate_loop ::
  "(blake3_hash, blake3_hash) fmap \<Rightarrow> (blake3_hash, change) fmap \<Rightarrow> change_graph \<Rightarrow>
   blake3_hash list \<Rightarrow> (repo_error + change_graph) option" where
  "hydrate_loop epochs store g queue =
     (case hydrate_step epochs store g queue of
        Done r \<Rightarrow> Some r
      | More g' queue' \<Rightarrow> hydrate_loop epochs store g' queue')"

declare hydrate_loop.simps [code]

definition hydrate_heads ::
  "'r repo_scheme \<Rightarrow> blake3_hash fset \<Rightarrow> (repo_error + 'r repo_scheme) option" where
  "hydrate_heads r heads =
     map_option (map_result (\<lambda>g. r\<lparr>rp_graph := g\<rparr>))
       (hydrate_loop (rp_epochs r) (rp_store r) (rp_graph r) (sorted_list_of_fset heads))"

definition hydrate :: "'r repo_scheme \<Rightarrow> string \<Rightarrow> (repo_error + 'r repo_scheme) option" where
  "hydrate r view_name =
     (case fmlookup (rp_views r) view_name of
        None \<Rightarrow> Some (Inl (NoSuchView view_name))
      | Some heads \<Rightarrow> hydrate_heads r heads)"

section \<open>Materialisation\<close>

fun replay_order ::
  "'x replay_env_scheme \<Rightarrow> change_graph \<Rightarrow> blake3_hash list \<Rightarrow> materialized_state \<Rightarrow>
   repo_error + materialized_state" where
  "replay_order env g [] st = Inr st"
| "replay_order env g (i # order) st =
     (case graph_get g i of
        None \<Rightarrow> Inl (MissingFromGraph i)
      | Some c \<Rightarrow>
          (case apply_change env c st None of
             (st', bl, Some e) \<Rightarrow> Inl (ReplayError e)
           | (st', bl, None) \<Rightarrow> replay_order env g order st'))"

definition materialize_heads ::
  "'x replay_env_scheme \<Rightarrow> change_graph \<Rightarrow> blake3_hash fset \<Rightarrow>
   (repo_error + materialized_state) option" where
  "materialize_heads env g heads =
     map_option (\<lambda>order. replay_order env g order Map.empty) (topological_sort g heads)"

definition materialize ::
  "'x replay_env_scheme \<Rightarrow> 'r repo_scheme \<Rightarrow> string \<Rightarrow> (repo_error + materialized_state) option" where
  "materialize env r view_name =
     (case fmlookup (rp_views r) view_name of
        None \<Rightarrow> Some (Inl (NoSuchView view_name))
      | Some heads \<Rightarrow> materialize_heads env (rp_graph r) heads)"

section \<open>What hydration reads\<close>

text \<open>The ids a queued id leads to: its replacement, or the dependencies of its change.\<close>

definition leads_to ::
  "(blake3_hash, blake3_hash) fmap \<Rightarrow> (blake3_hash, change) fmap \<Rightarrow> (blake3_hash \<times> blake3_hash) set" where
  "leads_to epochs store =
     {(i, j). fmlookup epochs i = Some j \<or>
              fmlookup epochs i = None \<and> (\<exists>c. read_change store i = Some c \<and> j |\<in>| ch_deps c)}"

text \<open>The redirections of the epoch map, from the replacement to the replaced id.\<close>

definition replaces :: "(blake3_hash, blake3_hash) fmap \<Rightarrow> (blake3_hash \<times> blake3_hash) set" where
  "replaces epochs = {(b, a). fmlookup epochs a = Some b}"

definition epoch_rank :: "(blake3_hash, blake3_hash) fmap \<Rightarrow> blake3_hash \<Rightarrow> nat" where
  "epoch_rank epochs i = card {b. (b, i) \<in> (replaces epochs)\<^sup>+}"

lemma finite_replaces: "finite (replaces epochs)"
proof -
  have "replaces epochs \<subseteq> fset (fmran epochs) \<times> fset (fmdom epochs)"
    by (auto simp: replaces_def fmranI intro: fmdomI)
  then show ?thesis by (rule finite_subset) simp
qed

lemma epoch_rank_less:
  assumes "acyclic (replaces epochs)" "fmlookup epochs i = Some j"
  shows "epoch_rank epochs j < epoch_rank epochs i"
proof -
  let ?R = "replaces epochs"
  have ji: "(j, i) \<in> ?R" using assms(2) by (simp add: replaces_def)
  have "{b. (b, i) \<in> ?R\<^sup>+} \<subseteq> fst ` (?R\<^sup>+)" by force
  then have "finite {b. (b, i) \<in> ?R\<^sup>+}"
    using finite_replaces [of epochs] by (meson finite_imageI finite_subset finite_trancl)
  moreover have "{b. (b, j) \<in> ?R\<^sup>+} \<subset> {b. (b, i) \<in> ?R\<^sup>+}"
  proof
    show "{b. (b, j) \<in> ?R\<^sup>+} \<subseteq> {b. (b, i) \<in> ?R\<^sup>+}" using ji by (auto intro: trancl_into_trancl)
    have "j \<in> {b. (b, i) \<in> ?R\<^sup>+}" "j \<notin> {b. (b, j) \<in> ?R\<^sup>+}"
      using ji assms(1) by (auto simp: acyclic_def)
    then show "{b. (b, j) \<in> ?R\<^sup>+} \<noteq> {b. (b, i) \<in> ?R\<^sup>+}" by blast
  qed
  ultimately show ?thesis unfolding epoch_rank_def by (rule psubset_card_mono)
qed

text \<open>
  The state of the loop: \<open>V\<close> are the ids taken off the queue.  What they lead to is known or
  queued, the graph is consistent and holds exactly the stored changes among them.
\<close>

definition hydrating ::
  "(blake3_hash, blake3_hash) fmap \<Rightarrow> (blake3_hash, change) fmap \<Rightarrow> blake3_hash set \<Rightarrow>
   blake3_hash set \<Rightarrow> change_graph \<Rightarrow> blake3_hash set \<Rightarrow> bool" where
  "hydrating epochs store H V g W \<longleftrightarrow>
     expanded (leads_to epochs store) V W \<and> H \<subseteq> V \<union> W \<and>
     V \<union> W \<subseteq> (leads_to epochs store)\<^sup>* `` H \<and> wf_graph g \<and>
     (\<forall>i. graph_get g i = (if i \<in> V \<and> fmlookup epochs i = None then read_change store i else None)) \<and>
     (\<forall>i \<in> V. fmlookup epochs i = None \<longrightarrow> read_change store i \<noteq> None)"

lemma graph_get_new [simp]: "graph_get graph_new i = None"
  by (simp add: graph_get_def graph_new_def)

lemma hydrating_init: "hydrating epochs store (fset heads) {} graph_new (fset heads)"
  by (simp add: hydrating_def expanded_def wf_graph_new) auto

lemma leads_to_replaced: "fmlookup epochs i = Some j \<Longrightarrow> (i, k) \<in> leads_to epochs store \<longleftrightarrow> k = j"
  by (auto simp: leads_to_def)

lemma leads_to_stored:
  "fmlookup epochs i = None \<Longrightarrow> read_change store i = Some c \<Longrightarrow>
   (i, k) \<in> leads_to epochs store \<longleftrightarrow> k |\<in>| ch_deps c"
  by (auto simp: leads_to_def)

lemma hydrating_graph:
  assumes "hydrating epochs store H V g W" "graph_get g i = Some c"
  shows "i \<in> V" "fmlookup epochs i = None" "read_change store i = Some c"
  using assms by (auto simp: hydrating_def split: if_splits)

lemma hydrating_extend:
  assumes h: "hydrating epochs store H V g (set (i # queue))"
    and step: "hydrate_step epochs store g (i # queue) = More g' queue'"
  shows "hydrating epochs store H (insert i V) g' (set queue')"
proof -
  let ?R = "leads_to epochs store"
  have i: "i \<in> ?R\<^sup>* `` H" and W: "V \<union> set queue \<subseteq> ?R\<^sup>* `` H" using h by (auto simp: hydrating_def)
  have reach: "k \<in> ?R\<^sup>* `` H" if "(i, k) \<in> ?R" for k
    using i that by (auto intro: rtrancl_into_rtrancl)
  have base: "expanded ?R V (set (i # queue))" "H \<subseteq> V \<union> set (i # queue)" "wf_graph g"
    "\<And>k. graph_get g k = (if k \<in> V \<and> fmlookup epochs k = None then read_change store k else None)"
    "\<And>k. k \<in> V \<Longrightarrow> fmlookup epochs k = None \<Longrightarrow> read_change store k \<noteq> None"
    using h by (auto simp: hydrating_def)
  show ?thesis
  proof (cases "fmlookup epochs i")
    case (Some j)
    with step have g': "g' = g" and q: "queue' = (if graph_get g j = None then queue @ [j] else queue)" by auto
    have "j \<in> V \<union> set queue'" using hydrating_graph(1) [OF h, of j] by (cases "graph_get g j") (auto simp: q)
    moreover have "\<And>k. (i, k) \<in> ?R \<Longrightarrow> k = j" using Some leads_to_replaced by blast
    ultimately have "expanded ?R (insert i V) (set queue')"
      using base(1) by (auto simp: expanded_def q)
    moreover have "set queue' \<subseteq> ?R\<^sup>* `` H"
      using W reach [of j] Some by (auto simp: q leads_to_replaced)
    ultimately show ?thesis
      using base W i Some by (auto simp: hydrating_def g' q)
  next
    case None
    show ?thesis
    proof (cases "graph_get g i")
      case (Some c)
      with step None have "g' = g" "queue' = queue" by auto
      moreover have "i \<in> V" by (rule hydrating_graph(1) [OF h Some])
      ultimately show ?thesis using base W i
        by (auto simp: hydrating_def expanded_def insert_absorb)
    next
      case new: None
      from step None new obtain c where c: "read_change store i = Some c" and g': "g' = add_change g c"
        and q: "queue' = queue @ filter (\<lambda>d. graph_get g d = None) (sorted_list_of_fset (ch_deps c))"
        by (cases "read_change store i") auto
      have id: "ch_id c = i" by (rule read_change_id [OF c])
      have get': "graph_get g' k = (if k = i then Some c else graph_get g k)" for k
        by (simp add: g' graph_get_add id)
      have deps: "k \<in> V \<union> set queue'" if "(i, k) \<in> ?R" for k
      proof -
        have "k |\<in>| ch_deps c" using that by (simp add: leads_to_stored [OF None c])
        then show ?thesis using hydrating_graph(1) [OF h, of k] by (cases "graph_get g k") (auto simp: q)
      qed
      have "set queue' \<subseteq> ?R\<^sup>* `` H"
        using W reach by (auto simp: q leads_to_stored [OF None c])
      moreover have "expanded ?R (insert i V) (set queue')"
        using base(1) deps by (auto simp: expanded_def q)
      moreover have "wf_graph g'"
        unfolding g' by (rule wf_add_fresh [OF base(3)]) (simp add: id new)
      moreover have "graph_get g' k =
          (if k \<in> insert i V \<and> fmlookup epochs k = None then read_change store k else None)" for k
        using None c base(4) [of k] by (auto simp: get')
      ultimately show ?thesis using base W i c None
        by (auto simp: hydrating_def q)
    qed
  qed
qed

text \<open>Progress: fewer unread changes, or the same and less redirection left in the queue.\<close>

definition unread :: "(blake3_hash, change) fmap \<Rightarrow> change_graph \<Rightarrow> nat" where
  "unread store g = card {i. read_change store i \<noteq> None \<and> graph_get g i = None}"

definition queue_weight :: "(blake3_hash, blake3_hash) fmap \<Rightarrow> blake3_hash list \<Rightarrow> nat" where
  "queue_weight epochs queue = (\<Sum>i \<leftarrow> queue. Suc (epoch_rank epochs i))"

lemma finite_stored: "finite {i. read_change store i \<noteq> None \<and> P i}"
  by (rule finite_subset [of _ "fset (fmdom store)"]) (auto dest: read_change_stored)

lemma hydrate_step_progress:
  assumes "acyclic (replaces epochs)"
    and step: "hydrate_step epochs store g (i # queue) = More g' queue'"
  shows "(unread store g', queue_weight epochs queue') <
    (unread store g, queue_weight epochs (i # queue))"
proof (cases "fmlookup epochs i")
  case (Some j)
  with step epoch_rank_less [OF assms(1) Some] show ?thesis
    by (auto simp: queue_weight_def split: if_splits)
next
  case None
  show ?thesis
  proof (cases "graph_get g i")
    case (Some c)
    with step None show ?thesis by (auto simp: queue_weight_def)
  next
    case new: None
    from step None new obtain c where c: "read_change store i = Some c" "g' = add_change g c"
      by (cases "read_change store i") auto
    then have get': "graph_get g' k = (if k = i then Some c else graph_get g k)" for k
      using read_change_id [OF c(1)] by (simp add: graph_get_add)
    have "{k. read_change store k \<noteq> None \<and> graph_get g' k = None} \<subset>
        {k. read_change store k \<noteq> None \<and> graph_get g k = None}"
      using c(1) new by (auto simp: get')
    then have "unread store g' < unread store g"
      unfolding unread_def by (rule psubset_card_mono [OF finite_stored])
    then show ?thesis by simp
  qed
qed

lemma hydrate_loop_result:
  assumes "acyclic (replaces epochs)" "hydrating epochs store H V g (set queue)"
  shows "\<exists>r. hydrate_loop epochs store g queue = Some r \<and>
    (case r of
       Inr g' \<Rightarrow> \<exists>V'. hydrating epochs store H V' g' {}
     | Inl e \<Rightarrow> \<exists>i. e = UnreadableChange i \<and> i \<in> (leads_to epochs store)\<^sup>* `` H \<and>
         fmlookup epochs i = None \<and> read_change store i = None)"
  using assms(2)
proof (induction "(unread store g, queue_weight epochs queue)" arbitrary: V g queue rule: less_induct)
  case less
  show ?case
  proof (cases queue)
    case Nil
    with less.prems show ?thesis by (subst hydrate_loop.simps) auto
  next
    case (Cons i rest)
    show ?thesis
    proof (cases "hydrate_step epochs store g queue")
      case (Done r)
      then have "r = Inl (UnreadableChange i)" "fmlookup epochs i = None" "read_change store i = None"
        by (auto simp: Cons split: option.splits if_splits)
      moreover have "i \<in> (leads_to epochs store)\<^sup>* `` H"
        using less.prems by (auto simp: Cons hydrating_def)
      ultimately show ?thesis by (subst hydrate_loop.simps) (simp add: Done)
    next
      case (More g' queue')
      have "hydrating epochs store H (insert i V) g' (set queue')"
        by (rule hydrating_extend) (use less.prems More in \<open>auto simp: Cons\<close>)
      moreover have "(unread store g', queue_weight epochs queue') < (unread store g, queue_weight epochs queue)"
        using hydrate_step_progress [OF assms(1)] More unfolding Cons by blast
      ultimately show ?thesis using less.hyps by (subst hydrate_loop.simps) (simp add: More)
    qed
  qed
qed

text \<open>
  Heads that the epoch map redirects around a cycle keep the loop going for ever: no member of
  the cycle is ever read, and the queue never empties.
\<close>

definition epoch_cycle :: "(blake3_hash, blake3_hash) fmap \<Rightarrow> blake3_hash set \<Rightarrow> bool" where
  "epoch_cycle epochs C \<longleftrightarrow> (\<forall>i \<in> C. \<exists>j \<in> C. fmlookup epochs i = Some j)"

lemma hydrate_loop_diverges:
  assumes "epoch_cycle epochs C" "\<forall>i \<in> C. graph_get g i = None" "set queue \<subseteq> C" "queue \<noteq> []"
  shows "hydrate_loop epochs store g queue = None"
proof -
  have "\<not> (epoch_cycle epochs C \<and> (\<forall>i \<in> C. graph_get g i = None) \<and> set queue \<subseteq> C \<and> queue \<noteq> [])"
    if run: "hydrate_loop epochs store g queue = Some r" for r
  proof (rule hydrate_loop.raw_induct [where P = "\<lambda>epochs _ g queue _. \<not> (epoch_cycle epochs C \<and>
      (\<forall>i \<in> C. graph_get g i = None) \<and> set queue \<subseteq> C \<and> queue \<noteq> [])", OF _ run])
    fix loop epochs store g queue r
    assume IH: "\<And>epochs store g queue r. loop epochs store g queue = Some r \<Longrightarrow>
        \<not> (epoch_cycle epochs C \<and> (\<forall>i \<in> C. graph_get g i = None) \<and> set queue \<subseteq> C \<and> queue \<noteq> [])"
      and step: "(case hydrate_step epochs store g queue of
          Done r \<Rightarrow> Some r | More g' queue' \<Rightarrow> loop epochs store g' queue') = Some r"
    show "\<not> (epoch_cycle epochs C \<and> (\<forall>i \<in> C. graph_get g i = None) \<and> set queue \<subseteq> C \<and> queue \<noteq> [])"
    proof
      assume c: "epoch_cycle epochs C \<and> (\<forall>i \<in> C. graph_get g i = None) \<and> set queue \<subseteq> C \<and> queue \<noteq> []"
      then obtain i rest where q: "queue = i # rest" "i \<in> C" by (cases queue) auto
      with c obtain j where "j \<in> C" "fmlookup epochs i = Some j" by (auto simp: epoch_cycle_def)
      with c q have "hydrate_step epochs store g queue = More g (rest @ [j])" "set (rest @ [j]) \<subseteq> C" by auto
      with IH [of epochs store g "rest @ [j]" r] step c show False by auto
    qed
  qed
  then show ?thesis using assms by (cases "hydrate_loop epochs store g queue") auto
qed

section \<open>Amending\<close>

text \<open>
  \<^verbatim>\<open>amend\<close>: \<open>delta\<close> is what the working directory adds to a state, and the identity signs the
  replacement.  The replaced id is redirected to the new one and the view follows.  The final
  projection of the new state to the working directory is not part of the result.
\<close>

definition amended_change ::
  "('sk, 'x) crypto_scheme \<Rightarrow> change \<Rightarrow> atom list \<Rightarrow> string option \<Rightarrow> author \<Rightarrow> 'sk \<Rightarrow> change" where
  "amended_change K parent delta message author sk =
     change_new K (ch_deps parent) delta
       (case message of Some m \<Rightarrow> m | None \<Rightarrow> ch_intent parent) author sk"

definition record_amend ::
  "'r repo_scheme \<Rightarrow> string \<Rightarrow> blake3_hash \<Rightarrow> change \<Rightarrow> 'r repo_scheme" where
  "record_amend r view_name old_head new_change =
     r\<lparr>rp_store := write_change new_change (rp_store r),
       rp_graph := add_change (rp_graph r) new_change,
       rp_epochs := fmupd old_head (ch_id new_change) (rp_epochs r),
       rp_views := fmupd view_name {|ch_id new_change|} (rp_views r)\<rparr>"

definition amend ::
  "('sk, 'x) crypto_scheme \<Rightarrow> 'y replay_env_scheme \<Rightarrow> 'r repo_scheme \<Rightarrow> string \<Rightarrow>
   (materialized_state \<Rightarrow> atom list) \<Rightarrow> string option \<Rightarrow> author \<Rightarrow> 'sk \<Rightarrow>
   (repo_error + blake3_hash \<times> 'r repo_scheme) option" where
  "amend K env r view_name delta message author sk =
     (case hydrate r view_name of
        None \<Rightarrow> None
      | Some (Inl e) \<Rightarrow> Some (Inl e)
      | Some (Inr r1) \<Rightarrow>
          (case fmlookup (rp_views r1) view_name of
             None \<Rightarrow> Some (Inl (NoSuchView view_name))
           | Some heads \<Rightarrow>
               if fcard heads \<noteq> 1 then Some (Inl (NotSingleHead (fcard heads)))
               else
                 (let old_head = hd (sorted_list_of_fset heads)
                  in case read_change (rp_store r1) old_head of
                       None \<Rightarrow> Some (Inl (UnreadableChange old_head))
                     | Some parent \<Rightarrow>
                         (case hydrate_heads r1 (ch_deps parent) of
                            None \<Rightarrow> None
                          | Some (Inl e) \<Rightarrow> Some (Inl e)
                          | Some (Inr r2) \<Rightarrow>
                              (case materialize_heads env (rp_graph r2) (ch_deps parent) of
                                 None \<Rightarrow> None
                               | Some (Inl e) \<Rightarrow> Some (Inl e)
                               | Some (Inr grandparent_state) \<Rightarrow>
                                   if delta grandparent_state = [] \<and> message = None
                                   then Some (Inl NothingToAmend)
                                   else
                                     (let c = amended_change K parent (delta grandparent_state) message author sk
                                      in Some (Inr (ch_id c, record_amend r2 view_name old_head c))))))))"

lemma hydrate_heads_Inr:
  "hydrate_heads r heads = Some (Inr r') \<Longrightarrow>
   rp_epochs r' = rp_epochs r \<and> rp_store r' = rp_store r \<and> rp_views r' = rp_views r"
  by (auto simp: hydrate_heads_def map_result_Inr_iff)

lemma reopen_simps [simp]:
  "rp_graph (reopen r) = graph_new" "rp_store (reopen r) = rp_store r"
  "rp_epochs (reopen r) = rp_epochs r" "rp_views (reopen r) = rp_views r"
  by (simp_all add: reopen_def)

lemma amend_effect:
  assumes "amend K env r v delta message author sk = Some (Inr (new, r'))"
  obtains old where "fmlookup (rp_views r) v = Some {|old|}" "rp_views r' = fmupd v {|new|} (rp_views r)"
    "rp_epochs r' = fmupd old new (rp_epochs r)"
proof -
  obtain r1 heads parent r2 st where step:
    "hydrate r v = Some (Inr r1)" "fmlookup (rp_views r1) v = Some heads" "fcard heads = 1"
    "read_change (rp_store r1) (hd (sorted_list_of_fset heads)) = Some parent"
    "hydrate_heads r1 (ch_deps parent) = Some (Inr r2)"
    "materialize_heads env (rp_graph r2) (ch_deps parent) = Some (Inr st)"
    and result: "new = ch_id (amended_change K parent (delta st) message author sk)"
      "r' = record_amend r2 v (hd (sorted_list_of_fset heads)) (amended_change K parent (delta st) message author sk)"
    using assms by (auto simp: amend_def Let_def split: option.splits sum.splits if_splits)
  have same: "rp_epochs r1 = rp_epochs r" "rp_views r1 = rp_views r"
    "rp_epochs r2 = rp_epochs r1" "rp_views r2 = rp_views r1"
    using step(1) hydrate_heads_Inr [OF step(5)]
    by (auto simp: hydrate_def split: option.splits dest: hydrate_heads_Inr)
  obtain old where "fset heads = {old}" using step(3) by (auto simp: fcard.rep_eq card_1_singleton_iff)
  then have "heads = {|old|}" by (metis bot_fset.rep_eq finsert.rep_eq fset_inject)
  with step(2) result same that show thesis by (simp add: record_amend_def)
qed

lemma materialize_missing:
  assumes "replay_order env g order st = Inr st'" "i \<in> set order"
  shows "graph_get g i \<noteq> None"
  using assms
  by (induction order arbitrary: st) (auto split: option.splits prod.splits)

lemma topological_sort_members:
  assumes "wf_graph g" "topological_sort g hs = Some order" "acyclic (depends g)"
  shows "set order = fset (ancestors g hs)"
  using topological_sort_inv [OF assms(1), of hs] kahn_complete [OF assms(3)] assms(2) by force

lemma hydrate_heads_loads:
  fixes heads :: "blake3_hash fset"
  assumes "acyclic (replaces (rp_epochs r))"
  defines "R \<equiv> (leads_to (rp_epochs r) (rp_store r))\<^sup>* `` fset heads"
  shows "(\<exists>i. hydrate_heads (reopen r) heads = Some (Inl (UnreadableChange i)) \<and> i \<in> R \<and>
        fmlookup (rp_epochs r) i = None \<and> read_change (rp_store r) i = None) \<or>
    (\<exists>r'. hydrate_heads (reopen r) heads = Some (Inr r') \<and> wf_graph (rp_graph r') \<and>
        (\<forall>i. graph_get (rp_graph r') i =
          (if i \<in> R \<and> fmlookup (rp_epochs r) i = None then read_change (rp_store r) i else None)) \<and>
        (\<forall>i. i \<in> R \<and> fmlookup (rp_epochs r) i = None \<longrightarrow> read_change (rp_store r) i \<noteq> None))"
proof -
  let ?L = "leads_to (rp_epochs r) (rp_store r)"
  have init: "hydrating (rp_epochs r) (rp_store r) (fset heads) {} graph_new (set (sorted_list_of_fset heads))"
    using hydrating_init by simp
  obtain res where run: "hydrate_loop (rp_epochs r) (rp_store r) graph_new (sorted_list_of_fset heads) = Some res"
    and res: "case res of
       Inr g' \<Rightarrow> \<exists>V'. hydrating (rp_epochs r) (rp_store r) (fset heads) V' g' {}
     | Inl e \<Rightarrow> \<exists>i. e = UnreadableChange i \<and> i \<in> R \<and>
         fmlookup (rp_epochs r) i = None \<and> read_change (rp_store r) i = None"
    using hydrate_loop_result [OF assms(1) init] unfolding R_def by blast
  show ?thesis
  proof (cases res)
    case (Inl e)
    with run res show ?thesis by (auto simp: hydrate_heads_def)
  next
    case (Inr g')
    then obtain V where V: "hydrating (rp_epochs r) (rp_store r) (fset heads) V g' {}" using res by auto
    have "V = R" unfolding R_def
      by (rule expanded_closed) (use V in \<open>auto simp: hydrating_def\<close>)
    with V run Inr show ?thesis by (auto simp: hydrate_heads_def hydrating_def)
  qed
qed

section \<open>Properties\<close>

text \<open>
  C4. Hydration: when no redirection of the epoch map leads back to itself, loading heads into
  an empty graph always ends.  It fails exactly when some change they lead to cannot be read,
  and otherwise yields a consistent graph that holds exactly the changes reached through
  dependencies and redirections.
\<close>

theorem hydrate_exact:
  fixes heads :: "blake3_hash fset"
  assumes "acyclic (replaces (rp_epochs r))"
  defines "R \<equiv> (leads_to (rp_epochs r) (rp_store r))\<^sup>* `` fset heads"
  shows "(\<exists>i. hydrate_heads (reopen r) heads = Some (Inl (UnreadableChange i)) \<and> i \<in> R \<and>
        fmlookup (rp_epochs r) i = None \<and> read_change (rp_store r) i = None) \<or>
    (\<exists>r'. hydrate_heads (reopen r) heads = Some (Inr r') \<and> wf_graph (rp_graph r') \<and>
        (\<forall>i. graph_get (rp_graph r') i =
          (if i \<in> R \<and> fmlookup (rp_epochs r) i = None then read_change (rp_store r) i else None)) \<and>
        (\<forall>i. i \<in> R \<and> fmlookup (rp_epochs r) i = None \<longrightarrow> read_change (rp_store r) i \<noteq> None))"
  unfolding R_def by (rule hydrate_heads_loads [OF assms(1)])

definition sample_repo :: repo where
  "sample_repo =
     \<lparr>rp_graph = graph_new,
      rp_store = fmap_of_list [([1], node 1 []), ([2], node 2 [7])],
      rp_epochs = fmap_of_list [([7], [1])],
      rp_views = fmap_of_list [(''main'', {|[2]|})]\<rparr>"

lemma acyclic_sample: "acyclic (replaces (rp_epochs sample_repo))"
proof -
  have "replaces (rp_epochs sample_repo) = {([1], [7])}"
    by (auto simp: replaces_def sample_repo_def fmlookup_of_list split: if_splits)
  then show ?thesis by (simp add: acyclic_def trancl_insert)
qed

theorem hydrate_exact_witness:
  "(\<exists>i. hydrate_heads (reopen sample_repo) {|[2]|} = Some (Inl (UnreadableChange i))) \<or>
   (\<exists>r'. hydrate_heads (reopen sample_repo) {|[2]|} = Some (Inr r') \<and> wf_graph (rp_graph r'))"
  using hydrate_exact [OF acyclic_sample, of "{|[2]|}"] by blast

text \<open>
  Amending and amending back: the id of a change depends only on its content, so a second
  amend that restores the original content (same parents, atoms, intent and author) restores
  the original id, and the epoch map then redirects the two ids to each other.  Every later
  command that hydrates the view from disk runs for ever.
\<close>

theorem amend_back_hangs:
  assumes "fmlookup (rp_views r) v = Some {|A|}"
    and "amend K env r v delta1 message1 author1 sk1 = Some (Inr (B, r1))"
    and "amend K env (reopen r1) v delta2 message2 author2 sk2 = Some (Inr (A, r2))"
  shows "hydrate (reopen r2) v = None"
proof -
  have e1: "rp_views r1 = fmupd v {|B|} (rp_views r)" "rp_epochs r1 = fmupd A B (rp_epochs r)"
    using amend_effect [OF assms(2)] assms(1) by auto
  have e2: "rp_views r2 = fmupd v {|A|} (rp_views r1)" "rp_epochs r2 = fmupd B A (rp_epochs r1)"
    using amend_effect [OF assms(3)] e1(1) by auto
  have "epoch_cycle (rp_epochs r2) {A, B}" by (auto simp: epoch_cycle_def e2 e1)
  then have "hydrate_loop (rp_epochs r2) (rp_store r2) graph_new (sorted_list_of_fset {|A|}) = None"
    by (rule hydrate_loop_diverges) simp_all
  then show ?thesis by (simp add: hydrate_def e2(1) hydrate_heads_def)
qed

text \<open>A repository with one change, amended to other content and back.\<close>

definition first_change :: change where
  "first_change = change_new toy_crypto {||} [Insert [''f''] [1]] ''m'' (Human ''n'' ''e'' [7]) [7]"

definition one_change_repo :: repo where
  "one_change_repo =
     \<lparr>rp_graph = graph_new, rp_store = fmap_of_list [(ch_id first_change, first_change)],
      rp_epochs = fmempty, rp_views = fmap_of_list [(''main'', {|ch_id first_change|})]\<rparr>"

definition other_atoms :: "materialized_state \<Rightarrow> atom list" where
  "other_atoms st = [Insert [''f''] [2], Insert [''g''] [3]]"

definition same_atoms :: "materialized_state \<Rightarrow> atom list" where
  "same_atoms st = [Insert [''f''] [1]]"

definition amend_main :: "(materialized_state \<Rightarrow> atom list) \<Rightarrow> repo \<Rightarrow> (repo_error + blake3_hash \<times> repo) option" where
  "amend_main delta r = amend toy_crypto toy_env r ''main'' delta None (Human ''n'' ''e'' [7]) [7]"

definition amended_to :: "(repo_error + blake3_hash \<times> repo) option \<Rightarrow> blake3_hash \<Rightarrow> bool" where
  "amended_to res i = (case res of Some (Inr (j, r)) \<Rightarrow> i = j | _ \<Rightarrow> False)"

lemma amended_to_repo: "amended_to res i \<Longrightarrow> \<exists>r. res = Some (Inr (i, r))"
  by (auto simp: amended_to_def split: option.splits sum.splits prod.splits)

definition other_id :: blake3_hash where
  "other_id = ch_id (amended_change toy_crypto first_change (other_atoms Map.empty) None (Human ''n'' ''e'' [7]) [7])"

lemma first_amend: "amended_to (amend_main other_atoms one_change_repo) other_id"
  by code_simp

lemma second_amend:
  "case amend_main other_atoms one_change_repo of
     Some (Inr (b, r1)) \<Rightarrow> amended_to (amend_main same_atoms (reopen r1)) (ch_id first_change)
   | _ \<Rightarrow> False"
  by code_simp

theorem amend_back_hangs_witness:
  "\<exists>B r1 r2. amend_main other_atoms one_change_repo = Some (Inr (B, r1)) \<and>
     amend_main same_atoms (reopen r1) = Some (Inr (ch_id first_change, r2)) \<and>
     hydrate (reopen r2) ''main'' = None"
proof -
  obtain r1 where r1: "amend_main other_atoms one_change_repo = Some (Inr (other_id, r1))"
    using amended_to_repo [OF first_amend] by blast
  obtain r2 where r2: "amend_main same_atoms (reopen r1) = Some (Inr (ch_id first_change, r2))"
    using amended_to_repo second_amend r1 by fastforce
  have main: "fmlookup (rp_views one_change_repo) ''main'' = Some {|ch_id first_change|}"
    by (simp add: one_change_repo_def)
  have "hydrate (reopen r2) ''main'' = None"
    by (rule amend_back_hangs [OF main r1 [unfolded amend_main_def] r2 [unfolded amend_main_def]])
  with r1 r2 show ?thesis by blast
qed

end
