(* ===== verification/Transaction.thy ===== *)
theory Transaction
  imports Ids
begin

text \<open>
  Resumable rewrite transactions (\<^verbatim>\<open>arc-transaction/src/lib.rs\<close>): the checkpoint, its
  transitions and the projection of the desired order through the recorded rewrites.
\<close>

datatype rewrite_status = InProgress | Paused string

record pending_rewrite =
  pr_version :: u32
  pr_command :: string
  pr_view :: string
  pr_before_heads :: "change_id fset"
  pr_desired_order :: "change_id list"
  pr_rewrite_map :: "(change_id, change_id) fmap"
  pr_attempts :: u32
  pr_status :: rewrite_status

definition checkpoint_version :: u32 where
  "checkpoint_version = 1"

definition new_restack :: "string \<Rightarrow> change_id fset \<Rightarrow> change_id list \<Rightarrow> pending_rewrite" where
  "new_restack view before_heads desired_order =
     \<lparr>pr_version = checkpoint_version, pr_command = ''restack'', pr_view = view,
      pr_before_heads = before_heads, pr_desired_order = desired_order,
      pr_rewrite_map = fmempty, pr_attempts = 0, pr_status = InProgress\<rparr>"

text \<open>The loop of \<^verbatim>\<open>remap_change\<close>: the hops left, the ids visited, the current id.\<close>

fun remap_loop ::
  "(change_id, change_id) fmap \<Rightarrow> nat \<Rightarrow> change_id fset \<Rightarrow> change_id \<Rightarrow> change_id" where
  "remap_loop m 0 visited i = i"
| "remap_loop m (Suc n) visited i =
     (case fmlookup m i of None \<Rightarrow> i
      | Some next \<Rightarrow>
          if next = i \<or> i |\<in>| visited then i else remap_loop m n (finsert i visited) next)"

definition remap_change :: "change_id \<Rightarrow> (change_id, change_id) fmap \<Rightarrow> change_id" where
  "remap_change i m = remap_loop m (saturating_add (fcard (fmdom m)) 1) {||} i"

definition resolved_order :: "pending_rewrite \<Rightarrow> change_id list" where
  "resolved_order p = List.map (\<lambda>i. remap_change i (pr_rewrite_map p)) (pr_desired_order p)"

definition with_attempt_incremented :: "pending_rewrite \<Rightarrow> pending_rewrite" where
  "with_attempt_incremented p =
     p\<lparr>pr_attempts := if pr_attempts p = - 1 then - 1 else pr_attempts p + 1\<rparr>"

definition with_conflict :: "pending_rewrite \<Rightarrow> string \<Rightarrow> pending_rewrite" where
  "with_conflict p message = p\<lparr>pr_status := Paused message\<rparr>"

definition clear_conflict :: "pending_rewrite \<Rightarrow> pending_rewrite" where
  "clear_conflict p = p\<lparr>pr_status := InProgress\<rparr>"

definition with_rewrite_map ::
  "pending_rewrite \<Rightarrow> (change_id, change_id) fmap \<Rightarrow> pending_rewrite" where
  "with_rewrite_map p rewrites = p\<lparr>pr_rewrite_map := pr_rewrite_map p ++\<^sub>f rewrites\<rparr>"

section \<open>Rewrite chains\<close>

text \<open>One recorded rewrite; a change mapped to itself is not rewritten.\<close>

definition rewrites_to :: "(change_id, change_id) fmap \<Rightarrow> (change_id \<times> change_id) set" where
  "rewrites_to m = {(a, b). fmlookup m a = Some b \<and> b \<noteq> a}"

lemma rewrites_to_iff [simp]: "(a, b) \<in> rewrites_to m \<longleftrightarrow> fmlookup m a = Some b \<and> b \<noteq> a"
  by (simp add: rewrites_to_def)

text \<open>
  While it runs, every visited id is in the map and leads on to the current one, and there
  are more hops left than unvisited ids.
\<close>

lemma remap_loop_ends:
  assumes "\<And>v. v |\<in>| visited \<Longrightarrow> v |\<in>| fmdom m \<and> (v, i) \<in> (rewrites_to m)\<^sup>+"
    and "fcard (fmdom m) < n + fcard visited"
  shows "(i, remap_loop m n visited i) \<in> (rewrites_to m)\<^sup>* \<and>
     (remap_loop m n visited i \<notin> Domain (rewrites_to m) \<or>
      (remap_loop m n visited i, remap_loop m n visited i) \<in> (rewrites_to m)\<^sup>+)"
  using assms
proof (induction m n visited i rule: remap_loop.induct)
  case (1 m visited i)
  then have "visited |\<subseteq>| fmdom m" by auto
  then have "fcard visited \<le> fcard (fmdom m)" by (rule fcard_mono)
  with 1(2) show ?case by simp
next
  case (2 m n visited i)
  show ?case
  proof (cases "\<exists>next. fmlookup m i = Some next \<and> next \<noteq> i \<and> i |\<notin>| visited")
    case True
    then obtain j where j: "fmlookup m i = Some j" "j \<noteq> i" "i |\<notin>| visited" by blast
    then have step: "(i, j) \<in> rewrites_to m" by simp
    have "v |\<in>| fmdom m \<and> (v, j) \<in> (rewrites_to m)\<^sup>+" if "v |\<in>| finsert i visited" for v
      using that 2(2) [of v] step j(1) by (auto intro: trancl_into_trancl fmdomI)
    moreover have "fcard (fmdom m) < n + fcard (finsert i visited)"
      using 2(3) j(3) by (simp add: fcard_finsert_disjoint)
    ultimately have "(j, remap_loop m n (finsert i visited) j) \<in> (rewrites_to m)\<^sup>* \<and>
        (remap_loop m n (finsert i visited) j \<notin> Domain (rewrites_to m) \<or>
         (remap_loop m n (finsert i visited) j, remap_loop m n (finsert i visited) j) \<in> (rewrites_to m)\<^sup>+)"
      using j by (intro 2(1)) auto
    then show ?thesis using j step by (auto intro: converse_rtrancl_into_rtrancl)
  next
    case False
    then show ?thesis using 2(2) [of i] by (auto split: option.splits)
  qed
qed

lemma remap_change_ends:
  assumes "fcard (fmdom m) < usize_max"
  shows "(i, remap_change i m) \<in> (rewrites_to m)\<^sup>* \<and>
     (remap_change i m \<notin> Domain (rewrites_to m) \<or> (remap_change i m, remap_change i m) \<in> (rewrites_to m)\<^sup>+)"
  unfolding remap_change_def
  by (rule remap_loop_ends) (use assms in \<open>auto simp: saturating_add_def\<close>)

text \<open>
  Resuming a rewrite: the resolved order has the ids of the desired order, each followed
  through the recorded rewrites to the last change of its chain, and the hop limit is enough;
  only ids that run into a cycle of rewrites end on it instead.
\<close>

theorem resolved_order_final:
  assumes "fcard (fmdom (pr_rewrite_map p)) < usize_max"
  shows "list_all2 (\<lambda>old new. (old, new) \<in> (rewrites_to (pr_rewrite_map p))\<^sup>* \<and>
       (new \<notin> Domain (rewrites_to (pr_rewrite_map p)) \<or>
        (new, new) \<in> (rewrites_to (pr_rewrite_map p))\<^sup>+))
     (pr_desired_order p) (resolved_order p)"
  using remap_change_ends [OF assms] by (auto simp: resolved_order_def list_all2_conv_all_nth)

lemma remap_loop_numeral:
  "remap_loop m (numeral k) visited i =
     (case fmlookup m i of None \<Rightarrow> i
      | Some next \<Rightarrow>
          if next = i \<or> i |\<in>| visited then i
          else remap_loop m (pred_numeral k) (finsert i visited) next)"
  by (simp add: numeral_eq_Suc)

definition toy_restack :: pending_rewrite where
  "toy_restack = with_rewrite_map (new_restack ''main'' {||} [[1], [4]])
     (fmupd [1] [2] (fmupd [2] [3] (fmupd [3] [3] fmempty)))"

theorem resolved_order_final_witness:
  "resolved_order toy_restack = [[3], [4]] \<and>
   list_all2 (\<lambda>old new. (old, new) \<in> (rewrites_to (pr_rewrite_map toy_restack))\<^sup>*)
     (pr_desired_order toy_restack) (resolved_order toy_restack)"
proof
  have c: "fcard (fmdom (pr_rewrite_map toy_restack)) = 3"
    by (simp add: toy_restack_def with_rewrite_map_def new_restack_def fcard_finsert_if)
  then have "fcard (fmdom (pr_rewrite_map toy_restack)) < usize_max" by (simp add: usize_max_def)
  from resolved_order_final [OF this]
  show "list_all2 (\<lambda>old new. (old, new) \<in> (rewrites_to (pr_rewrite_map toy_restack))\<^sup>*)
     (pr_desired_order toy_restack) (resolved_order toy_restack)" by (rule list_all2_mono) blast
  from c show "resolved_order toy_restack = [[3], [4]]"
    by (simp add: resolved_order_def remap_change_def saturating_add_def usize_max_def)
      (simp add: toy_restack_def with_rewrite_map_def new_restack_def remap_loop_numeral)
qed

end
