(* ===== verification/Workspace.thy ===== *)
theory Workspace
  imports Repository Transaction
begin

text \<open>
  Recording the working directory as changes (\<^verbatim>\<open>arc-cli/src/repo/snapshot.rs\<close>).  A repository
  with its blobs, its pending conflict and its log of view moves is the record \<open>workspace\<close>.
  The file tree enters as a \<open>delta\<close>: the atoms it yields against a state, with the blobs that
  computing and recording them stores.  What the commands write back into the file tree and
  the hooks they run are not part of the model.
\<close>

section \<open>The workspace\<close>

record pending_conflict =
  pc_current_view :: string
  pc_target_heads :: "blake3_hash fset"
  pc_conflicting_pairs :: "(blake3_hash \<times> blake3_hash) list"

record logged_move =
  lm_command :: string
  lm_view :: string
  lm_before :: "blake3_hash fset"
  lm_after :: "blake3_hash fset"
  lm_rewrites :: "(blake3_hash, blake3_hash) fmap option"

record workspace = repo +
  ws_blobs :: "(blake3_hash, bytes) fmap"
  ws_conflict :: "pending_conflict option"
  ws_log :: "logged_move list"
  ws_redo :: "logged_move list"
  ws_restack :: "pending_rewrite option"
  ws_diffedit :: "blake3_hash option"
  ws_pending_ai :: bool

definition put_blob ::
  "('sk, 'x) crypto_scheme \<Rightarrow> bytes \<Rightarrow> (blake3_hash, bytes) fmap \<Rightarrow> blake3_hash \<times> (blake3_hash, bytes) fmap"
where
  "put_blob K content blobs =
     (let h = blake3 K content
      in (h, if h |\<in>| fmdom blobs then blobs else fmupd h content blobs))"

text \<open>Replay reads blobs through the checked reads of the object store.\<close>

definition store_env ::
  "('sk, 'x) crypto_scheme \<Rightarrow> 'y replay_env_scheme \<Rightarrow> (blake3_hash, bytes) fmap \<Rightarrow> 'y replay_env_scheme" where
  "store_env K env blobs = env\<lparr>
     read_blob := (\<lambda>h. case fmlookup blobs h of
         None \<Rightarrow> Inl ''not found''
       | Some content \<Rightarrow> if blake3 K content = h then Inr content else Inl ''checksum mismatch''),
     contains_blob := (\<lambda>h. h |\<in>| fmdom blobs)\<rparr>"

text \<open>
  A plain move has no rewrite map; logging one forgets what could be redone, unless it is
  itself called undo.
\<close>

definition log_move :: "string \<Rightarrow> string \<Rightarrow> blake3_hash fset \<Rightarrow> blake3_hash fset \<Rightarrow> workspace \<Rightarrow> workspace" where
  "log_move command view prior after w =
     w\<lparr>ws_log := ws_log w @ [\<lparr>lm_command = command, lm_view = view, lm_before = prior,
             lm_after = after, lm_rewrites = None\<rparr>],
       ws_redo := if command \<noteq> ''undo'' then [] else ws_redo w\<rparr>"

definition save_view :: "string \<Rightarrow> blake3_hash fset \<Rightarrow> 'r repo_scheme \<Rightarrow> 'r repo_scheme" where
  "save_view name heads r = r\<lparr>rp_views := fmupd name heads (rp_views r)\<rparr>"

text \<open>Writing a new change and moving the view to it, as every command that records one does.\<close>

definition record_change :: "change \<Rightarrow> 'r repo_scheme \<Rightarrow> 'r repo_scheme" where
  "record_change c r =
     r\<lparr>rp_store := write_change c (rp_store r), rp_graph := add_change (rp_graph r) c\<rparr>"

definition advance_view ::
  "string \<Rightarrow> string \<Rightarrow> blake3_hash fset \<Rightarrow> change \<Rightarrow> workspace \<Rightarrow> workspace" where
  "advance_view command name prior c w =
     log_move command name prior {|ch_id c|} (save_view name {|ch_id c|} (record_change c w))"

section \<open>Recording the working directory\<close>

type_synonym delta = "materialized_state \<Rightarrow> repo_error + atom list \<times> (blake3_hash \<times> bytes) list"

fun store_blobs :: "(blake3_hash \<times> bytes) list \<Rightarrow> (blake3_hash, bytes) fmap \<Rightarrow> (blake3_hash, bytes) fmap" where
  "store_blobs [] blobs = blobs"
| "store_blobs ((h, content) # rest) blobs =
     store_blobs rest (if h |\<in>| fmdom blobs then blobs else fmupd h content blobs)"

text \<open>\<^verbatim>\<open>write_blob_atoms\<close> copies the sources of whole-file atoms into the blob store.\<close>

fun write_blob_atoms ::
  "(string \<Rightarrow> bytes option) \<Rightarrow> atom list \<Rightarrow> (blake3_hash, bytes) fmap \<Rightarrow> repo_error + (blake3_hash, bytes) fmap"
where
  "write_blob_atoms files [] blobs = Inr blobs"
| "write_blob_atoms files (a # as) blobs =
     (case a of
        Blob path h n \<Rightarrow>
          (case files path of
             None \<Rightarrow> Inl (UnreadableFile path)
           | Some content \<Rightarrow>
               write_blob_atoms files as (if h |\<in>| fmdom blobs then blobs else fmupd h content blobs))
      | _ \<Rightarrow> write_blob_atoms files as blobs)"

definition hydrated :: "workspace \<Rightarrow> string \<Rightarrow> (workspace \<Rightarrow> (repo_error + 'a) option) \<Rightarrow> (repo_error + 'a) option" where
  "hydrated w name k =
     (case hydrate w name of
        None \<Rightarrow> None
      | Some (Inl e) \<Rightarrow> Some (Inl e)
      | Some (Inr w1) \<Rightarrow> k w1)"

definition materialized ::
  "(repo_error + materialized_state) option \<Rightarrow> (materialized_state \<Rightarrow> (repo_error + 'a) option) \<Rightarrow>
   (repo_error + 'a) option" where
  "materialized m k =
     (case m of None \<Rightarrow> None | Some (Inl e) \<Rightarrow> Some (Inl e) | Some (Inr st) \<Rightarrow> k st)"

definition loaded_view :: "workspace \<Rightarrow> string \<Rightarrow> (blake3_hash fset \<Rightarrow> (repo_error + 'a) option) \<Rightarrow> (repo_error + 'a) option" where
  "loaded_view w name k =
     (case fmlookup (rp_views w) name of
        None \<Rightarrow> Some (Inl (NoSuchView name))
      | Some heads \<Rightarrow> k heads)"

definition computed_delta ::
  "delta \<Rightarrow> materialized_state \<Rightarrow> workspace \<Rightarrow> (atom list \<Rightarrow> workspace \<Rightarrow> (repo_error + 'a) option) \<Rightarrow>
   (repo_error + 'a) option" where
  "computed_delta delta st w k =
     (case delta st of
        Inl e \<Rightarrow> Some (Inl e)
      | Inr (atoms, stored) \<Rightarrow> k atoms (w\<lparr>ws_blobs := store_blobs stored (ws_blobs w)\<rparr>))"

definition with_blob_atoms ::
  "(string \<Rightarrow> bytes option) \<Rightarrow> atom list \<Rightarrow> workspace \<Rightarrow> (workspace \<Rightarrow> (repo_error + 'a) option) \<Rightarrow>
   (repo_error + 'a) option" where
  "with_blob_atoms files atoms w k =
     (case write_blob_atoms files atoms (ws_blobs w) of
        Inl e \<Rightarrow> Some (Inl e)
      | Inr blobs \<Rightarrow> k (w\<lparr>ws_blobs := blobs\<rparr>))"

lemmas workspace_plumbing =
  hydrated_def materialized_def loaded_view_def computed_delta_def with_blob_atoms_def

definition snapshot ::
  "('sk, 'x) crypto_scheme \<Rightarrow> 'y replay_env_scheme \<Rightarrow> workspace \<Rightarrow> string \<Rightarrow> delta \<Rightarrow>
   (string \<Rightarrow> bytes option) \<Rightarrow> author \<Rightarrow> 'sk \<Rightarrow> (repo_error + bool \<times> workspace) option" where
  "snapshot K env w name delta files author sk =
     hydrated w name (\<lambda>w1.
       materialized (materialize (store_env K env (ws_blobs w1)) w1 name) (\<lambda>st.
         computed_delta delta st w1 (\<lambda>atoms w2.
           if atoms = [] then Some (Inr (False, w2))
           else loaded_view w2 name (\<lambda>heads. with_blob_atoms files atoms w2 (\<lambda>w3.
             let c = change_new K heads atoms ''snapshot working copy'' author sk
             in Some (Inr (True, advance_view ''snapshot working copy'' name heads c w3)))))))"

definition finalize_snapshot ::
  "('sk, 'x) crypto_scheme \<Rightarrow> workspace \<Rightarrow> string \<Rightarrow> string \<Rightarrow> author \<Rightarrow> 'sk \<Rightarrow>
   (repo_error + blake3_hash \<times> workspace) option" where
  "finalize_snapshot K w name message author sk =
     hydrated w name (\<lambda>w1. loaded_view w1 name (\<lambda>heads.
       if fcard heads \<noteq> 1 then Some (Inl (NotSingleHead (fcard heads)))
       else
         (let old_head = hd (sorted_list_of_fset heads)
          in case graph_get (rp_graph w1) old_head of
               None \<Rightarrow> Some (Inl (MissingFromGraph old_head))
             | Some old \<Rightarrow>
                 let c = change_new K (ch_deps old) (ch_atoms old) message author sk
                 in Some (Inr (ch_id c, advance_view ''snap'' name {|old_head|} c w1)))))"

definition fork_empty_snapshot ::
  "('sk, 'x) crypto_scheme \<Rightarrow> workspace \<Rightarrow> string \<Rightarrow> author \<Rightarrow> 'sk \<Rightarrow>
   (repo_error + blake3_hash \<times> workspace) option" where
  "fork_empty_snapshot K w name author sk =
     hydrated w name (\<lambda>w1. loaded_view w1 name (\<lambda>heads.
       let c = change_new K heads [] ''snapshot working copy'' author sk
       in Some (Inr (ch_id c, advance_view ''snapshot working copy'' name heads c w1))))"

text \<open>
  Interactive staging: one answer is consumed for each node of a source file; directories,
  blobs and whole-file deletions are always staged.  Missing answers are the end of the input,
  which reads as no.
\<close>

fun is_interactive_file_atom :: "atom \<Rightarrow> bool" where
  "is_interactive_file_atom (Insert at h) = (length at > 2 \<and> hd at = ''file'')"
| "is_interactive_file_atom (Delete at h) = (length at > 2 \<and> hd at = ''file'')"
| "is_interactive_file_atom _ = False"

fun select_atoms_interactively :: "atom list \<Rightarrow> bool list \<Rightarrow> atom list" where
  "select_atoms_interactively [] answers = []"
| "select_atoms_interactively (a # as) answers =
     (if \<not> is_interactive_file_atom a then a # select_atoms_interactively as answers
      else (case answers of
              [] \<Rightarrow> select_atoms_interactively as []
            | yes # rest \<Rightarrow>
                if yes then a # select_atoms_interactively as rest
                else select_atoms_interactively as rest))"

definition snap ::
  "('sk, 'x) crypto_scheme \<Rightarrow> 'y replay_env_scheme \<Rightarrow> workspace \<Rightarrow> string \<Rightarrow> delta \<Rightarrow>
   (string \<Rightarrow> bytes option) \<Rightarrow> bool list option \<Rightarrow> string \<Rightarrow> author \<Rightarrow> 'sk \<Rightarrow>
   (repo_error + blake3_hash option \<times> workspace) option" where
  "snap K env w name delta files answers message author sk =
     (if ws_diffedit w \<noteq> None then Some (Inl DiffeditInProgress)
      else if ws_pending_ai w then Some (Inl AiChangePending)
      else hydrated w name (\<lambda>w1.
        materialized (materialize (store_env K env (ws_blobs w1)) w1 name) (\<lambda>st.
          computed_delta delta st w1 (\<lambda>raw_atoms w2.
            let all_atoms = (case answers of None \<Rightarrow> raw_atoms
                  | Some yes \<Rightarrow> select_atoms_interactively raw_atoms yes)
            in if all_atoms = [] then Some (Inr (None, w2))
               else loaded_view w2 name (\<lambda>heads. with_blob_atoms files all_atoms w2 (\<lambda>w3.
                 let c = change_new K heads all_atoms message author sk
                 in Some (Inr (Some (ch_id c), advance_view ''snap'' name heads c w3))))))))"

lemma snap_recorded:
  assumes "snap K env w name delta files answers message author sk = Some (Inr (Some i, w'))"
    "hydrate w name = Some (Inr w1)" "fmlookup (rp_views w1) name = Some heads"
  shows "\<exists>atoms blobs. i = compute_id K heads atoms message author \<and>
    w' = advance_view ''snap'' name heads (change_new K heads atoms message author sk) (w1\<lparr>ws_blobs := blobs\<rparr>)"
  using assms
  by (auto simp: snap_def workspace_plumbing Let_def split: if_splits option.splits sum.splits) blast+

end
