(* ===== verification/Merge.thy ===== *)
theory Merge
  imports Workspace
begin

text \<open>
  Merging views (\<^verbatim>\<open>arc-cli/src/repo/merge.rs\<close>) and recording the working directory as changes
  (\<^verbatim>\<open>snapshot.rs\<close>).  A repository with its blobs, its pending conflict and its log of view
  moves is the record \<open>workspace\<close>; the file tree enters as the delta it yields against a state
  and as the test whether it is clean.  What the commands write into the file tree and the
  hooks they run afterwards are not part of the model.

  The theory first settles when the order of replay does not matter: a set of heads is
  \<open>coherent\<close> when any two changes below it that do not depend on one another commute, and
  a coherent history replays to the same state in every order that respects dependencies.
\<close>

section \<open>Replay in any causal order\<close>

fun run_steps :: "('i \<Rightarrow> 's \<Rightarrow> 's option) \<Rightarrow> 'i list \<Rightarrow> 's \<Rightarrow> 's option" where
  "run_steps step [] s = Some s"
| "run_steps step (x # xs) s = Option.bind (step x s) (run_steps step xs)"

lemma run_steps_Cons: "run_steps step (x # xs) = (\<lambda>s. Option.bind (step x s) (run_steps step xs))"
  by (rule ext) simp

lemma run_steps_append [simp]:
  "run_steps step (xs @ ys) s = Option.bind (run_steps step xs s) (run_steps step ys)"
  by (induction xs arbitrary: s) (auto split: bind_split)

lemma run_steps_append_fun:
  "run_steps step (xs @ ys) = (\<lambda>s. Option.bind (run_steps step xs s) (run_steps step ys))"
  by (rule ext) simp

lemma run_steps_single [simp]: "run_steps step [x] = step x"
  by (rule ext) (auto split: bind_split)

text \<open>An order is causal when everything an element depends on comes before it (or is in \<open>S\<close>).\<close>

fun causal :: "('i \<times> 'i) set \<Rightarrow> 'i set \<Rightarrow> 'i list \<Rightarrow> bool" where
  "causal D S [] \<longleftrightarrow> True"
| "causal D S (x # xs) \<longleftrightarrow> D `` {x} \<subseteq> S \<and> causal D (insert x S) xs"

lemma causal_append [simp]:
  "causal D S (xs @ ys) \<longleftrightarrow> causal D S xs \<and> causal D (S \<union> set xs) ys"
  by (induction xs arbitrary: S) auto

lemma causal_mono: "causal D S xs \<Longrightarrow> S \<subseteq> T \<Longrightarrow> causal D T xs"
proof (induction xs arbitrary: S T)
  case (Cons x xs)
  from Cons.prems Cons.IH [of "insert x S" "insert x T"] show ?case by auto
qed simp

lemma causal_forget: "causal D (insert x S) xs \<Longrightarrow> \<forall>y \<in> set xs. (y, x) \<notin> D \<Longrightarrow> causal D S xs"
proof (induction xs arbitrary: S)
  case (Cons y ys)
  from Cons.prems Cons.IH [of "insert y S"] show ?case by (auto simp: insert_commute)
qed simp

lemma causal_trancl:
  assumes "causal D {} (as @ x # bs)" "(x, y) \<in> D\<^sup>+"
  shows "y \<in> set as"
  using assms(2)
proof (induction rule: trancl_induct)
  case (base y)
  with assms(1) show ?case by auto
next
  case (step y z)
  then obtain us vs where as: "as = us @ y # vs" by (auto dest: split_list)
  with assms(1) step.hyps(2) have "z \<in> set us" by auto
  with as show ?case by simp
qed

lemma causal_remove:
  "causal D S (ps @ x # ss) \<Longrightarrow> \<forall>y \<in> set ss. (y, x) \<notin> D \<Longrightarrow> causal D S (ps @ ss)"
  by (auto intro: causal_forget)

lemma causal_filter:
  assumes "causal D S zs" "S \<subseteq> T" "\<forall>z. \<not> P z \<longrightarrow> z \<in> T"
  shows "causal D T (filter P zs)"
  using assms
proof (induction zs arbitrary: S T)
  case (Cons z zs)
  show ?case
  proof (cases "P z")
    case True
    have "causal D (insert z T) (filter P zs)"
      by (rule Cons.IH [of "insert z S"]) (use Cons.prems in auto)
    with True Cons.prems show ?thesis by auto
  next
    case False
    have "causal D T (filter P zs)"
      by (rule Cons.IH [of "insert z S"]) (use Cons.prems False in auto)
    with False show ?thesis by simp
  qed
qed simp

text \<open>
  The interface replay offers: two elements that are compatible can be applied in either order.
  Whatever orders are causal for the dependencies then have the same outcome, provided the
  elements that do not depend on one another are compatible.
\<close>

locale commuting_steps =
  fixes step :: "'i \<Rightarrow> 's \<Rightarrow> 's option" and compatible :: "'i \<Rightarrow> 'i \<Rightarrow> bool"
  assumes swap: "compatible x y \<Longrightarrow> Option.bind (step x s) (step y) = Option.bind (step y s) (step x)"
begin

lemma step_past_list:
  "\<forall>y \<in> set ys. compatible x y \<Longrightarrow>
   Option.bind (step x s) (run_steps step ys) = Option.bind (run_steps step ys s) (step x)"
proof (induction ys arbitrary: s)
  case (Cons y ys)
  have "Option.bind (step x s) (run_steps step (y # ys))
      = Option.bind (Option.bind (step x s) (step y)) (run_steps step ys)"
    by (simp add: bind_assoc comp_def [symmetric] run_steps_Cons)
  also have "\<dots> = Option.bind (step y s) (\<lambda>t. Option.bind (step x t) (run_steps step ys))"
    using Cons.prems swap [of x y s] by (simp add: bind_assoc)
  also have "\<dots> = Option.bind (step y s) (\<lambda>t. Option.bind (run_steps step ys t) (step x))"
    using Cons by simp
  finally show ?case unfolding run_steps_Cons by (simp add: bind_assoc)
qed (auto split: bind_split)

lemma causal_orders_agree:
  assumes "set xs = set ys" "distinct xs" "distinct ys" "causal D {} xs" "causal D {} ys"
    and "\<forall>x \<in> set xs. \<forall>y \<in> set xs. (x, y) \<notin> D\<^sup>* \<and> (y, x) \<notin> D\<^sup>* \<longrightarrow> compatible x y"
  shows "run_steps step xs s = run_steps step ys s"
  using assms
proof (induction xs arbitrary: ys rule: rev_induct)
  case (snoc x xs)
  then obtain ps ss where ys: "ys = ps @ x # ss" by (metis in_set_conv_decomp set_append)
  have later: "(y, x) \<notin> D\<^sup>+" if mem: "y \<in> set xs" for y
  proof
    assume yx: "(y, x) \<in> D\<^sup>+"
    obtain us vs where xs: "xs = us @ y # vs" using mem by (auto simp: in_set_conv_decomp)
    then have "causal D {} (us @ y # (vs @ [x]))" using snoc.prems(4) by simp
    then have "x \<in> set us" using yx by (rule causal_trancl)
    with snoc.prems(2) xs show False by simp
  qed
  have members: "set ss \<subseteq> set xs" "x \<notin> set ss" "x \<notin> set ps" "x \<notin> set xs"
    and rest: "set xs = set (ps @ ss)"
    using snoc.prems(1-3) ys by auto
  have free: "(x, y) \<notin> D\<^sup>*" "(y, x) \<notin> D\<^sup>*" if "y \<in> set ss" for y
  proof -
    have "y \<noteq> x" "y \<notin> set ps" using that snoc.prems(3) ys by auto
    moreover have "(x, y) \<notin> D\<^sup>+"
      using causal_trancl [of D ps x ss y] snoc.prems(5) ys \<open>y \<notin> set ps\<close> by blast
    ultimately show "(x, y) \<notin> D\<^sup>*" "(y, x) \<notin> D\<^sup>*"
      using later [of y] members that by (auto simp: rtrancl_eq_or_trancl)
  qed
  then have "\<forall>y \<in> set ss. compatible x y" using snoc.prems(6) members by auto
  then have "run_steps step ys s = run_steps step ((ps @ ss) @ [x]) s"
    unfolding ys by (simp add: bind_assoc run_steps_Cons [of step x] run_steps_append_fun step_past_list)
  moreover have "causal D {} (ps @ ss)"
    by (rule causal_remove [of D "{}" ps x]) (use snoc.prems(5) ys free in auto)
  then have "run_steps step xs s = run_steps step (ps @ ss) s"
    using snoc.IH [of "ps @ ss"] rest snoc.prems ys by auto
  ultimately show ?case by (simp add: run_steps_append_fun)
qed simp

end

section \<open>Coherent histories\<close>

text \<open>Replaying the change of one id; an id outside the graph cannot be replayed.\<close>

definition replay_step ::
  "'x replay_env_scheme \<Rightarrow> change_graph \<Rightarrow> blake3_hash \<Rightarrow> materialized_state \<Rightarrow> materialized_state option" where
  "replay_step env g i st =
     (case graph_get g i of
        None \<Rightarrow> None
      | Some c \<Rightarrow> run_effects (change_effects env None c) st)"

definition compatible :: "change_graph \<Rightarrow> blake3_hash \<Rightarrow> blake3_hash \<Rightarrow> bool" where
  "compatible g i j \<longleftrightarrow>
     (\<forall>a b. graph_get g i = Some a \<longrightarrow> graph_get g j = Some b \<longrightarrow> commutes a b)"

interpretation replay_steps: commuting_steps "replay_step env g" "compatible g" for env g
proof
  fix i j st assume ok: "compatible g i j"
  show "Option.bind (replay_step env g i st) (replay_step env g j) =
      Option.bind (replay_step env g j st) (replay_step env g i)"
  proof (cases "graph_get g i"; cases "graph_get g j")
    fix a b assume get: "graph_get g i = Some a" "graph_get g j = Some b"
    with ok have "atoms_disjoint (ch_atoms a) (ch_atoms b)"
      by (auto simp: compatible_def commutes_def split: if_splits)
    from run_effects_commute [OF change_effects_independent [OF this, of env None]] get
    show ?thesis by (simp add: replay_step_def [abs_def])
  qed (auto simp: replay_step_def split: bind_split)
qed

definition coherent :: "change_graph \<Rightarrow> blake3_hash fset \<Rightarrow> bool" where
  "coherent g heads \<longleftrightarrow>
     (\<forall>i j. i |\<in>| ancestors g heads \<longrightarrow> j |\<in>| ancestors g heads \<longrightarrow>
        (i, j) \<notin> (depends g)\<^sup>* \<and> (j, i) \<notin> (depends g)\<^sup>* \<longrightarrow> compatible g i j)"

text \<open>The state a successful replay reaches.\<close>

definition reached :: "'e + 'a \<Rightarrow> 'a option" where
  "reached r = (case r of Inl e \<Rightarrow> None | Inr x \<Rightarrow> Some x)"

lemma reached_simps [simp]: "reached (Inl e) = None" "reached (Inr x) = Some x"
  by (simp_all add: reached_def)

lemma replay_order_steps: "reached (replay_order env g order st) = run_steps (replay_step env g) order st"
proof (induction order arbitrary: st)
  case (Cons i order)
  show ?case
  proof (cases "graph_get g i")
    case (Some c)
    obtain st' bl e where r: "apply_change env c st None = (st', bl, e)" by (metis prod_cases3)
    have "run_effects (change_effects env None c) st = replayed (st', bl, e)"
      using replayed_apply_change_scoped [of env None c st None] by (simp add: apply_change_def r [unfolded apply_change_def])
    with Some r Cons.IH show ?thesis by (cases e) (simp_all add: replay_step_def)
  qed (simp add: replay_step_def)
qed simp

lemma roots_first_causal: "roots_first g order \<Longrightarrow> causal (depends g) {} order"
proof (induction order rule: rev_induct)
  case (snoc x xs)
  then have "roots_first g xs" by (auto simp: roots_first_def nth_append)
  moreover have "depends g `` {x} \<subseteq> set xs"
    using snoc.prems by (auto simp: roots_first_def depends_def dest: spec [of _ "length xs"])
  ultimately show ?case using snoc.IH by simp
qed simp

text \<open>Orders of a history: everything below the heads once, dependencies first.\<close>

definition history_order :: "change_graph \<Rightarrow> blake3_hash fset \<Rightarrow> blake3_hash list \<Rightarrow> bool" where
  "history_order g heads order \<longleftrightarrow>
     distinct order \<and> set order = fset (ancestors g heads) \<and> causal (depends g) {} order"

lemma sorted_history_order:
  assumes "wf_graph g" "acyclic (depends g)"
  obtains order where "topological_sort g heads = Some order" "history_order g heads order"
proof -
  obtain order deg where sorted: "topological_sort g heads = Some order"
    and inv: "kahn_inv g (ancestors g heads) deg [] order"
    using topological_sort_inv [OF assms(1)] by blast
  have "history_order g heads order"
    using inv kahn_complete [OF assms(2) inv] by (auto simp: history_order_def kahn_inv_def roots_first_causal)
  with sorted show thesis by (rule that)
qed

lemma coherent_orders_agree:
  assumes "coherent g heads" "history_order g heads xs" "history_order g heads ys"
  shows "run_steps (replay_step env g) xs st = run_steps (replay_step env g) ys st"
  by (rule replay_steps.causal_orders_agree [of _ _ "depends g"])
    (use assms in \<open>auto simp: history_order_def coherent_def\<close>)



section \<open>Merging\<close>

fun conflicts_with :: "change_graph \<Rightarrow> change \<Rightarrow> blake3_hash list \<Rightarrow> repo_error + blake3_hash list" where
  "conflicts_with g change_a [] = Inr []"
| "conflicts_with g change_a (b # bs) =
     (case graph_get g b of
        None \<Rightarrow> Inl (MissingFromGraph b)
      | Some change_b \<Rightarrow>
          map_result (\<lambda>rest. if \<not> commutes change_a change_b then b # rest else rest)
            (conflicts_with g change_a bs))"

fun conflicting_pairs ::
  "change_graph \<Rightarrow> blake3_hash list \<Rightarrow> blake3_hash list \<Rightarrow> repo_error + (blake3_hash \<times> blake3_hash) list"
where
  "conflicting_pairs g [] delta_b = Inr []"
| "conflicting_pairs g (a # as) delta_b =
     (case graph_get g a of
        None \<Rightarrow> Inl (MissingFromGraph a)
      | Some change_a \<Rightarrow>
          bind_result (conflicts_with g change_a delta_b) (\<lambda>hits.
            map_result (\<lambda>rest. map (Pair a) hits @ rest) (conflicting_pairs g as delta_b)))"

text \<open>The changes of one side that are not below the merge bases, in the order of their ids.\<close>

definition exclusive_delta :: "change_graph \<Rightarrow> blake3_hash fset \<Rightarrow> blake3_hash fset \<Rightarrow> blake3_hash list" where
  "exclusive_delta g side lca_heads =
     (let ancestors_lca = (if lca_heads = {||} then {||} else ancestors g lca_heads)
      in sorted_list_of_fset (ancestors g side |-| ancestors_lca))"

definition overlap :: "node_path \<Rightarrow> node_path \<Rightarrow> node_path option" where
  "overlap pa pb =
     (if paths_overlap pa pb then Some (if length pa \<ge> length pb then pa else pb) else None)"

definition overlaps :: "atom list \<Rightarrow> atom list \<Rightarrow> node_path list" where
  "overlaps atoms_a atoms_b =
     [p. a \<leftarrow> atoms_a, b \<leftarrow> atoms_b, pa \<leftarrow> paths a, pb \<leftarrow> paths b, Some p \<leftarrow> [overlap pa pb]]"

definition find_overlapping_path :: "atom list \<Rightarrow> atom list \<Rightarrow> node_path option" where
  "find_overlapping_path atoms_a atoms_b =
     (case overlaps atoms_a atoms_b of [] \<Rightarrow> None | p # rest \<Rightarrow> Some p)"

definition extract_content_at_path :: "materialized_state \<Rightarrow> node_path \<Rightarrow> bytes" where
  "extract_content_at_path st p = (case st p of None \<Rightarrow> [] | Some content \<Rightarrow> content)"

text \<open>
  One conflict atom for each overlapping path: the content of the three states at the path goes
  into the blob store, and the atom carries the sorted hashes.
\<close>

fun build_conflicts ::
  "('sk, 'x) crypto_scheme \<Rightarrow> change_graph \<Rightarrow> materialized_state \<Rightarrow> materialized_state \<Rightarrow>
   materialized_state \<Rightarrow> (blake3_hash \<times> blake3_hash) list \<Rightarrow> node_path list \<Rightarrow>
   (blake3_hash, bytes) fmap \<Rightarrow> (repo_error + atom list) \<times> (blake3_hash, bytes) fmap" where
  "build_conflicts K g base ours theirs [] seen blobs = (Inr [], blobs)"
| "build_conflicts K g base ours theirs ((a, b) # pairs) seen blobs =
     (case (graph_get g a, graph_get g b) of
        (Some change_a, Some change_b) \<Rightarrow>
          (case find_overlapping_path (ch_atoms change_a) (ch_atoms change_b) of
             None \<Rightarrow> (Inl NoOverlappingPath, blobs)
           | Some p \<Rightarrow>
               if p \<in> set seen then build_conflicts K g base ours theirs pairs seen blobs
               else
                 (let (base_hash, blobs1) = put_blob K (extract_content_at_path base p) blobs;
                      (ours_hash, blobs2) = put_blob K (extract_content_at_path ours p) blobs1;
                      (theirs_hash, blobs3) = put_blob K (extract_content_at_path theirs p) blobs2;
                      (rest, blobs4) = build_conflicts K g base ours theirs pairs (p # seen) blobs3
                  in (map_result (Cons (Conflict [base_hash] (sort [ours_hash, theirs_hash]) p)) rest, blobs4)))
      | (None, _) \<Rightarrow> (Inl (MissingFromGraph a), blobs)
      | (Some _, None) \<Rightarrow> (Inl (MissingFromGraph b), blobs))"

fun conflict_at :: "atom \<Rightarrow> node_path" where
  "conflict_at (Conflict bases sides at) = at"
| "conflict_at _ = []"

text \<open>
  The result of a merge is an error or nothing, with the workspace it leaves behind: an error
  does not undo what was written before it.
\<close>

type_synonym merge_result = "(repo_error option \<times> workspace) option"

definition materialize_ws ::
  "('sk, 'x) crypto_scheme \<Rightarrow> 'y replay_env_scheme \<Rightarrow> workspace \<Rightarrow> blake3_hash fset \<Rightarrow>
   (repo_error + materialized_state) option" where
  "materialize_ws K env w heads = materialize_heads (store_env K env (ws_blobs w)) (rp_graph w) heads"

definition with_state ::
  "(repo_error + materialized_state) option \<Rightarrow> workspace \<Rightarrow> (materialized_state \<Rightarrow> merge_result) \<Rightarrow> merge_result"
where
  "with_state m w k =
     (case m of None \<Rightarrow> None | Some (Inl e) \<Rightarrow> Some (Some e, w) | Some (Inr st) \<Rightarrow> k st)"

definition finish_merge ::
  "('sk, 'x) crypto_scheme \<Rightarrow> 'y replay_env_scheme \<Rightarrow> string \<Rightarrow> blake3_hash fset \<Rightarrow> blake3_hash fset \<Rightarrow>
   workspace \<Rightarrow> merge_result" where
  "finish_merge K env name prev_heads merged_heads w =
     (let w' = log_move ''merge'' name prev_heads merged_heads (save_view name merged_heads w)
      in with_state (materialize_ws K env w' merged_heads) w' (\<lambda>merged_state. Some (None, w')))"

definition record_conflict ::
  "('sk, 'x) crypto_scheme \<Rightarrow> 'y replay_env_scheme \<Rightarrow> string \<Rightarrow> blake3_hash fset \<Rightarrow> blake3_hash fset \<Rightarrow>
   blake3_hash fset \<Rightarrow> materialized_state \<Rightarrow> (blake3_hash \<times> blake3_hash) list \<Rightarrow> author \<Rightarrow> 'sk \<Rightarrow>
   workspace \<Rightarrow> merge_result" where
  "record_conflict K env name heads target lca_heads current_state pairs author sk w =
     (let w1 = w\<lparr>ws_conflict := Some \<lparr>pc_current_view = name, pc_target_heads = target,
                 pc_conflicting_pairs = pairs\<rparr>\<rparr>
      in with_state (materialize_ws K env w1 target) w1 (\<lambda>target_state.
         with_state (if lca_heads = {||} then Some (Inr Map.empty) else materialize_ws K env w1 lca_heads) w1 (\<lambda>lca_state.
           let (built, blobs) = build_conflicts K (rp_graph w1) lca_state current_state target_state pairs []
                 (ws_blobs w1);
               w2 = w1\<lparr>ws_blobs := blobs\<rparr>
           in case built of
                Inl e \<Rightarrow> Some (Some e, w2)
              | Inr atoms \<Rightarrow>
                  if atoms = [] then Some (Some NoConflictAtoms, w2)
                  else
                    (let c = change_new K (heads |\<union>| target) (sort_key conflict_at atoms)
                           (''merge conflict: '' @ nat_dec (length pairs) @ '' pair(s)'') author sk
                     in finish_merge K env name heads {|ch_id c|} (record_change c w2)))))"

definition merge_heads ::
  "('sk, 'x) crypto_scheme \<Rightarrow> 'y replay_env_scheme \<Rightarrow> workspace \<Rightarrow> string \<Rightarrow> blake3_hash fset \<Rightarrow>
   (materialized_state \<Rightarrow> bool) \<Rightarrow> author \<Rightarrow> 'sk \<Rightarrow> merge_result" where
  "merge_heads K env w name target clean author sk =
     (case hydrate w name of
        None \<Rightarrow> None
      | Some (Inl e) \<Rightarrow> Some (Some e, w)
      | Some (Inr w1) \<Rightarrow>
          (case hydrate_heads w1 target of
             None \<Rightarrow> None
           | Some (Inl e) \<Rightarrow> Some (Some e, w1)
           | Some (Inr w2) \<Rightarrow>
               (case fmlookup (rp_views w2) name of
                  None \<Rightarrow> Some (Some (NoSuchView name), w2)
                | Some heads \<Rightarrow>
                    with_state (materialize_ws K env w2 heads) w2 (\<lambda>current_state.
                      if \<not> clean current_state then Some (Some DirtyWorkingDirectory, w2)
                      else
                        (let g = rp_graph w2;
                             lca_heads = merge_base g heads target
                         in case conflicting_pairs g (exclusive_delta g heads lca_heads)
                                   (exclusive_delta g target lca_heads) of
                              Inl e \<Rightarrow> Some (Some e, w2)
                            | Inr [] \<Rightarrow> finish_merge K env name heads (heads |\<union>| target) w2
                            | Inr pairs \<Rightarrow>
                                record_conflict K env name heads target lca_heads current_state pairs
                                  author sk w2)))))"

definition merge_view ::
  "('sk, 'x) crypto_scheme \<Rightarrow> 'y replay_env_scheme \<Rightarrow> workspace \<Rightarrow> string \<Rightarrow> string \<Rightarrow>
   (materialized_state \<Rightarrow> bool) \<Rightarrow> author \<Rightarrow> 'sk \<Rightarrow> merge_result" where
  "merge_view K env w name target_name clean author sk =
     (case hydrate w target_name of
        None \<Rightarrow> None
      | Some (Inl e) \<Rightarrow> Some (Some e, w)
      | Some (Inr w1) \<Rightarrow>
          (case fmlookup (rp_views w1) target_name of
             None \<Rightarrow> Some (Some (NoSuchView target_name), w1)
           | Some target \<Rightarrow> merge_heads K env w1 name target clean author sk))"

section \<open>The commuting merge\<close>

lemma conflicts_with_None:
  "conflicts_with g a bs = Inr [] \<Longrightarrow> b \<in> set bs \<Longrightarrow>
   \<exists>change_b. graph_get g b = Some change_b \<and> commutes a change_b"
  by (induction bs) (auto simp: result_simps split: option.splits if_splits)

lemma conflicting_pairs_None:
  assumes "conflicting_pairs g as bs = Inr []" "a \<in> set as" "b \<in> set bs"
  shows "compatible g a b"
  using assms
proof (induction as)
  case (Cons a' as)
  then show ?case
    by (auto simp: result_simps compatible_def split: option.splits dest: conflicts_with_None)
qed simp

lemma ancestors_union: "ancestors g (A |\<union>| B) = ancestors g A |\<union>| ancestors g B"
  by (rule fset_eqI) (auto simp: mem_ancestors_iff)

lemma compatible_sym: "compatible g i j \<longleftrightarrow> compatible g j i"
  by (auto simp: compatible_def commutes_commute)

lemma mem_exclusive_delta:
  assumes "wf_graph g" "acyclic (depends g)"
  shows "i \<in> set (exclusive_delta g A (merge_base g A B)) \<longleftrightarrow> i |\<in>| ancestors g A \<and> i |\<notin>| ancestors g B"
proof -
  let ?M = "merge_bases_ordered g A B"
  have "i |\<in>| (if ?M = {||} then {||} else ancestors g ?M) \<longleftrightarrow> i |\<in>| ancestors g ?M"
    by (auto simp: mem_ancestors_iff)
  also have "\<dots> \<longleftrightarrow> i |\<in>| ancestors g A \<and> i |\<in>| ancestors g B"
  proof
    assume "i |\<in>| ancestors g ?M"
    then show "i |\<in>| ancestors g A \<and> i |\<in>| ancestors g B"
      by (auto simp: mem_ancestors_iff [of i g ?M] mem_merge_bases_iff [OF assms(1)] intro: ancestors_closed)
  next
    assume "i |\<in>| ancestors g A \<and> i |\<in>| ancestors g B"
    then show "i |\<in>| ancestors g ?M"
      using merge_base_exists [OF assms, of i A B] by (auto simp: mem_ancestors_iff [of i g ?M])
  qed
  finally show ?thesis by (auto simp: exclusive_delta_def merge_base_def)
qed

lemma commuting_merge_coherent:
  assumes "wf_graph g" "acyclic (depends g)" "coherent g A" "coherent g B"
    and "conflicting_pairs g (exclusive_delta g A (merge_base g A B)) (exclusive_delta g B (merge_base g A B)) = Inr []"
  shows "coherent g (A |\<union>| B)"
proof -
  have sym: "merge_base g A B = merge_base g B A"
    by (simp add: merge_base_def merge_bases_ordered_def inf_commute)
  have ok: "compatible g i j"
    if "i |\<in>| ancestors g A" "i |\<notin>| ancestors g B" "j |\<in>| ancestors g B" "j |\<notin>| ancestors g A" for i j
    using conflicting_pairs_None [OF assms(5), of i j] that
      mem_exclusive_delta [OF assms(1,2), of i A B] mem_exclusive_delta [OF assms(1,2), of j B A] sym by auto
  show ?thesis
    unfolding coherent_def ancestors_union
  proof (intro allI impI)
    fix i j assume i: "i |\<in>| ancestors g A |\<union>| ancestors g B" and j: "j |\<in>| ancestors g A |\<union>| ancestors g B"
      and free: "(i, j) \<notin> (depends g)\<^sup>* \<and> (j, i) \<notin> (depends g)\<^sup>*"
    have "compatible g i j" if "i |\<in>| ancestors g H" "j |\<in>| ancestors g H" "coherent g H" for H
      using that free by (auto simp: coherent_def)
    with assms(3,4) i j ok [of i j] ok [of j i] show "compatible g i j"
      by (auto simp: compatible_sym [of g j i])
  qed
qed

lemma history_order_union:
  assumes "history_order g A xs" "history_order g B ys"
  shows "history_order g (A |\<union>| B) (xs @ filter (\<lambda>i. i |\<notin>| ancestors g A) ys)"
proof -
  let ?P = "\<lambda>i. i |\<notin>| ancestors g A"
  have "causal (depends g) (set xs) (filter ?P ys)"
    by (rule causal_filter [of _ "{}"]) (use assms in \<open>auto simp: history_order_def\<close>)
  with assms show ?thesis by (auto simp: history_order_def ancestors_union)
qed

lemma materialize_heads_steps:
  assumes "topological_sort g heads = Some order"
  shows "\<exists>r. materialize_heads env g heads = Some r \<and> reached r = run_steps (replay_step env g) order Map.empty"
  using assms replay_order_steps [of env g order Map.empty] by (auto simp: materialize_heads_def)

lemma hydrate_views: "hydrate w name = Some (Inr w') \<Longrightarrow> rp_views w' = rp_views w"
  by (auto simp: hydrate_def hydrate_heads_def map_result_Inr_iff split: option.splits)

section \<open>Recording a change keeps a history coherent\<close>

lemma depends_insert:
  assumes "wf_graph g" "graph_get g (ch_id c) = None"
  shows "depends (add_change g c) = depends g \<union> {(ch_id c, d) |d. d |\<in>| ch_deps c}"
proof -
  have "deps_of g (ch_id c) = {||}"
    using assms by (auto simp: deps_of_def entry_or_default_def wf_graph_def graph_get_def)
  then show ?thesis
    using assms(2) by (auto simp: depends_def add_change_def graph_get_def deps_of_insert split: if_splits)
qed

lemma record_change_coherent:
  assumes wf: "wf_graph g" "graph_get g (ch_id c) = None"
    and fresh: "ch_id c \<notin> Range (depends g)" "ch_id c |\<notin>| ch_deps c"
    and ok: "acyclic (depends g)" "coherent g (ch_deps c)"
  shows "wf_graph (add_change g c)" "acyclic (depends (add_change g c))" "coherent (add_change g c) {|ch_id c|}"
proof -
  let ?g = "add_change g c" and ?i = "ch_id c"
  show "wf_graph ?g" by (rule wf_add_fresh [OF wf])
  note D = depends_insert [OF wf]
  have old_path: "(x, y) \<in> (depends g)\<^sup>*" if "(x, y) \<in> (depends ?g)\<^sup>*" "x \<noteq> ?i" for x y
    using that
  proof (induction rule: rtrancl_induct)
    case (step y z)
    have "y \<noteq> ?i"
    proof
      assume "y = ?i"
      with step have "(x, ?i) \<in> (depends g)\<^sup>*" by simp
      with \<open>x \<noteq> ?i\<close> fresh(1) show False by (metis RangeI rtrancl.cases)
    qed
    with step D show ?case by (auto intro: rtrancl_into_rtrancl)
  qed simp
  show "acyclic (depends ?g)"
    unfolding acyclic_def
  proof (intro allI notI)
    fix x assume cyc: "(x, x) \<in> (depends ?g)\<^sup>+"
    show False
    proof (cases "x = ?i")
      case True
      with cyc obtain y where y: "(?i, y) \<in> depends ?g" "(y, ?i) \<in> (depends ?g)\<^sup>*" by (auto dest: tranclD)
      have "?i \<notin> Range (depends ?g)" using D fresh by auto
      with y show False by (metis RangeI rtrancl.cases)
    next
      case False
      with cyc obtain y where y: "(x, y) \<in> depends ?g" "(y, x) \<in> (depends ?g)\<^sup>*" by (auto dest: tranclD)
      have "y \<noteq> ?i" using y(1) D fresh by auto
      with y False D old_path have "(x, x) \<in> (depends g)\<^sup>+" by (auto intro: rtrancl_into_trancl2)
      with ok(1) show False by (simp add: acyclic_def)
    qed
  qed
  have mem: "x = ?i \<or> x |\<in>| ancestors g (ch_deps c)" if "x |\<in>| ancestors ?g {|?i|}" for x
  proof -
    from that have "(?i, x) \<in> (depends ?g)\<^sup>*" by (simp add: mem_ancestors_iff)
    then show ?thesis
    proof (cases rule: converse_rtranclE)
      case (step y)
      have "y |\<in>| ch_deps c"
      proof -
        have "(?i, y) \<notin> depends g"
          using wf by (auto simp: depends_def deps_of_def entry_or_default_def wf_graph_def graph_get_def)
        with step(1) D show ?thesis by auto
      qed
      with step(2) old_path [of y x] fresh(2) show ?thesis by (auto simp: mem_ancestors_iff)
    qed simp
  qed
  show "coherent ?g {|?i|}"
    unfolding coherent_def
  proof (intro allI impI)
    fix x y assume x: "x |\<in>| ancestors ?g {|?i|}" and y: "y |\<in>| ancestors ?g {|?i|}"
      and free: "(x, y) \<notin> (depends ?g)\<^sup>* \<and> (y, x) \<notin> (depends ?g)\<^sup>*"
    then have "x \<noteq> ?i" "y \<noteq> ?i" by (auto simp: mem_ancestors_iff)
    moreover have "(depends g)\<^sup>* \<subseteq> (depends ?g)\<^sup>*" by (rule rtrancl_mono) (use D in auto)
    ultimately have "compatible g x y"
      using ok(2) mem [OF x] mem [OF y] free unfolding coherent_def by blast
    with \<open>x \<noteq> ?i\<close> \<open>y \<noteq> ?i\<close> show "compatible ?g x y" by (simp add: compatible_def graph_get_add)
  qed
qed

section \<open>Properties\<close>

text \<open>
  Order-independence of replay: in a coherent history (any two changes that do not depend
  on one another commute) the state that \<^verbatim>\<open>materialize_heads\<close> computes, or its failure, is the one
  of replaying the history in any order that puts dependencies first.
\<close>

theorem coherent_replay_order_irrelevant:
  assumes "wf_graph g" "acyclic (depends g)" "coherent g heads"
    and "distinct order" "set order = {x. \<exists>h. h |\<in>| heads \<and> (h, x) \<in> (depends g)\<^sup>*}" "roots_first g order"
  shows "\<exists>r. materialize_heads env g heads = Some r \<and> reached r = reached (replay_order env g order Map.empty)"
proof -
  obtain sorted where sorted: "topological_sort g heads = Some sorted" "history_order g heads sorted"
    using sorted_history_order [OF assms(1,2)] by blast
  have "history_order g heads order"
    using assms(4-6) by (auto simp: history_order_def mem_ancestors_iff roots_first_causal)
  then have "run_steps (replay_step env g) sorted Map.empty = run_steps (replay_step env g) order Map.empty"
    by (rule coherent_orders_agree [OF assms(3) sorted(2)])
  with materialize_heads_steps [OF sorted(1), of env] show ?thesis by (auto simp: replay_order_steps)
qed

text \<open>
  C22.  The merge law: merging heads none of whose exclusive changes conflict moves the view to
  the union of the heads, keeps the history coherent, and its state is the current state with
  the target's exclusive changes replayed on top, in their order; the merge reports an error
  exactly when that replay fails.
\<close>

theorem merge_without_conflicts:
  fixes w2 :: workspace
  defines "g \<equiv> rp_graph w2"
  assumes hydrated: "hydrate w name = Some (Inr w1)" "hydrate_heads w1 target = Some (Inr w2)"
    and view: "fmlookup (rp_views w2) name = Some heads"
    and graph: "wf_graph g" "acyclic (depends g)" and coherent: "coherent g heads" "coherent g target"
    and state: "materialize_ws K env w2 heads = Some (Inr st)" "clean st"
    and conflicts: "conflicting_pairs g (exclusive_delta g heads (merge_base g heads target))
      (exclusive_delta g target (merge_base g heads target)) = Inr []"
  shows "\<exists>e w' order r. merge_heads K env w name target clean author sk = Some (e, w') \<and>
    fmlookup (rp_views w') name = Some (heads |\<union>| target) \<and> rp_graph w' = g \<and> coherent g (heads |\<union>| target) \<and>
    topological_sort g target = Some order \<and>
    materialize_ws K env w' (heads |\<union>| target) = Some r \<and>
    reached r = run_steps (replay_step (store_env K env (ws_blobs w2)) g)
      (filter (\<lambda>i. i |\<notin>| ancestors g heads) order) st \<and>
    (e = None \<longleftrightarrow> reached r \<noteq> None)"
proof -
  let ?env = "store_env K env (ws_blobs w2)" and ?H = "heads |\<union>| target"
  let ?w = "log_move ''merge'' name heads ?H (save_view name ?H w2)"
  have union: "coherent g ?H" by (rule commuting_merge_coherent [OF graph coherent conflicts])
  obtain xs where xs: "topological_sort g heads = Some xs" "history_order g heads xs"
    using sorted_history_order [OF graph] by blast
  obtain ys where ys: "topological_sort g target = Some ys" "history_order g target ys"
    using sorted_history_order [OF graph] by blast
  obtain zs where zs: "topological_sort g ?H = Some zs" "history_order g ?H zs"
    using sorted_history_order [OF graph] by blast
  let ?rest = "filter (\<lambda>i. i |\<notin>| ancestors g heads) ys"
  obtain r where r: "materialize_heads ?env g ?H = Some r"
    and run_r: "reached r = run_steps (replay_step ?env g) zs Map.empty"
    using materialize_heads_steps [OF zs(1)] by blast
  have orders: "run_steps (replay_step ?env g) zs Map.empty = run_steps (replay_step ?env g) (xs @ ?rest) Map.empty"
    by (rule coherent_orders_agree [OF union zs(2) history_order_union [OF xs(2) ys(2)]])
  have "run_steps (replay_step ?env g) xs Map.empty = Some st"
    using state(1) materialize_heads_steps [OF xs(1), of ?env] by (auto simp: materialize_ws_def g_def)
  then have "run_steps (replay_step ?env g) (xs @ ?rest) Map.empty = run_steps (replay_step ?env g) ?rest st"
    by simp
  with run_r orders have reached: "reached r = run_steps (replay_step ?env g) ?rest st" by simp
  have run: "merge_heads K env w name target clean author sk = finish_merge K env name heads ?H w2"
    using hydrated view state conflicts by (simp add: merge_heads_def with_state_def Let_def g_def)
  have mat: "materialize_ws K env ?w ?H = Some r" and w: "rp_graph ?w = g" "fmlookup (rp_views ?w) name = Some ?H"
    using r by (simp_all add: materialize_ws_def log_move_def save_view_def g_def)
  have "\<exists>e. finish_merge K env name heads ?H w2 = Some (e, ?w) \<and> (e = None \<longleftrightarrow> reached r \<noteq> None)"
    using mat by (cases r) (simp_all add: finish_merge_def with_state_def Let_def)
  with run mat w union ys(1) reached show ?thesis by metis
qed

text \<open>A base change and one change on each of two views.\<close>

definition base_change :: change where
  "base_change = (node 1 [])\<lparr>ch_atoms := [Insert [''a''] [1], Insert [''b''] [1]]\<rparr>"

definition main_change :: change where
  "main_change = (node 2 [1])\<lparr>ch_atoms := [Insert [''a''] [2]]\<rparr>"

definition dev_change :: change where
  "dev_change = (node 3 [1])\<lparr>ch_atoms := [Insert [''b''] [3]]\<rparr>"

definition two_views :: workspace where
  "two_views =
     \<lparr>rp_graph = graph_new,
      rp_store = fmap_of_list [([1], base_change), ([2], main_change), ([3], dev_change)],
      rp_epochs = fmempty, rp_views = fmap_of_list [(''main'', {|[2]|}), (''dev'', {|[3]|})],
      ws_blobs = fmap_of_list [([1], [1]), ([2], [2]), ([3], [3])],
      ws_conflict = None, ws_log = [], ws_redo = [], ws_restack = None,
      ws_diffedit = None, ws_pending_ai = False\<rparr>"

definition two_views_main :: workspace where
  "two_views_main = two_views\<lparr>rp_graph := add_change (add_change graph_new main_change) base_change\<rparr>"

definition two_views_both :: workspace where
  "two_views_both = two_views_main\<lparr>rp_graph := add_change (rp_graph two_views_main) dev_change\<rparr>"

lemma two_views_hydrated:
  "hydrate two_views ''main'' = Some (Inr two_views_main)"
  "hydrate_heads two_views_main {|[3]|} = Some (Inr two_views_both)"
  by code_simp+

lemma two_views_deps:
  "deps_of (rp_graph two_views_both) i = (if i = [3] \<or> i = [2] then {|[1]|} else {||})"
  by (simp add: two_views_both_def two_views_main_def add_change_def deps_of_insert
      base_change_def main_change_def dev_change_def)
    (simp add: graph_new_def deps_of_def entry_or_default_def)

lemma two_views_graph: "wf_graph (rp_graph two_views_both)" "acyclic (depends (rp_graph two_views_both))"
proof -
  show "wf_graph (rp_graph two_views_both)"
    unfolding two_views_both_def two_views_main_def
    by (simp, intro wf_add_fresh wf_graph_new)
      (simp_all add: graph_get_add base_change_def main_change_def dev_change_def)
  show "acyclic (depends (rp_graph two_views_both))"
  proof (rule acyclicI_order [where f = "\<lambda>h. if h = [1] then 0 else (1 :: nat)"])
    fix a b assume "(a, b) \<in> depends (rp_graph two_views_both)"
    then show "(if b = [1] then 0 else 1) < (if a = [1] then 0 else (1 :: nat))"
      by (auto simp: depends_def two_views_deps split: if_splits)
  qed
qed

lemma two_views_coherent: "h = [2] \<or> h = [3] \<Longrightarrow> coherent (rp_graph two_views_both) {|h|}"
proof -
  assume h: "h = [2] \<or> h = [3]"
  have "i = h \<or> i = [1]" if "(h, i) \<in> (depends (rp_graph two_views_both))\<^sup>*" for i
    using that by (induction rule: rtrancl_induct) (auto simp: depends_def two_views_deps split: if_splits)
  moreover have "(h, [1]) \<in> depends (rp_graph two_views_both)" using h by (auto simp: depends_def two_views_deps)
  ultimately show ?thesis
    unfolding coherent_def mem_ancestors_iff by (metis fsingleton_iff r_into_rtrancl rtrancl.rtrancl_refl)
qed

theorem coherent_replay_order_irrelevant_witness:
  "\<exists>order r. order = [[1], [2]] \<and> materialize_heads toy_env (rp_graph two_views_both) {|[2]|} = Some r \<and>
     reached r = reached (replay_order toy_env (rp_graph two_views_both) order Map.empty)"
proof -
  let ?D = "depends (rp_graph two_views_both)"
  have "([2], i) \<in> ?D\<^sup>* \<longleftrightarrow> i = [2] \<or> i = [1]" for i
  proof
    assume "([2], i) \<in> ?D\<^sup>*"
    then show "i = [2] \<or> i = [1]"
      by (induction rule: rtrancl_induct) (auto simp: depends_def two_views_deps split: if_splits)
  next
    have "([2], [1]) \<in> ?D" by (simp add: depends_def two_views_deps)
    then show "i = [2] \<or> i = [1] \<Longrightarrow> ([2], i) \<in> ?D\<^sup>*" by auto
  qed
  then have "set [[1], [2]] = {x. \<exists>h. h |\<in>| {|[2]|} \<and> (h, x) \<in> ?D\<^sup>*}" by auto
  moreover have "roots_first (rp_graph two_views_both) [[1], [2]]"
    by (auto simp: roots_first_def two_views_deps less_Suc_eq numeral_2_eq_2)
  ultimately show ?thesis
    using coherent_replay_order_irrelevant [OF two_views_graph two_views_coherent, of "[2]" "[[1], [2]]" toy_env]
    by simp
qed

theorem merge_without_conflicts_witness:
  "\<exists>e w'. merge_heads toy_crypto toy_env two_views ''main'' {|[3]|} (\<lambda>st. True) (Human ''n'' ''e'' [7]) [7] = Some (e, w') \<and>
     fmlookup (rp_views w') ''main'' = Some {|[2], [3]|}"
proof -
  have "case materialize_ws toy_crypto toy_env two_views_both {|[2]|} of Some (Inr st) \<Rightarrow> True | _ \<Rightarrow> False"
    by code_simp
  then obtain st where st: "materialize_ws toy_crypto toy_env two_views_both {|[2]|} = Some (Inr st)"
    by (auto split: option.splits sum.splits)
  have "conflicting_pairs (rp_graph two_views_both)
      (exclusive_delta (rp_graph two_views_both) {|[2]|} (merge_base (rp_graph two_views_both) {|[2]|} {|[3]|}))
      (exclusive_delta (rp_graph two_views_both) {|[3]|} (merge_base (rp_graph two_views_both) {|[2]|} {|[3]|})) = Inr []"
    by code_simp
  moreover have "fmlookup (rp_views two_views_both) ''main'' = Some {|[2]|}"
    by (simp add: two_views_both_def two_views_main_def two_views_def)
  ultimately show ?thesis
    using merge_without_conflicts [OF two_views_hydrated _ two_views_graph two_views_coherent two_views_coherent
        st, of "\<lambda>st. True"]
    by (fastforce simp: sup_commute)
qed

text \<open>
  Recording a change: when \<^verbatim>\<open>snap\<close> records one on a coherent view, the view moves to that
  single head and its history is again consistent, acyclic and coherent, so that only merges
  can bring changes together that do not commute.
\<close>

theorem snap_keeps_coherent:
  fixes w1 :: workspace
  defines "g \<equiv> rp_graph w1"
  assumes "hydrate w name = Some (Inr w1)" "fmlookup (rp_views w1) name = Some heads"
    and "wf_graph g" "acyclic (depends g)" "coherent g heads"
    and snap: "snap K env w name delta files answers message author sk = Some (Inr (Some i, w'))"
    and fresh: "graph_get g i = None" "i \<notin> Range (depends g)" "i |\<notin>| heads"
  shows "fmlookup (rp_views w') name = Some {|i|} \<and> wf_graph (rp_graph w') \<and>
    acyclic (depends (rp_graph w')) \<and> coherent (rp_graph w') {|i|}"
proof -
  obtain atoms blobs where "i = compute_id K heads atoms message author"
    "w' = advance_view ''snap'' name heads (change_new K heads atoms message author sk) (w1\<lparr>ws_blobs := blobs\<rparr>)"
    using snap_recorded [OF snap assms(2,3)] by blast
  then obtain c where c: "i = ch_id c" "ch_deps c = heads"
    and w': "w' = advance_view ''snap'' name heads c (w1\<lparr>ws_blobs := blobs\<rparr>)"
    by (metis change_new_simps(1,5))
  have "rp_graph w' = add_change g c" "fmlookup (rp_views w') name = Some {|ch_id c|}"
    by (simp_all add: w' g_def advance_view_def log_move_def save_view_def record_change_def)
  with record_change_coherent [of g c] assms(4-6) fresh c show ?thesis by simp
qed

definition one_insert :: delta where
  "one_insert st = Inr ([Insert [''c''] [3]], [])"

theorem snap_keeps_coherent_witness:
  "\<exists>i w'. snap toy_crypto toy_env two_views_both ''main'' one_insert (\<lambda>p. None) None ''m'' (Human ''n'' ''e'' [7]) [7]
       = Some (Inr (Some i, w')) \<and> coherent (rp_graph w') {|i|} \<and> acyclic (depends (rp_graph w'))"
proof -
  let ?run = "snap toy_crypto toy_env two_views_both ''main'' one_insert (\<lambda>p. None) None ''m''
    (Human ''n'' ''e'' [7]) [7]"
  have "case ?run of Some (Inr (Some i, w')) \<Rightarrow> i = [1, 1, 109] | _ \<Rightarrow> False" by code_simp
  then obtain w' where run: "?run = Some (Inr (Some [1, 1, 109], w'))"
    by (auto split: option.splits sum.splits prod.splits)
  have hyd: "hydrate two_views_both ''main'' = Some (Inr two_views_both)" by code_simp
  have view: "fmlookup (rp_views two_views_both) ''main'' = Some {|[2]|}"
    by (simp add: two_views_both_def two_views_main_def two_views_def)
  have "graph_get (rp_graph two_views_both) [1, 1, 109] = None"
    by (simp add: two_views_both_def two_views_main_def graph_get_add base_change_def main_change_def dev_change_def)
  moreover have "[1, 1, 109] \<notin> Range (depends (rp_graph two_views_both))"
    by (auto simp: depends_def two_views_deps split: if_splits)
  ultimately show ?thesis
    using snap_keeps_coherent [OF hyd view two_views_graph two_views_coherent run] run by auto
qed

section \<open>Conflicts\<close>

lemma find_overlapping_path_blobs:
  assumes "(\<forall>a \<in> set as. paths a = []) \<or> (\<forall>b \<in> set bs. paths b = [])"
  shows "find_overlapping_path as bs = None"
proof -
  have "set (overlaps as bs) = {}" using assms by (auto simp: overlaps_def)
  then have "overlaps as bs = []" by (simp only: set_empty)
  then show ?thesis by (simp add: find_overlapping_path_def)
qed

lemma conflicts_with_members:
  "conflicts_with g a bs = Inr hits \<Longrightarrow> b \<in> set hits \<longleftrightarrow>
   b \<in> set bs \<and> (\<exists>change_b. graph_get g b = Some change_b \<and> \<not> commutes a change_b)"
  by (induction bs arbitrary: hits) (auto simp: result_simps split: option.splits if_splits)

lemma conflicting_pairs_members:
  assumes "conflicting_pairs g as bs = Inr pairs"
  shows "(a, b) \<in> set pairs \<longleftrightarrow> a \<in> set as \<and> b \<in> set bs \<and>
    (\<exists>x y. graph_get g a = Some x \<and> graph_get g b = Some y \<and> \<not> commutes x y)"
  using assms
proof (induction as arbitrary: pairs)
  case (Cons a' as)
  then obtain x hits rest where "graph_get g a' = Some x" "conflicts_with g x bs = Inr hits"
    "conflicting_pairs g as bs = Inr rest" "pairs = map (Pair a') hits @ rest"
    by (auto simp: result_simps split: option.splits)
  with Cons.IH [of rest] conflicts_with_members [of g x bs hits b] show ?case by auto
qed simp

lemma build_conflicts_stuck:
  assumes "\<forall>(a, b) \<in> set pairs. graph_get g a \<noteq> None \<and> graph_get g b \<noteq> None"
    and "(a, b) \<in> set pairs" "graph_get g a = Some x" "graph_get g b = Some y"
    and "find_overlapping_path (ch_atoms x) (ch_atoms y) = None"
  shows "fst (build_conflicts K g base ours theirs pairs seen blobs) = Inl NoOverlappingPath"
  using assms(1,2)
proof (induction pairs arbitrary: seen blobs)
  case (Cons p pairs)
  obtain a' b' where p: "p = (a', b')" by (cases p)
  with Cons.prems(1) obtain x' y' where get: "graph_get g a' = Some x'" "graph_get g b' = Some y'" by auto
  show ?case
  proof (cases "find_overlapping_path (ch_atoms x') (ch_atoms y')")
    case None
    with p get show ?thesis by simp
  next
    case (Some q)
    with get p Cons.prems(2) assms(3-5) have later: "(a, b) \<in> set pairs" by auto
    have rest: "fst (build_conflicts K g base ours theirs pairs seen blobs) = Inl NoOverlappingPath" for seen blobs
      by (rule Cons.IH) (use Cons.prems(1) later in auto)
    show ?thesis using rest p get Some by (auto simp: Let_def split: prod.splits) (metis fst_conv map_result_simps(1))+
  qed
qed simp

text \<open>
  C23.  Whole-file conflicts cannot be merged: when a change that consists of whole-file atoms
  takes part in a conflict, no overlapping path is found for it, and the merge fails after it
  has already left a pending conflict behind; the view does not move.
\<close>

theorem whole_file_conflict_stuck:
  fixes w2 :: workspace
  defines "g \<equiv> rp_graph w2"
  assumes hydrated: "hydrate w name = Some (Inr w1)" "hydrate_heads w1 target = Some (Inr w2)"
    and view: "fmlookup (rp_views w2) name = Some heads"
    and state: "materialize_ws K env w2 heads = Some (Inr st)" "clean st"
      "materialize_ws K env w2 target = Some (Inr target_state)"
      "materialize_ws K env w2 (merge_base g heads target) = Some (Inr lca_state)"
    and pairs: "conflicting_pairs g (exclusive_delta g heads (merge_base g heads target))
      (exclusive_delta g target (merge_base g heads target)) = Inr pairs"
    and pair: "(a, b) \<in> set pairs" "graph_get g a = Some x" "graph_get g b = Some y"
      "(\<forall>atom \<in> set (ch_atoms x). paths atom = []) \<or> (\<forall>atom \<in> set (ch_atoms y). paths atom = [])"
  shows "\<exists>w'. merge_heads K env w name target clean author sk = Some (Some NoOverlappingPath, w') \<and>
    rp_views w' = rp_views w2 \<and> ws_conflict w' \<noteq> None"
proof -
  let ?w = "w2\<lparr>ws_conflict := Some \<lparr>pc_current_view = name, pc_target_heads = target, pc_conflicting_pairs = pairs\<rparr>\<rparr>"
  have known: "\<forall>(a, b) \<in> set pairs. graph_get g a \<noteq> None \<and> graph_get g b \<noteq> None"
    using conflicting_pairs_members [OF pairs] by fastforce
  have stuck: "fst (build_conflicts K g lca st target_state pairs [] blobs) = Inl NoOverlappingPath" for lca blobs
    by (rule build_conflicts_stuck [OF known pair(1-3) find_overlapping_path_blobs [OF pair(4)]])
  have mats: "materialize_ws K env ?w hs = materialize_ws K env w2 hs" for hs
    by (simp add: materialize_ws_def)
  obtain p rest where cons: "pairs = p # rest" using pair(1) by (cases pairs) auto
  have "merge_heads K env w name target clean author sk =
      record_conflict K env name heads target (merge_base g heads target) st pairs author sk w2"
    using hydrated view state(1,2) pairs by (simp add: merge_heads_def with_state_def Let_def g_def cons)
  moreover define lca where "lca = (if merge_base g heads target = {||} then Map.empty else lca_state)"
  then have lca: "(if merge_base g heads target = {||} then Some (Inr Map.empty)
      else materialize_ws K env w2 (merge_base g heads target)) = Some (Inr lca)"
    using state(4) by simp
  obtain blobs where "build_conflicts K g lca st target_state pairs [] (ws_blobs w2) = (Inl NoOverlappingPath, blobs)"
    using stuck [of lca "ws_blobs w2"] by (metis prod.collapse)
  then have "record_conflict K env name heads target (merge_base g heads target) st pairs author sk w2 =
      Some (Some NoOverlappingPath, ?w\<lparr>ws_blobs := blobs\<rparr>)"
    using state(3) lca by (simp add: record_conflict_def Let_def mats with_state_def g_def cong: if_cong)
  ultimately show ?thesis by auto
qed

text \<open>Both views replace the same file.\<close>

definition blob_views :: workspace where
  "blob_views = two_views\<lparr>rp_store := fmap_of_list [([1], base_change),
     ([2], (node 2 [1])\<lparr>ch_atoms := [Blob ''p'' [2] 1]\<rparr>), ([3], (node 3 [1])\<lparr>ch_atoms := [Blob ''p'' [3] 1]\<rparr>)]\<rparr>"

definition blob_views_main :: workspace where
  "blob_views_main = blob_views\<lparr>rp_graph :=
     add_change (add_change graph_new ((node 2 [1])\<lparr>ch_atoms := [Blob ''p'' [2] 1]\<rparr>)) base_change\<rparr>"

definition blob_views_both :: workspace where
  "blob_views_both = blob_views_main\<lparr>rp_graph :=
     add_change (rp_graph blob_views_main) ((node 3 [1])\<lparr>ch_atoms := [Blob ''p'' [3] 1]\<rparr>)\<rparr>"

definition materializes :: "workspace \<Rightarrow> blake3_hash fset \<Rightarrow> bool" where
  "materializes w heads = (case materialize_ws toy_crypto toy_env w heads of Some (Inr st) \<Rightarrow> True | _ \<Rightarrow> False)"

lemma materializes_state: "materializes w heads \<Longrightarrow> \<exists>st. materialize_ws toy_crypto toy_env w heads = Some (Inr st)"
  by (auto simp: materializes_def split: option.splits sum.splits)

theorem whole_file_conflict_stuck_witness:
  "\<exists>w'. merge_heads toy_crypto toy_env blob_views ''main'' {|[3]|} (\<lambda>st. True) (Human ''n'' ''e'' [7]) [7] =
       Some (Some NoOverlappingPath, w') \<and>
     fmlookup (rp_views w') ''main'' = Some {|[2]|} \<and> ws_conflict w' \<noteq> None"
proof -
  let ?g = "rp_graph blob_views_both"
  have hyd: "hydrate blob_views ''main'' = Some (Inr blob_views_main)"
    "hydrate_heads blob_views_main {|[3]|} = Some (Inr blob_views_both)" by code_simp+
  have views: "rp_views blob_views_both = fmap_of_list [(''main'', {|[2]|}), (''dev'', {|[3]|})]"
    by (simp add: blob_views_both_def blob_views_main_def blob_views_def two_views_def)
  have "materializes blob_views_both {|[2]|}" "materializes blob_views_both {|[3]|}"
    "materializes blob_views_both (merge_base ?g {|[2]|} {|[3]|})" by code_simp+
  then obtain st st2 st3 where st: "materialize_ws toy_crypto toy_env blob_views_both {|[2]|} = Some (Inr st)"
    "materialize_ws toy_crypto toy_env blob_views_both {|[3]|} = Some (Inr st2)"
    "materialize_ws toy_crypto toy_env blob_views_both (merge_base ?g {|[2]|} {|[3]|}) = Some (Inr st3)"
    using materializes_state by metis
  have pairs: "conflicting_pairs ?g (exclusive_delta ?g {|[2]|} (merge_base ?g {|[2]|} {|[3]|}))
      (exclusive_delta ?g {|[3]|} (merge_base ?g {|[2]|} {|[3]|})) = Inr [([2], [3])]" by code_simp
  have get: "graph_get ?g [2] = Some ((node 2 [1])\<lparr>ch_atoms := [Blob ''p'' [2] 1]\<rparr>)"
    "graph_get ?g [3] = Some ((node 3 [1])\<lparr>ch_atoms := [Blob ''p'' [3] 1]\<rparr>)"
    by (simp_all add: blob_views_both_def blob_views_main_def graph_get_add base_change_def)
  show ?thesis
    using whole_file_conflict_stuck [where author = "Human ''n'' ''e'' [7]" and sk = "[7]",
        OF hyd _ st(1) TrueI st(2,3) pairs _ get]
    by (auto simp: views)
qed

text \<open>What a conflict atom records about one path.\<close>

definition conflict_for ::
  "('sk, 'x) crypto_scheme \<Rightarrow> materialized_state \<Rightarrow> materialized_state \<Rightarrow> materialized_state \<Rightarrow> node_path \<Rightarrow> atom" where
  "conflict_for K base ours theirs p =
     Conflict [blake3 K (extract_content_at_path base p)]
       (sort [blake3 K (extract_content_at_path ours p), blake3 K (extract_content_at_path theirs p)]) p"

definition conflict_stored :: "atom \<Rightarrow> (blake3_hash, bytes) fmap \<Rightarrow> bool" where
  "conflict_stored x blobs = (case x of Conflict bases sides p \<Rightarrow> set bases \<union> set sides \<subseteq> fset (fmdom blobs) | _ \<Rightarrow> False)"

lemma put_blob_dom: "put_blob K content blobs = (h, blobs') \<Longrightarrow> h = blake3 K content \<and> fmdom blobs' = finsert h (fmdom blobs)"
  by (auto simp: put_blob_def Let_def split: if_splits)

lemma build_conflicts_atoms:
  assumes "build_conflicts K g base ours theirs pairs seen blobs = (Inr atoms, blobs')"
  shows "fmdom blobs |\<subseteq>| fmdom blobs' \<and> (\<forall>x \<in> set atoms. conflict_stored x blobs') \<and>
    (\<forall>(a, b) \<in> set pairs. \<exists>x y p. graph_get g a = Some x \<and> graph_get g b = Some y \<and>
       find_overlapping_path (ch_atoms x) (ch_atoms y) = Some p \<and>
       (p \<in> set seen \<or> conflict_for K base ours theirs p \<in> set atoms))"
  using assms
proof (induction pairs arbitrary: seen blobs atoms)
  case (Cons q pairs)
  obtain a b where q: "q = (a, b)" by (cases q)
  with Cons.prems obtain x y p where get: "graph_get g a = Some x" "graph_get g b = Some y"
    and p: "find_overlapping_path (ch_atoms x) (ch_atoms y) = Some p"
    by (auto split: option.splits)
  show ?case
  proof (cases "p \<in> set seen")
    case True
    with Cons.prems q get p Cons.IH [of seen blobs atoms] show ?thesis by auto
  next
    case False
    obtain hb b1 where s1: "put_blob K (extract_content_at_path base p) blobs = (hb, b1)" by fastforce
    obtain ho b2 where s2: "put_blob K (extract_content_at_path ours p) b1 = (ho, b2)" by fastforce
    obtain ht b3 where s3: "put_blob K (extract_content_at_path theirs p) b2 = (ht, b3)" by fastforce
    obtain rest where rest: "build_conflicts K g base ours theirs pairs (p # seen) b3 = (Inr rest, blobs')"
      and atoms: "atoms = conflict_for K base ours theirs p # rest"
      using Cons.prems q get p False s1 s2 s3
        put_blob_dom [OF s1] put_blob_dom [OF s2] put_blob_dom [OF s3]
      by (auto simp: map_result_Inr_iff conflict_for_def split: prod.splits)
    have dom: "fmdom b3 = finsert ht (finsert ho (finsert hb (fmdom blobs)))"
      using put_blob_dom [OF s1] put_blob_dom [OF s2] put_blob_dom [OF s3] by simp
    have IH: "fmdom b3 |\<subseteq>| fmdom blobs'" "\<forall>x \<in> set rest. conflict_stored x blobs'"
      "\<forall>(a, b) \<in> set pairs. \<exists>x y q. graph_get g a = Some x \<and> graph_get g b = Some y \<and>
       find_overlapping_path (ch_atoms x) (ch_atoms y) = Some q \<and>
       (q \<in> set (p # seen) \<or> conflict_for K base ours theirs q \<in> set rest)"
      using Cons.IH [OF rest] by auto
    have "conflict_stored (conflict_for K base ours theirs p) blobs'"
      using IH(1) dom put_blob_dom [OF s1] put_blob_dom [OF s2] put_blob_dom [OF s3]
      by (auto simp: conflict_stored_def conflict_for_def)
    moreover have "\<exists>x y q. graph_get g a' = Some x \<and> graph_get g b' = Some y \<and>
       find_overlapping_path (ch_atoms x) (ch_atoms y) = Some q \<and>
       (q \<in> set seen \<or> conflict_for K base ours theirs q \<in> set atoms)"
      if "(a', b') \<in> set (q # pairs)" for a' b'
    proof (cases "(a', b') = q")
      case True
      with q get p atoms show ?thesis by auto
    next
      case False
      with that have "(a', b') \<in> set pairs" by simp
      with IH(3) obtain x' y' p' where "graph_get g a' = Some x'" "graph_get g b' = Some y'"
        "find_overlapping_path (ch_atoms x') (ch_atoms y') = Some p'"
        "p' = p \<or> p' \<in> set seen \<or> conflict_for K base ours theirs p' \<in> set rest" by fastforce
      with atoms show ?thesis by auto
    qed
    moreover have "fmdom blobs |\<subseteq>| fmdom blobs'" using IH(1) dom by blast
    ultimately show ?thesis using IH(2) atoms by auto
  qed
qed simp

text \<open>
  Recorded conflicts: a merge that succeeds in spite of conflicts moves the view to one
  change on top of both sides; for each conflicting pair it carries a conflict atom at their
  overlapping path with the hashes of the content of the merge base, of our side and of theirs
  there, all of them in the blob store.
\<close>

theorem conflict_recorded:
  fixes w2 :: workspace
  defines "g \<equiv> rp_graph w2"
  assumes hydrated: "hydrate w name = Some (Inr w1)" "hydrate_heads w1 target = Some (Inr w2)"
    and view: "fmlookup (rp_views w2) name = Some heads"
    and ours: "materialize_ws K env w2 heads = Some (Inr ours)"
    and pairs: "conflicting_pairs g (exclusive_delta g heads (merge_base g heads target))
      (exclusive_delta g target (merge_base g heads target)) = Inr pairs" "pairs \<noteq> []"
    and merged: "merge_heads K env w name target clean author sk = Some (None, w')"
  shows "\<exists>c base theirs. fmlookup (rp_views w') name = Some {|ch_id c|} \<and>
    graph_get (rp_graph w') (ch_id c) = Some c \<and> ch_deps c = heads |\<union>| target \<and>
    materialize_ws K env w2 target = Some (Inr theirs) \<and>
    (\<forall>(a, b) \<in> set pairs. \<exists>x y p. graph_get g a = Some x \<and> graph_get g b = Some y \<and>
       find_overlapping_path (ch_atoms x) (ch_atoms y) = Some p \<and>
       conflict_for K base ours theirs p \<in> set (ch_atoms c) \<and>
       conflict_stored (conflict_for K base ours theirs p) (ws_blobs w'))"
proof -
  let ?lca = "merge_base g heads target"
  let ?w = "w2\<lparr>ws_conflict := Some \<lparr>pc_current_view = name, pc_target_heads = target, pc_conflicting_pairs = pairs\<rparr>\<rparr>"
  have mats: "materialize_ws K env ?w hs = materialize_ws K env w2 hs" for hs by (simp add: materialize_ws_def)
  obtain p rest where cons: "pairs = p # rest" using pairs(2) by (cases pairs) auto
  have "clean ours" using merged hydrated view ours
    by (auto simp: merge_heads_def with_state_def split: if_splits)
  then have run: "record_conflict K env name heads target ?lca ours pairs author sk w2 = Some (None, w')"
    using merged hydrated view ours pairs(1) by (simp add: merge_heads_def with_state_def Let_def g_def cons)
  obtain theirs where theirs: "materialize_ws K env w2 target = Some (Inr theirs)"
    using run by (auto simp: record_conflict_def with_state_def Let_def mats split: option.splits sum.splits)
  obtain base where base: "(if ?lca = {||} then Some (Inr Map.empty) else materialize_ws K env w2 ?lca) = Some (Inr base)"
    using run theirs
    by (auto simp: record_conflict_def with_state_def Let_def mats split: option.splits sum.splits cong: if_cong)
  obtain r blobs where built: "build_conflicts K g base ours theirs pairs [] (ws_blobs w2) = (r, blobs)" by fastforce
  from run theirs base built obtain atoms where r: "r = Inr atoms"
    by (auto simp: record_conflict_def with_state_def Let_def mats g_def split: sum.splits cong: if_cong)
  define c where "c = change_new K (heads |\<union>| target) (sort_key conflict_at atoms)
    (''merge conflict: '' @ nat_dec (length pairs) @ '' pair(s)'') author sk"
  have fin: "finish_merge K env name heads {|ch_id c|} (record_change c (?w\<lparr>ws_blobs := blobs\<rparr>)) = Some (None, w')"
    using run theirs base built r
    by (simp add: record_conflict_def with_state_def Let_def mats g_def c_def split: if_splits cong: if_cong)
  then have "w' = log_move ''merge'' name heads {|ch_id c|} (save_view name {|ch_id c|}
      (record_change c (?w\<lparr>ws_blobs := blobs\<rparr>)))"
    by (auto simp: finish_merge_def with_state_def Let_def split: option.splits sum.splits)
  then have w': "fmlookup (rp_views w') name = Some {|ch_id c|}" "graph_get (rp_graph w') (ch_id c) = Some c"
    "ws_blobs w' = blobs"
    by (simp_all add: log_move_def save_view_def record_change_def graph_get_add)
  have "ch_deps c = heads |\<union>| target" "set (ch_atoms c) = set atoms" by (simp_all add: c_def)
  with w' theirs build_conflicts_atoms [OF built [unfolded r]] show ?thesis by fastforce
qed

text \<open>Both views write the same path.\<close>

definition path_views :: workspace where
  "path_views = two_views\<lparr>rp_store := fmap_of_list [([1], base_change), ([2], main_change),
     ([3], dev_change\<lparr>ch_atoms := [Insert [''a''] [3]]\<rparr>)]\<rparr>"

definition path_views_main :: workspace where
  "path_views_main = path_views\<lparr>rp_graph := add_change (add_change graph_new main_change) base_change\<rparr>"

definition path_views_both :: workspace where
  "path_views_both = path_views_main\<lparr>rp_graph :=
     add_change (rp_graph path_views_main) (dev_change\<lparr>ch_atoms := [Insert [''a''] [3]]\<rparr>)\<rparr>"

theorem conflict_recorded_witness:
  "\<exists>w' (c :: change) x y. merge_heads toy_crypto toy_env path_views ''main'' {|[3]|} (\<lambda>st. True) (Human ''n'' ''e'' [7]) [7] =
       Some (None, w') \<and>
     fmlookup (rp_views w') ''main'' = Some {|ch_id c|} \<and> ch_deps c = {|[2], [3]|} \<and>
     Conflict x y [''a''] \<in> set (ch_atoms c)"
proof -
  let ?g = "rp_graph path_views_both"
  let ?run = "merge_heads toy_crypto toy_env path_views ''main'' {|[3]|} (\<lambda>st. True) (Human ''n'' ''e'' [7]) [7]"
  have hyd: "hydrate path_views ''main'' = Some (Inr path_views_main)"
    "hydrate_heads path_views_main {|[3]|} = Some (Inr path_views_both)" by code_simp+
  have view: "fmlookup (rp_views path_views_both) ''main'' = Some {|[2]|}"
    by (simp add: path_views_both_def path_views_main_def path_views_def two_views_def)
  have "materializes path_views_both {|[2]|}" by code_simp
  then obtain st where st: "materialize_ws toy_crypto toy_env path_views_both {|[2]|} = Some (Inr st)"
    using materializes_state by metis
  have pairs: "conflicting_pairs ?g (exclusive_delta ?g {|[2]|} (merge_base ?g {|[2]|} {|[3]|}))
      (exclusive_delta ?g {|[3]|} (merge_base ?g {|[2]|} {|[3]|})) = Inr [([2], [3])]" by code_simp
  have "case ?run of Some (None, w') \<Rightarrow> True | _ \<Rightarrow> False" by code_simp
  then obtain w' where run: "?run = Some (None, w')" by (auto split: option.splits prod.splits)
  have get: "graph_get ?g [2] = Some main_change" "graph_get ?g [3] = Some (dev_change\<lparr>ch_atoms := [Insert [''a''] [3]]\<rparr>)"
    by (simp_all add: path_views_both_def path_views_main_def graph_get_add base_change_def main_change_def dev_change_def)
  have p: "find_overlapping_path (ch_atoms main_change) [Insert [''a''] [3]] = Some [''a'']" by code_simp
  obtain c :: change and base theirs where c: "fmlookup (rp_views w') ''main'' = Some {|ch_id c|}" "ch_deps c = {|[2]|} |\<union>| {|[3]|}"
    and atoms: "\<forall>(a, b) \<in> set [([2], [3])]. \<exists>x y p. graph_get ?g a = Some x \<and> graph_get ?g b = Some y \<and>
       find_overlapping_path (ch_atoms x) (ch_atoms y) = Some p \<and>
       conflict_for toy_crypto base st theirs p \<in> set (ch_atoms c) \<and>
       conflict_stored (conflict_for toy_crypto base st theirs p) (ws_blobs w')"
    using conflict_recorded [OF hyd view st pairs list.distinct(2) run] by blast
  from atoms get p have "conflict_for toy_crypto base st theirs [''a''] \<in> set (ch_atoms c)" by simp
  then have "\<exists>x y. Conflict x y [''a''] \<in> set (ch_atoms c)" by (auto simp: conflict_for_def)
  moreover have "ch_deps c = {|[2], [3]|}" unfolding c(2) by auto
  ultimately show ?thesis using run c(1) by blast
qed

end
