(* ===== verification/Gc.thy ===== *)
theory Gc
  imports Merge
begin

text \<open>
  Garbage collection (\<^verbatim>\<open>Repository::gc\<close> in \<^verbatim>\<open>arc-cli/src/repo/core.rs\<close>).  The listing of the
  views directory is an argument: it holds the top-level names only, so views with nested
  names do not occur in it.  Whether a file can be removed is an argument too.
\<close>

record gc_result =
  changes_deleted :: nat
  blobs_deleted :: nat

section \<open>Roots and stability\<close>

definition ends_with :: "string \<Rightarrow> string \<Rightarrow> bool" where
  "ends_with name sfx = (length sfx \<le> length name \<and> drop (length name - length sfx) name = sfx)"

text \<open>Names that do not load as views are skipped.\<close>

definition loaded_heads :: "'r repo_scheme \<Rightarrow> string list \<Rightarrow> blake3_hash fset list" where
  "loaded_heads r names = List.map_filter (fmlookup (rp_views r)) names"

definition gc_roots :: "workspace \<Rightarrow> string list \<Rightarrow> blake3_hash fset" where
  "gc_roots w names =
     ffUnion (fset_of_list (loaded_heads w names)) |\<union>|
     ffUnion (fset_of_list (map (\<lambda>m. lm_before m |\<union>| lm_after m) (ws_log w)))"

fun intersection :: "blake3_hash fset list \<Rightarrow> blake3_hash fset" where
  "intersection [] = {||}"
| "intersection (a # rest) = fold (\<lambda>s acc. acc |\<inter>| s) rest a"

definition view_file :: "string \<Rightarrow> bool" where
  "view_file name = (\<not> ends_with name ''.bak'' \<and> \<not> ends_with name ''.tmp'')"

definition gc_stable :: "workspace \<Rightarrow> string list \<Rightarrow> blake3_hash fset" where
  "gc_stable w names =
     intersection (map (ancestors (rp_graph w)) (loaded_heads w (filter view_file names)))"

section \<open>Collection\<close>

fun atom_blob :: "atom \<Rightarrow> blake3_hash option" where
  "atom_blob (Blob path h n) = Some h"
| "atom_blob (Insert at h) = Some h"
| "atom_blob (Delete at h) = Some h"
| "atom_blob _ = None"

definition referenced_blobs :: "change_graph \<Rightarrow> blake3_hash fset \<Rightarrow> blake3_hash fset" where
  "referenced_blobs g reachable =
     ffUnion ((\<lambda>i. case graph_get g i of
         None \<Rightarrow> {||}
       | Some c \<Rightarrow> fset_of_list (List.map_filter atom_blob (ch_atoms c))) |`| reachable)"

definition collect_changes ::
  "(blake3_hash \<Rightarrow> bool) \<Rightarrow> workspace \<Rightarrow> string list \<Rightarrow> blake3_hash fset" where
  "collect_changes removable w names =
     ffilter (\<lambda>i. i |\<notin>| ancestors (rp_graph w) (gc_roots w names) \<and> i |\<in>| gc_stable w names \<and> removable i)
       (fmdom (rp_store w))"

definition collect_blobs ::
  "(blake3_hash \<Rightarrow> bool) \<Rightarrow> workspace \<Rightarrow> string list \<Rightarrow> blake3_hash fset" where
  "collect_blobs removable w names =
     ffilter (\<lambda>h. h |\<notin>| referenced_blobs (rp_graph w) (ancestors (rp_graph w) (gc_roots w names)) \<and> removable h)
       (fmdom (ws_blobs w))"

definition gc ::
  "(blake3_hash \<Rightarrow> bool) \<Rightarrow> (blake3_hash \<Rightarrow> bool) \<Rightarrow> string list \<Rightarrow> workspace \<Rightarrow> gc_result \<times> workspace" where
  "gc removable_change removable_blob names w =
     (let dead_changes = collect_changes removable_change w names;
          dead_blobs = collect_blobs removable_blob w names
      in (\<lparr>changes_deleted = fcard dead_changes, blobs_deleted = fcard dead_blobs\<rparr>,
          w\<lparr>rp_store := fmdrop_fset dead_changes (rp_store w), ws_blobs := fmdrop_fset dead_blobs (ws_blobs w)\<rparr>))"

section \<open>What is collected\<close>

lemma intersection_subset: "i |\<in>| intersection sets \<Longrightarrow> \<exists>s \<in> set sets. i |\<in>| s"
proof (cases sets)
  case (Cons a rest)
  have "i |\<in>| fold (\<lambda>s acc. acc |\<inter>| s) rest a \<Longrightarrow> i |\<in>| a" for a
    by (induction rest arbitrary: a) auto
  moreover assume "i |\<in>| intersection sets"
  ultimately show ?thesis using Cons by auto
qed simp

lemma mem_map_filter: "y \<in> set (List.map_filter f xs) \<longleftrightarrow> (\<exists>x \<in> set xs. f x = Some y)"
  by (induction xs) (auto simp: map_filter_simps split: option.split)

lemma loaded_heads_mem: "heads \<in> set (loaded_heads r names) \<longleftrightarrow> (\<exists>n \<in> set names. fmlookup (rp_views r) n = Some heads)"
  by (simp add: loaded_heads_def mem_map_filter)

lemma stable_reachable: "i |\<in>| gc_stable w names \<Longrightarrow> i |\<in>| ancestors (rp_graph w) (gc_roots w names)"
proof -
  assume "i |\<in>| gc_stable w names"
  then obtain heads where heads: "heads \<in> set (loaded_heads w (filter view_file names))"
    and i: "i |\<in>| ancestors (rp_graph w) heads"
    unfolding gc_stable_def by (fastforce dest: intersection_subset)
  from heads have "heads \<in> set (loaded_heads w names)" by (auto simp: loaded_heads_mem)
  then have "heads |\<subseteq>| gc_roots w names"
    by (auto simp: gc_roots_def ffUnion.rep_eq fset_of_list.rep_eq)
  with i show ?thesis by (auto simp: mem_ancestors_iff)
qed

lemma no_change_collected: "collect_changes removable w names = {||}"
  using stable_reachable by (fastforce simp: collect_changes_def)

lemma referenced_blobs_mem:
  "h |\<in>| referenced_blobs g R \<longleftrightarrow>
   (\<exists>i c a. i |\<in>| R \<and> graph_get g i = Some c \<and> a \<in> set (ch_atoms c) \<and> atom_blob a = Some h)"
proof -
  have "h |\<in>| (case graph_get g i of
        None \<Rightarrow> {||} | Some c \<Rightarrow> fset_of_list (List.map_filter atom_blob (ch_atoms c))) \<longleftrightarrow>
      (\<exists>c a. graph_get g i = Some c \<and> a \<in> set (ch_atoms c) \<and> atom_blob a = Some h)" for i
    by (auto simp: fset_of_list.rep_eq mem_map_filter split: option.split)
  then show ?thesis by (simp add: referenced_blobs_def ffUnion.rep_eq Bex_def)
qed

lemma gc_workspace:
  "snd (gc rc rb names w) = w\<lparr>ws_blobs := fmdrop_fset (collect_blobs rb w names) (ws_blobs w)\<rparr>"
  by (simp add: gc_def Let_def no_change_collected)

section \<open>Properties\<close>



text \<open>
  C9.  Collection from the command line: \<^verbatim>\<open>arc gc\<close> opens the repository anew, so nothing is
  loaded and no blob counts as referenced.  Every blob that can be removed is removed, and no
  change that inserts a removed blob can be replayed any more.
\<close>

theorem fresh_gc_deletes_every_blob:
  assumes "w' = snd (gc rc rb names (reopen w))"
  shows "(\<forall>h. fmlookup (ws_blobs w') h = (if rb h then None else fmlookup (ws_blobs w) h)) \<and>
    (\<forall>c at h st. Insert at h \<in> set (ch_atoms c) \<longrightarrow> rb h \<longrightarrow>
       replayed (apply_change (store_env K env (ws_blobs w')) c st None) = None)"
proof -
  have "referenced_blobs (rp_graph (reopen w)) R = {||}" for R
    by (rule fset_eqI) (simp add: referenced_blobs_mem graph_get_new)
  then have blobs: "fmlookup (ws_blobs w') h = (if rb h then None else fmlookup (ws_blobs w) h)" for h
    by (auto simp: assms gc_workspace collect_blobs_def reopen_def fmdom_notD)
  have fails: "run_effects es st = None" if "Fail \<in> set es" for es st
    using that by (induction es arbitrary: st) (auto split: bind_split)
  have "replayed (apply_change (store_env K env (ws_blobs w')) c st None) = None"
    if ins: "Insert at h \<in> set (ch_atoms c)" and rb: "rb h" for c at h st
  proof -
    have "atom_effect (store_env K env (ws_blobs w')) (Insert at h) = Fail"
      using blobs [of h] rb by (simp add: store_env_def)
    then have "Fail \<in> set (change_effects (store_env K env (ws_blobs w')) None c)"
      using ins by (force simp: change_effects_def step_effect_def outside_sparse_def)
    then show ?thesis
      by (simp add: apply_change_def replayed_apply_change_scoped fails)
  qed
  with blobs show ?thesis by blast
qed

theorem fresh_gc_deletes_every_blob_witness:
  "replayed (apply_change (store_env toy_crypto toy_env
     (ws_blobs (snd (gc (\<lambda>i. True) (\<lambda>h. True) [''main''] (reopen two_views_both))))) main_change Map.empty None) = None"
proof -
  have "Insert [''a''] [2] \<in> set (ch_atoms main_change)" by (simp add: main_change_def)
  with fresh_gc_deletes_every_blob [OF refl, of "\<lambda>h. True" "\<lambda>i. True" "[''main'']" two_views_both] show ?thesis by blast
qed

end
