(* ===== verification/Compact.thy ===== *)
theory Compact
  imports Gc
begin

text \<open>
  Compaction (\<^verbatim>\<open>Repository::compact\<close> in \<^verbatim>\<open>arc-cli/src/repo/core.rs\<close>): the changes below every
  view are replaced by one genesis change that holds the state at their tips; the epoch map
  redirects their ids to it and their objects are deleted.
\<close>

section \<open>The stable history\<close>

fun scan_views :: "workspace \<Rightarrow> string list \<Rightarrow> (repo_error + workspace \<times> (string \<times> blake3_hash fset) list) option" where
  "scan_views w [] = Some (Inr (w, []))"
| "scan_views w (n # names) =
     (if \<not> view_file n then scan_views w names
      else case fmlookup (rp_views w) n of
        None \<Rightarrow> scan_views w names
      | Some heads \<Rightarrow>
          (case hydrate_heads w heads of
             None \<Rightarrow> None
           | Some (Inl e) \<Rightarrow> Some (Inl e)
           | Some (Inr w1) \<Rightarrow>
               map_option (map_result (\<lambda>(w2, scanned).
                 (w2, (n, ancestors (rp_graph w1) heads |\<union>| heads) # scanned))) (scan_views w1 names)))"

definition depended_on_by_stable :: "change_graph \<Rightarrow> blake3_hash fset \<Rightarrow> blake3_hash fset" where
  "depended_on_by_stable g settled =
     ffUnion ((\<lambda>i. case graph_get g i of
         None \<Rightarrow> {||}
       | Some c \<Rightarrow> ffilter (\<lambda>d. d |\<in>| settled) (ch_deps c)) |`| settled)"

definition stable_tips :: "change_graph \<Rightarrow> blake3_hash fset \<Rightarrow> blake3_hash fset" where
  "stable_tips g settled = ffilter (\<lambda>i. i |\<notin>| depended_on_by_stable g settled) settled"

section \<open>The genesis change\<close>

definition file_roots_with_descendants :: "node_path list \<Rightarrow> string list" where
  "file_roots_with_descendants keys =
     map (\<lambda>k. k ! 1) (filter (\<lambda>k. 2 < length k \<and> hd k = ''file'') keys)"

definition bare_file_root :: "string list \<Rightarrow> node_path \<Rightarrow> bool" where
  "bare_file_root roots p = (length p = 2 \<and> hd p = ''file'' \<and> p ! 1 \<in> set roots)"

definition is_dir_path :: "node_path \<Rightarrow> bool" where
  "is_dir_path p = (p \<noteq> [] \<and> hd p = ''dir'')"

definition is_blob_token :: "bytes \<Rightarrow> bool" where
  "is_blob_token content = (take 13 content = str_bytes ''ARC_BLOB_REF:'' \<and> 45 \<le> length content)"

definition genesis_atom ::
  "('sk, 'x) crypto_scheme \<Rightarrow> node_path \<Rightarrow> bytes \<Rightarrow> (blake3_hash, bytes) fmap \<Rightarrow> atom \<times> (blake3_hash, bytes) fmap"
where
  "genesis_atom K p content blobs =
     (if is_dir_path p then (Directory p, blobs)
      else if is_blob_token content
      then (Blob (if 1 < length p then p ! 1 else join ''/'' p) (take 32 (drop 13 content))
              (word_of_nat (length content)), blobs)
      else (let (h, blobs') = put_blob K content blobs in (Insert p h, blobs')))"

fun genesis_atoms ::
  "('sk, 'x) crypto_scheme \<Rightarrow> materialized_state \<Rightarrow> string list \<Rightarrow> node_path list \<Rightarrow>
   (blake3_hash, bytes) fmap \<Rightarrow> atom list \<times> (blake3_hash, bytes) fmap" where
  "genesis_atoms K st roots [] blobs = ([], blobs)"
| "genesis_atoms K st roots (p # ps) blobs =
     (if bare_file_root roots p then genesis_atoms K st roots ps blobs
      else
        (let (a, blobs1) = genesis_atom K p (extract_content_at_path st p) blobs;
             (as, blobs2) = genesis_atoms K st roots ps blobs1
         in (a # as, blobs2)))"

definition sorted_keys :: "materialized_state \<Rightarrow> node_path list" where
  "sorted_keys st = sorted_list_of_set (dom st)"

definition snapshot_atoms ::
  "('sk, 'x) crypto_scheme \<Rightarrow> materialized_state \<Rightarrow> (blake3_hash, bytes) fmap \<Rightarrow> atom list \<times> (blake3_hash, bytes) fmap"
where
  "snapshot_atoms K st blobs =
     genesis_atoms K st (file_roots_with_descendants (sorted_keys st)) (sorted_keys st) blobs"

definition genesis_change ::
  "('sk, 'x) crypto_scheme \<Rightarrow> atom list \<Rightarrow> author \<Rightarrow> 'sk \<Rightarrow> change" where
  "genesis_change K atoms author sk = change_new K {||} atoms ''Compacted Base State'' author sk"

section \<open>Compaction\<close>

definition compacted_heads :: "blake3_hash fset \<Rightarrow> blake3_hash \<Rightarrow> blake3_hash fset \<Rightarrow> blake3_hash fset" where
  "compacted_heads settled genesis_id heads =
     (if fBex heads (\<lambda>h. h |\<in>| settled) then finsert genesis_id (heads |-| settled) else heads)"

fun rewrite_views ::
  "blake3_hash fset \<Rightarrow> blake3_hash \<Rightarrow> string list \<Rightarrow> (string, blake3_hash fset) fmap \<Rightarrow> (string, blake3_hash fset) fmap"
where
  "rewrite_views settled genesis_id [] views = views"
| "rewrite_views settled genesis_id (n # names) views =
     (case fmlookup views n of
        None \<Rightarrow> rewrite_views settled genesis_id names views
      | Some heads \<Rightarrow>
          rewrite_views settled genesis_id names (fmupd n (compacted_heads settled genesis_id heads) views))"

definition redirect_all ::
  "blake3_hash fset \<Rightarrow> blake3_hash \<Rightarrow> (blake3_hash, blake3_hash) fmap \<Rightarrow> (blake3_hash, blake3_hash) fmap" where
  "redirect_all settled genesis_id epochs =
     fmadd epochs (fmap_of_list (map (\<lambda>i. (i, genesis_id)) (sorted_list_of_fset settled)))"

definition commit_compaction ::
  "blake3_hash fset \<Rightarrow> change \<Rightarrow> string list \<Rightarrow> workspace \<Rightarrow> workspace" where
  "commit_compaction settled genesis names w =
     (let w1 = record_change genesis w
      in w1\<lparr>rp_epochs := redirect_all settled (ch_id genesis) (rp_epochs w1),
            rp_views := rewrite_views settled (ch_id genesis) names (rp_views w1),
            rp_store := fmdrop_fset settled (rp_store w1)\<rparr>)"

definition compact ::
  "('sk, 'x) crypto_scheme \<Rightarrow> 'y replay_env_scheme \<Rightarrow> string list \<Rightarrow> workspace \<Rightarrow> (author \<times> 'sk) option \<Rightarrow>
   (repo_error + blake3_hash \<times> workspace) option" where
  "compact K env names w identity =
     (case scan_views w names of
        None \<Rightarrow> None
      | Some (Inl e) \<Rightarrow> Some (Inl e)
      | Some (Inr (w1, scanned)) \<Rightarrow>
          (let settled = intersection (map snd scanned)
           in if settled = {||} then Some (Inl NoStableHistory)
              else (case hydrate_heads w1 (stable_tips (rp_graph w1) settled) of
                      None \<Rightarrow> None
                    | Some (Inl e) \<Rightarrow> Some (Inl e)
                    | Some (Inr w2) \<Rightarrow>
                        materialized (materialize_ws K env w2 (stable_tips (rp_graph w1) settled)) (\<lambda>st.
                          let (atoms, blobs) = snapshot_atoms K st (ws_blobs w2)
                          in case identity of
                               None \<Rightarrow> Some (Inl NoIdentity)
                             | Some (author, sk) \<Rightarrow>
                                 let genesis = genesis_change K atoms author sk
                                 in Some (Inr (ch_id genesis,
                                      commit_compaction settled genesis (map fst scanned) (w2\<lparr>ws_blobs := blobs\<rparr>)))))))"

section \<open>What the genesis change restores\<close>

text \<open>
  The shape replay gives a state: directory entries are empty, and whole-file tokens stand
  under their file.  The store is faithful to a state when no content in it collides with
  another one or with a stored blob.
\<close>

definition well_shaped :: "materialized_state \<Rightarrow> bool" where
  "well_shaped st \<longleftrightarrow> (\<forall>p content. st p = Some content \<longrightarrow>
     (is_dir_path p \<longrightarrow> content = []) \<and>
     (\<not> is_dir_path p \<and> is_blob_token content \<longrightarrow> length content = 45 \<and> (\<exists>f. p = [''file'', f])))"

definition faithful :: "('sk, 'x) crypto_scheme \<Rightarrow> materialized_state \<Rightarrow> (blake3_hash, bytes) fmap \<Rightarrow> bool" where
  "faithful K st blobs \<longleftrightarrow> inj_on (blake3 K) (ran st) \<and>
     (\<forall>content \<in> ran st. \<forall>other. fmlookup blobs (blake3 K content) = Some other \<longrightarrow> other = content)"

definition extends :: "(blake3_hash, bytes) fmap \<Rightarrow> (blake3_hash, bytes) fmap \<Rightarrow> bool" where
  "extends blobs blobs' \<longleftrightarrow> (\<forall>h content. fmlookup blobs h = Some content \<longrightarrow> fmlookup blobs' h = Some content)"

lemma extends_refl [simp]: "extends blobs blobs"
  by (simp add: extends_def)

lemma extends_trans: "extends a b \<Longrightarrow> extends b c \<Longrightarrow> extends a c"
  by (simp add: extends_def)

lemma put_blob_faithful:
  assumes "put_blob K content blobs = (h, blobs')" "content \<in> ran st" "faithful K st blobs"
  shows "h = blake3 K content" "extends blobs blobs'" "faithful K st blobs'" "fmlookup blobs' h = Some content"
proof -
  show h: "h = blake3 K content" using assms(1) by (auto simp: put_blob_def Let_def)
  show "fmlookup blobs' h = Some content"
    using assms by (auto simp: put_blob_def Let_def faithful_def fmdom.rep_eq dom_def split: if_splits)
  show "extends blobs blobs'"
    using assms(1) by (auto simp: put_blob_def Let_def extends_def fmdom.rep_eq dom_def split: if_splits)
  show "faithful K st blobs'"
    using assms h by (auto simp: put_blob_def Let_def faithful_def inj_on_def split: if_splits)
qed

text \<open>The effect a genesis atom has on a state without its key.\<close>

lemma genesis_atom_effect:
  assumes "genesis_atom K p content blobs = (a, blobs')" "st p = Some content" "well_shaped st" "faithful K st blobs"
  shows "extends blobs blobs'" "faithful K st blobs'"
    "extends blobs' B \<Longrightarrow> s p = None \<Longrightarrow> run_effect (atom_effect (store_env K env B) a) s = Some (s(p \<mapsto> content))"
proof -
  have shape: "is_dir_path p \<Longrightarrow> content = []"
    "\<not> is_dir_path p \<Longrightarrow> is_blob_token content \<Longrightarrow> length content = 45 \<and> (\<exists>f. p = [''file'', f])"
    using assms(2,3) by (auto simp: well_shaped_def)
  have mem: "content \<in> ran st" using assms(2) by (auto simp: ran_def)
  consider "is_dir_path p" | "\<not> is_dir_path p" "is_blob_token content"
    | h where "\<not> is_dir_path p" "\<not> is_blob_token content" "put_blob K content blobs = (h, blobs')" "a = Insert p h"
    using assms(1) by (auto simp: genesis_atom_def split: prod.splits if_splits)
  note cases = this
  have all: "extends blobs blobs' \<and> faithful K st blobs' \<and> (extends blobs' B \<longrightarrow> s p = None \<longrightarrow>
      run_effect (atom_effect (store_env K env B) a) s = Some (s(p \<mapsto> content)))" for B s
  proof (cases rule: cases)
    case 1
    with assms(1,4) shape show ?thesis by (auto simp: genesis_atom_def)
  next
    case 2
    with shape(2) obtain f where p: "p = [''file'', f]" and len: "length content = 45" by auto
    have "blob_token (take 32 (drop 13 content)) = take 13 content @ drop 13 content"
      using 2 len by (simp add: blob_token_def is_blob_token_def del: append_take_drop_id)
    then have "blob_token (take 32 (drop 13 content)) = content" by simp
    with 2 assms(1,4) p show ?thesis by (auto simp: genesis_atom_def)
  next
    case (3 h)
    from put_blob_faithful [OF 3(3) mem assms(4)] 3(4) show ?thesis
      by (auto simp: store_env_def extends_def)
  qed
  then show "extends blobs blobs'" "faithful K st blobs'"
    "extends blobs' B \<Longrightarrow> s p = None \<Longrightarrow> run_effect (atom_effect (store_env K env B) a) s = Some (s(p \<mapsto> content))"
    by blast+
qed

lemma genesis_atoms_effect:
  assumes "genesis_atoms K st roots ps blobs = (as, blobs')" "set ps \<subseteq> dom st" "distinct ps"
    "well_shaped st" "faithful K st blobs"
  shows "extends blobs blobs' \<and> faithful K st blobs' \<and>
    (\<forall>B s. extends blobs' B \<longrightarrow> (\<forall>p \<in> set ps. s p = None) \<longrightarrow>
      run_effects (map (atom_effect (store_env K env B)) as) s =
        Some (\<lambda>p. if p \<in> set ps \<and> \<not> bare_file_root roots p then st p else s p))"
  using assms
proof (induction ps arbitrary: blobs as)
  case (Cons p ps)
  show ?case
  proof (cases "bare_file_root roots p")
    case True
    with Cons.prems Cons.IH [of blobs as] show ?thesis by (auto simp: fun_eq_iff)
  next
    case False
    obtain content where content: "st p = Some content" using Cons.prems(2) by auto
    obtain a blobs1 where a: "genesis_atom K p content blobs = (a, blobs1)" by fastforce
    obtain rest where rest: "genesis_atoms K st roots ps blobs1 = (rest, blobs')" and as: "as = a # rest"
      using Cons.prems(1) False a content by (auto simp: extract_content_at_path_def split: prod.splits)
    note one = genesis_atom_effect [OF a content Cons.prems(4,5)]
    have IH: "extends blobs1 blobs' \<and> faithful K st blobs' \<and>
        (\<forall>B s. extends blobs' B \<longrightarrow> (\<forall>p \<in> set ps. s p = None) \<longrightarrow>
          run_effects (map (atom_effect (store_env K env B)) rest) s =
            Some (\<lambda>p. if p \<in> set ps \<and> \<not> bare_file_root roots p then st p else s p))"
      by (rule Cons.IH [OF rest _ _ Cons.prems(4) one(2)]) (use Cons.prems in auto)
    have "run_effects (map (atom_effect (store_env K env B)) as) s =
        Some (\<lambda>q. if q \<in> set (p # ps) \<and> \<not> bare_file_root roots q then st q else s q)"
      if B: "extends blobs' B" and s: "\<forall>q \<in> set (p # ps). s q = None" for B s
    proof -
      have "run_effect (atom_effect (store_env K env B) a) s = Some (s(p \<mapsto> content))"
        by (rule one(3)) (use B IH s extends_trans in auto)
      moreover have "\<forall>q \<in> set ps. (s(p \<mapsto> content)) q = None" using s Cons.prems(3) by auto
      ultimately show ?thesis using IH B as content False by (auto simp: fun_eq_iff)
    qed
    with IH one(1) show ?thesis by (blast intro: extends_trans)
  qed
qed simp

definition compacted_state :: "materialized_state \<Rightarrow> materialized_state" where
  "compacted_state st =
     (\<lambda>p. if bare_file_root (file_roots_with_descendants (sorted_keys st)) p then None else st p)"

lemma genesis_replay:
  assumes "finite (dom st)" "well_shaped st" "faithful K st blobs" "snapshot_atoms K st blobs = (atoms, blobs')"
    "\<not> is_ai author"
  shows "replayed (apply_change (store_env K env blobs') (genesis_change K atoms author sk) Map.empty None) =
    Some (compacted_state st)"
proof -
  have step: "step_effect e False None = atom_effect e" for e :: "'y replay_env_scheme"
    by (rule ext) (simp add: step_effect_def outside_sparse_def)
  have keys: "set (sorted_keys st) = dom st" "distinct (sorted_keys st)"
    using assms(1) by (simp_all add: sorted_keys_def)
  have "run_effects (map (atom_effect (store_env K env blobs')) atoms) Map.empty = Some (compacted_state st)"
    using genesis_atoms_effect [OF assms(4) [unfolded snapshot_atoms_def] _ keys(2) assms(2,3), of env] keys(1)
    by (auto simp: compacted_state_def fun_eq_iff dom_def)
  with assms(5) show ?thesis
    by (simp add: apply_change_def replayed_apply_change_scoped change_effects_def genesis_change_def step)
qed

section \<open>Compacting a compacted history\<close>

lemma genesis_atom_fst: "fst (genesis_atom K p content blobs) = fst (genesis_atom K p content fmempty)"
  by (simp add: genesis_atom_def put_blob_def Let_def)

lemma genesis_atoms_fst:
  "fst (genesis_atoms K st roots ps blobs) =
   map (\<lambda>p. fst (genesis_atom K p (extract_content_at_path st p) fmempty)) (filter (\<lambda>p. \<not> bare_file_root roots p) ps)"
proof (induction ps arbitrary: blobs)
  case (Cons p ps)
  obtain a blobs1 where a: "genesis_atom K p (extract_content_at_path st p) blobs = (a, blobs1)" by fastforce
  obtain as blobs2 where as: "genesis_atoms K st roots ps blobs1 = (as, blobs2)" by fastforce
  have "a = fst (genesis_atom K p (extract_content_at_path st p) fmempty)"
    using genesis_atom_fst [of K p "extract_content_at_path st p" blobs] a by simp
  moreover have "as = map (\<lambda>p. fst (genesis_atom K p (extract_content_at_path st p) fmempty))
      (filter (\<lambda>p. \<not> bare_file_root roots p) ps)"
    using Cons.IH [of blobs1] as by simp
  ultimately show ?case using Cons.IH [of blobs] a as by simp
qed simp

lemma compacted_keys:
  assumes "finite (dom st)"
  shows "sorted_keys (compacted_state st) =
    filter (\<lambda>p. \<not> bare_file_root (file_roots_with_descendants (sorted_keys st)) p) (sorted_keys st)"
proof (rule sorted_distinct_set_unique)
  have dom: "dom (compacted_state st) =
      {p \<in> dom st. \<not> bare_file_root (file_roots_with_descendants (sorted_keys st)) p}"
    by (auto simp: compacted_state_def dom_def)
  then have fin: "finite (dom (compacted_state st))" using assms by simp
  show "set (sorted_keys (compacted_state st)) =
      set (filter (\<lambda>p. \<not> bare_file_root (file_roots_with_descendants (sorted_keys st)) p) (sorted_keys st))"
    using assms fin dom by (simp add: sorted_keys_def)
qed (simp_all add: sorted_keys_def sorted_wrt_filter)

lemma compacted_roots:
  "file_roots_with_descendants (filter (\<lambda>p. \<not> bare_file_root roots p) keys) = file_roots_with_descendants keys"
proof -
  have "\<not> bare_file_root roots p \<and> 2 < length p \<and> hd p = ''file'' \<longleftrightarrow> 2 < length p \<and> hd p = ''file''" for p
    by (auto simp: bare_file_root_def)
  then show ?thesis by (simp add: file_roots_with_descendants_def conj_commute)
qed

lemma snapshot_fixpoint:
  assumes "finite (dom st)"
  shows "fst (snapshot_atoms K (compacted_state st) blobs') = fst (snapshot_atoms K st blobs)"
proof -
  have "extract_content_at_path (compacted_state st) p = extract_content_at_path st p"
    if "\<not> bare_file_root (file_roots_with_descendants (sorted_keys st)) p" for p
    using that by (simp add: compacted_state_def extract_content_at_path_def)
  then show ?thesis
    by (simp add: snapshot_atoms_def genesis_atoms_fst compacted_keys [OF assms] compacted_roots)
qed

text \<open>A repository whose view has a single stored root as its head.\<close>

lemma hydrate_heads_root:
  assumes "fmlookup (rp_epochs r) i = None" "read_change (rp_store r) i = Some c" "ch_deps c = {||}"
  shows "hydrate_heads (reopen r) {|i|} = Some (Inr (r\<lparr>rp_graph := add_change graph_new c\<rparr>))"
    "hydrate_heads (r\<lparr>rp_graph := add_change graph_new c\<rparr>) {|i|} = Some (Inr (r\<lparr>rp_graph := add_change graph_new c\<rparr>))"
proof -
  have id: "ch_id c = i" by (rule read_change_id [OF assms(2)])
  show "hydrate_heads (reopen r) {|i|} = Some (Inr (r\<lparr>rp_graph := add_change graph_new c\<rparr>))"
    using assms id
    by (simp add: hydrate_heads_def reopen_def hydrate_loop.simps graph_get_new)
  show "hydrate_heads (r\<lparr>rp_graph := add_change graph_new c\<rparr>) {|i|} = Some (Inr (r\<lparr>rp_graph := add_change graph_new c\<rparr>))"
    using assms id by (simp add: hydrate_heads_def hydrate_loop.simps graph_get_add)
qed

lemma root_depends: "ch_deps c = {||} \<Longrightarrow> depends (add_change graph_new c) = {}"
  using depends_insert [of graph_new c] by (simp add: wf_graph_new graph_get_new)
    (auto simp: depends_def deps_of_def entry_or_default_def graph_new_def)

lemma root_ancestors: "ch_deps c = {||} \<Longrightarrow> ancestors (add_change graph_new c) {|i|} = {|i|}"
  by (rule fset_eqI) (auto simp: mem_ancestors_iff root_depends)

lemma root_materializes:
  assumes "ch_deps c = {||}" "ch_id c = i" "replayed (apply_change env c Map.empty None) = Some st"
  shows "materialize_heads env (add_change graph_new c) {|i|} = Some (Inr st)"
proof -
  have wf: "wf_graph (add_change graph_new c)" by (rule wf_add_fresh) (simp_all add: wf_graph_new graph_get_new)
  have "acyclic (depends (add_change graph_new c))" by (simp add: root_depends [OF assms(1)] acyclic_def)
  with wf obtain order where order: "topological_sort (add_change graph_new c) {|i|} = Some order"
    and "history_order (add_change graph_new c) {|i|} order"
    using sorted_history_order by blast
  then have "distinct order" "set order = {i}"
    by (simp_all add: history_order_def root_ancestors [OF assms(1)])
  then have "length order = 1" "i \<in> set order" using distinct_card [of order] by auto
  then have "order = [i]" by (cases order) auto
  moreover obtain st' bl e where "apply_change env c Map.empty None = (st', bl, e)" by (metis prod_cases3)
  ultimately show ?thesis
    using order assms(2,3) by (cases e) (simp_all add: materialize_heads_def graph_get_add)
qed

section \<open>Compacting a single view\<close>

lemma hydrate_loop_known:
  "\<forall>i \<in> set queue. fmlookup epochs i = None \<and> graph_get g i \<noteq> None \<Longrightarrow> hydrate_loop epochs store g queue = Some (Inr g)"
  by (induction queue) (subst hydrate_loop.simps, auto)+

lemma run_effect_finite: "run_effect e st = Some st' \<Longrightarrow> finite (dom st) \<Longrightarrow> finite (dom st')"
  by (cases e) (auto split: if_splits)

lemma run_effects_finite: "run_effects es st = Some st' \<Longrightarrow> finite (dom st) \<Longrightarrow> finite (dom st')"
  by (induction es arbitrary: st) (auto split: bind_splits dest: run_effect_finite)

lemma materialized_finite: "materialize_heads env g heads = Some (Inr st) \<Longrightarrow> finite (dom st)"
proof -
  have "run_steps (replay_step env g) order s = Some st' \<Longrightarrow> finite (dom s) \<Longrightarrow> finite (dom st')" for order s st'
    by (induction order arbitrary: s)
      (auto simp: replay_step_def split: bind_splits option.splits dest: run_effects_finite)
  moreover assume "materialize_heads env g heads = Some (Inr st)"
  then obtain order where "replay_order env g order Map.empty = Inr st" by (auto simp: materialize_heads_def)
  with replay_order_steps [of env g order Map.empty] have "run_steps (replay_step env g) order Map.empty = Some st" by simp
  ultimately show ?thesis by (metis dom_empty finite.emptyI)
qed

lemma stable_tips_mem:
  assumes "wf_graph g" "\<forall>i. i |\<in>| S \<longrightarrow> graph_get g i \<noteq> None"
  shows "i |\<in>| stable_tips g S \<longleftrightarrow> i |\<in>| S \<and> (\<forall>j. j |\<in>| S \<longrightarrow> (j, i) \<notin> depends g)"
proof -
  have "i |\<in>| depended_on_by_stable g S \<longleftrightarrow> i |\<in>| S \<and> (\<exists>j. j |\<in>| S \<and> (j, i) \<in> depends g)"
  proof -
    have "i |\<in>| (case graph_get g j of None \<Rightarrow> {||} | Some c \<Rightarrow> ffilter (\<lambda>d. d |\<in>| S) (ch_deps c)) \<longleftrightarrow>
        i |\<in>| S \<and> (j, i) \<in> depends g" for j
      using assms(1)
      by (auto simp: depends_def deps_of_def entry_or_default_def wf_graph_def graph_get_def split: option.splits)
    then show ?thesis by (auto simp: depended_on_by_stable_def ffUnion.rep_eq)
  qed
  then show ?thesis by (auto simp: stable_tips_def)
qed

lemma stable_tips_ancestors:
  assumes "wf_graph g" "acyclic (depends g)" "\<forall>i. i |\<in>| ancestors g heads \<longrightarrow> graph_get g i \<noteq> None"
  shows "ancestors g (stable_tips g (ancestors g heads)) = ancestors g heads"
proof (rule fset_eqI)
  fix x
  let ?S = "ancestors g heads"
  note tips = stable_tips_mem [OF assms(1,3)]
  show "x |\<in>| ancestors g (stable_tips g ?S) \<longleftrightarrow> x |\<in>| ?S"
  proof
    assume "x |\<in>| ancestors g (stable_tips g ?S)"
    then obtain h where "h |\<in>| ?S" "(h, x) \<in> (depends g)\<^sup>*" unfolding mem_ancestors_iff [of x] tips by blast
    then show "x |\<in>| ?S" by (rule ancestors_closed)
  next
    assume x: "x |\<in>| ?S"
    let ?A = "{y. y |\<in>| ?S \<and> (y, x) \<in> (depends g)\<^sup>*}"
    have "wf (depends g)" by (rule finite_acyclic_wf [OF finite_depends assms(2)])
    moreover have "x \<in> ?A" using x by simp
    ultimately obtain z where z: "z \<in> ?A" and top: "\<And>y. (y, z) \<in> depends g \<Longrightarrow> y \<notin> ?A"
      by (rule wfE_min) blast
    have "z |\<in>| stable_tips g ?S"
      using z top by (auto simp: tips intro: converse_rtrancl_into_rtrancl)
    with z show "x |\<in>| ancestors g (stable_tips g ?S)" by (auto simp: mem_ancestors_iff [of x])
  qed
qed

lemma materialize_same_ancestors:
  "ancestors g A = ancestors g B \<Longrightarrow> materialize_heads env g A = materialize_heads env g B"
  by (simp add: materialize_heads_def topological_sort_def)

section \<open>Properties\<close>

text \<open>
  The genesis change restores the state it was taken from: for a state of the shape replay
  gives it and a store without colliding contents, replaying the genesis change on an empty
  state yields the state again, except that the entry of a file itself is dropped when entries
  below the file exist.
\<close>

theorem genesis_roundtrip:
  assumes "finite (dom st)" "well_shaped st" "faithful K st blobs" "snapshot_atoms K st blobs = (atoms, blobs')"
    "\<not> is_ai author"
  shows "replayed (apply_change (store_env K env blobs') (genesis_change K atoms author sk) Map.empty None) =
    Some (\<lambda>p. if length p = 2 \<and> hd p = ''file'' \<and> (\<exists>q. q \<in> dom st \<and> 2 < length q \<and> hd q = ''file'' \<and> q ! 1 = p ! 1)
                then None else st p)"
proof -
  have "set (sorted_keys st) = dom st" using assms(1) by (simp add: sorted_keys_def)
  then have "bare_file_root (file_roots_with_descendants (sorted_keys st)) p \<longleftrightarrow> length p = 2 \<and> hd p = ''file'' \<and>
      (\<exists>q. q \<in> dom st \<and> 2 < length q \<and> hd q = ''file'' \<and> q ! 1 = p ! 1)" for p
    by (auto simp: bare_file_root_def file_roots_with_descendants_def image_iff)
  with genesis_replay [OF assms, of env sk] show ?thesis by (simp add: compacted_state_def)
qed

text \<open>
  C6.  Compacting twice destroys the repository: the genesis change depends only on the state
  and the identity, so compacting a view that already is a genesis change builds the same
  change again.  Its id is then redirected to itself and its object deleted, and hydrating
  the view runs for ever.
\<close>

theorem compact_again_destroys:
  fixes w :: workspace
  assumes view: "view_file v" "fmlookup (rp_views w) v = Some {|G|}" "fmlookup (rp_epochs w) G = None"
    and state: "finite (dom st)" "well_shaped st" "faithful K st blobs" "snapshot_atoms K st blobs = (atoms, ws_blobs w)"
      "\<not> is_ai author"
    and genesis: "read_change (rp_store w) G = Some (genesis_change K atoms author sk)"
  shows "\<exists>w'. compact K env [v] (reopen w) (Some (author, sk)) = Some (Inr (G, w')) \<and>
    read_change (rp_store w') G = None \<and> fmlookup (rp_epochs w') G = Some G \<and> hydrate (reopen w') v = None"
proof -
  let ?c = "genesis_change K atoms author sk"
  let ?w = "w\<lparr>rp_graph := add_change graph_new ?c\<rparr>"
  have c: "ch_deps ?c = {||}" "ch_id ?c = G"
    using read_change_id [OF genesis] by (simp_all add: genesis_change_def)
  note hyd = hydrate_heads_root [OF view(3) genesis c(1)]
  have scan: "scan_views (reopen w) [v] = Some (Inr (?w, [(v, {|G|})]))"
    using view hyd(1) root_ancestors [OF c(1), of G] by (simp add: reopen_simps)
  have tips: "stable_tips (rp_graph ?w) {|G|} = {|G|}"
    by (rule fset_eqI) (auto simp: stable_tips_def depended_on_by_stable_def graph_get_add c)
  have mat: "materialize_ws K env ?w {|G|} = Some (Inr (compacted_state st))"
    unfolding materialize_ws_def
    using root_materializes [OF c genesis_replay [OF state, of env]] by simp
  obtain atoms' blobs' where snap: "snapshot_atoms K (compacted_state st) (ws_blobs w) = (atoms', blobs')" by fastforce
  with snapshot_fixpoint [OF state(1), of K "ws_blobs w" blobs] state(4) have same: "atoms' = atoms" by simp
  let ?w' = "commit_compaction {|G|} ?c [v] (?w\<lparr>ws_blobs := blobs'\<rparr>)"
  have run: "compact K env [v] (reopen w) (Some (author, sk)) = Some (Inr (G, ?w'))"
    using scan tips hyd(2) mat snap same c(2) by (simp add: compact_def materialized_def Let_def)
  have after: "rp_views ?w' = fmupd v {|G|} (rp_views w)" "fmlookup (rp_epochs ?w') G = Some G"
    "G |\<notin>| fmdom (rp_store ?w')"
    using view(2) c(2)
    by (simp_all add: commit_compaction_def record_change_def Let_def compacted_heads_def redirect_all_def)
  have "epoch_cycle (rp_epochs ?w') {G}" using after(2) by (simp add: epoch_cycle_def)
  then have "hydrate_loop (rp_epochs ?w') (rp_store ?w') graph_new [G] = None"
    by (rule hydrate_loop_diverges) (simp_all add: graph_get_new)
  then have "hydrate (reopen ?w') v = None"
    using after(1) by (simp add: hydrate_def hydrate_heads_def reopen_simps)
  with run after show ?thesis by (fastforce simp: read_change_def fmdom_notD)
qed

definition small_state :: materialized_state where
  "small_state = Map.empty([''f''] \<mapsto> [1])"

lemma small_state_props:
  "finite (dom small_state)" "well_shaped small_state" "faithful toy_crypto small_state fmempty"
  "snapshot_atoms toy_crypto small_state fmempty = ([Insert [''f''] [1]], fmupd [1] [1] fmempty)"
proof -
  have "sorted_keys small_state = [[''f'']]" by (simp add: sorted_keys_def small_state_def)
  then show "snapshot_atoms toy_crypto small_state fmempty = ([Insert [''f''] [1]], fmupd [1] [1] fmempty)"
    by (simp add: snapshot_atoms_def bare_file_root_def genesis_atom_def is_dir_path_def is_blob_token_def
        extract_content_at_path_def small_state_def put_blob_def toy_crypto_def Let_def)
qed (auto simp: small_state_def well_shaped_def faithful_def is_blob_token_def is_dir_path_def toy_crypto_def)

theorem genesis_roundtrip_witness:
  "replayed (apply_change (store_env toy_crypto toy_env (fmupd [1] [1] fmempty))
     (genesis_change toy_crypto [Insert [''f''] [1]] (Human ''n'' ''e'' [7]) [7]) Map.empty None) = Some small_state"
proof -
  have "(\<lambda>p. if length p = 2 \<and> hd p = ''file'' \<and>
      (\<exists>q. q \<in> dom small_state \<and> 2 < length q \<and> hd q = ''file'' \<and> q ! 1 = p ! 1)
      then None else small_state p) = small_state"
    by (rule ext) (auto simp: small_state_def)
  with genesis_roundtrip [OF small_state_props, of "Human ''n'' ''e'' [7]" toy_env "[7]"] show ?thesis by simp
qed

definition compacted_repo :: workspace where
  "compacted_repo =
     (let c = genesis_change toy_crypto [Insert [''f''] [1]] (Human ''n'' ''e'' [7]) [7]
      in \<lparr>rp_graph = graph_new, rp_store = fmap_of_list [(ch_id c, c)], rp_epochs = fmempty,
          rp_views = fmap_of_list [(''main'', {|ch_id c|})], ws_blobs = fmupd [1] [1] fmempty,
          ws_conflict = None, ws_log = [], ws_redo = [], ws_restack = None,
      ws_diffedit = None, ws_pending_ai = False\<rparr>)"

theorem compact_again_destroys_witness:
  "\<exists>G w'. compact toy_crypto toy_env [''main''] (reopen compacted_repo) (Some (Human ''n'' ''e'' [7], [7])) =
       Some (Inr (G, w')) \<and> read_change (rp_store w') G = None \<and> hydrate (reopen w') ''main'' = None"
proof -
  let ?c = "genesis_change toy_crypto [Insert [''f''] [1]] (Human ''n'' ''e'' [7]) [7]"
  have repo: "fmlookup (rp_views compacted_repo) ''main'' = Some {|ch_id ?c|}"
    "fmlookup (rp_epochs compacted_repo) (ch_id ?c) = None"
    "read_change (rp_store compacted_repo) (ch_id ?c) = Some ?c" "ws_blobs compacted_repo = fmupd [1] [1] fmempty"
    by (simp_all add: compacted_repo_def Let_def read_change_def)
  have "view_file ''main''" by code_simp
  from compact_again_destroys [where env = toy_env, OF this repo(1,2) small_state_props(1-3) _ _ repo(3)]
  show ?thesis using small_state_props(4) repo(4) by fastforce
qed

text \<open>
  Redirected dependencies break replay: hydration follows the epoch map from a compacted
  id to its replacement, but the dependency of the live change still names the compacted id.
  No view with such a change below it can be materialised after hydration from disk.
\<close>

theorem redirected_dependency_unmaterialisable:
  assumes "acyclic (replaces (rp_epochs r))" "hydrate_heads (reopen r) heads = Some (Inr r')"
    and "acyclic (depends (rp_graph r'))"
    and live: "i |\<in>| ancestors (rp_graph r') heads" "graph_get (rp_graph r') i = Some c" "d |\<in>| ch_deps c"
    and compacted: "fmlookup (rp_epochs r) d \<noteq> None"
  shows "materialize_heads env (rp_graph r') heads \<noteq> Some (Inr st)"
proof
  let ?g = "rp_graph r'"
  have wf: "wf_graph ?g" and absent: "graph_get ?g d = None"
    using hydrate_heads_loads [OF assms(1), of heads] assms(2) compacted by auto
  assume "materialize_heads env ?g heads = Some (Inr st)"
  then obtain order where order: "topological_sort ?g heads = Some order" "replay_order env ?g order Map.empty = Inr st"
    by (auto simp: materialize_heads_def)
  have "(i, d) \<in> depends ?g"
    using wf live(2,3) by (auto simp: depends_def deps_of_def entry_or_default_def wf_graph_def graph_get_def)
  then have "d |\<in>| ancestors ?g heads" by (rule ancestors_step [OF live(1)])
  then have "d \<in> set order" using topological_sort_members [OF wf order(1) assms(3)] by simp
  with materialize_missing [OF order(2)] absent show False by blast
qed

theorem redirected_dependency_unmaterialisable_witness:
  "\<exists>r'. hydrate_heads (reopen sample_repo) {|[2]|} = Some (Inr r') \<and>
     materialize_heads toy_env (rp_graph r') {|[2]|} \<noteq> Some (Inr Map.empty)"
proof -
  let ?g = "add_change (add_change graph_new (node 2 [7])) (node 1 [])"
  let ?r = "sample_repo\<lparr>rp_graph := ?g\<rparr>"
  have run: "hydrate_heads (reopen sample_repo) {|[2]|} = Some (Inr ?r)" by code_simp
  have deps: "deps_of ?g i = (if i = [2] then {|[7]|} else {||})" for i
    by (simp add: add_change_def deps_of_insert) (simp add: graph_new_def deps_of_def entry_or_default_def)
  have "acyclic (depends ?g)"
    by (rule acyclicI_order [where f = "\<lambda>h. if h = [2] then 1 else (0 :: nat)"])
      (auto simp: depends_def deps split: if_splits)
  moreover have "graph_get ?g [2] = Some (node 2 [7])" by (simp add: graph_get_add)
  moreover have "[2] |\<in>| ancestors ?g {|[2]|}" by (rule heads_in_ancestors) simp
  moreover have "fmlookup (rp_epochs sample_repo) [7] \<noteq> None" by (simp add: sample_repo_def)
  ultimately show ?thesis
    using redirected_dependency_unmaterialisable [OF acyclic_sample run, of "[2]" "node 2 [7]" "[7]"] run by auto
qed


definition uncompacted_repo :: workspace where
  "uncompacted_repo =
     \<lparr>rp_graph = graph_new, rp_store = fmap_of_list [([1], (node 1 [])\<lparr>ch_atoms := [Insert [''f''] [1]]\<rparr>)],
      rp_epochs = fmempty, rp_views = fmap_of_list [(''main'', {|[1]|})], ws_blobs = fmupd [1] [1] fmempty,
      ws_conflict = None, ws_log = [], ws_redo = [], ws_restack = None,
      ws_diffedit = None, ws_pending_ai = False\<rparr>"


end
