(* ===== verification/Command.thy ===== *)
theory Command
  imports Merge History
begin

text \<open>
  Commands that leave traces when they fail.  A command of the repository facade
  (\<^verbatim>\<open>arc-cli/src/repo/core.rs\<close>) maps the workspace to its result and the workspace it leaves,
  whether the result is an error or not; \<^const>\<open>None\<close> is a computation that does not return.  The
  theory holds the sequencing of such commands, their common steps and the resolution of
  revision queries and operation ids.
\<close>

datatype command_error =
    RepoError repo_error
  | TreeError string
  | RewriteError mutator_error
  | RedoOfRewrite
  | ViewChanged string
  | WrongView string string
  | TooFewRevisions
  | SetWithoutHead
  | CheckpointPending
  | NoCheckpoint
  | BadCheckpointVersion
  | BadCheckpointCommand string
  | NoDiffeditSession
  | TargetNotInGraph blake3_hash
  | NothingToApply
  | BadAncestorCount string
  | AmbiguousHead nat
  | NoChangeMatching string
  | AmbiguousPrefix string nat
  | NoAncestorAt nat
  | EmptyOperationLog
  | OperationNotFound string
  | AmbiguousOperation string

section \<open>Sequencing\<close>

type_synonym 'a command = "workspace \<Rightarrow> ((command_error + 'a) \<times> workspace) option"

definition ret :: "'a \<Rightarrow> 'a command" where
  "ret x w = Some (Inr x, w)"

definition raise_error :: "command_error \<Rightarrow> 'a command" where
  "raise_error e w = Some (Inl e, w)"

definition seq :: "'a command \<Rightarrow> ('a \<Rightarrow> 'b command) \<Rightarrow> 'b command" where
  "seq m k w =
     (case m w of
        None \<Rightarrow> None
      | Some (Inl e, w') \<Rightarrow> Some (Inl e, w')
      | Some (Inr x, w') \<Rightarrow> k x w')"

definition andthen :: "unit command \<Rightarrow> 'b command \<Rightarrow> 'b command" where
  "andthen m n = seq m (\<lambda>_. n)"

definition update :: "(workspace \<Rightarrow> workspace) \<Rightarrow> unit command" where
  "update f w = Some (Inr (), f w)"

text \<open>Steps taken when a command fails; the error is passed on.\<close>

definition on_error :: "'a command \<Rightarrow> (workspace \<Rightarrow> workspace) \<Rightarrow> 'a command" where
  "on_error m f w =
     (case m w of
        None \<Rightarrow> None
      | Some (Inl e, w') \<Rightarrow> Some (Inl e, f w')
      | Some (Inr x, w') \<Rightarrow> Some (Inr x, w'))"

definition require :: "bool \<Rightarrow> command_error \<Rightarrow> unit command" where
  "require ok e = (if ok then ret () else raise_error e)"

lemma seq_Inr_iff:
  "seq m k w = Some (Inr y, w'') \<longleftrightarrow> (\<exists>x w'. m w = Some (Inr x, w') \<and> k x w' = Some (Inr y, w''))"
  by (auto simp: seq_def split: option.split sum.split)

lemma seq_Inl_iff:
  "seq m k w = Some (Inl e, w'') \<longleftrightarrow>
     m w = Some (Inl e, w'') \<or> (\<exists>x w'. m w = Some (Inr x, w') \<and> k x w' = Some (Inl e, w''))"
  by (auto simp: seq_def split: option.split sum.split)

lemma on_error_Inr_iff: "on_error m f w = Some (Inr x, w') \<longleftrightarrow> m w = Some (Inr x, w')"
  by (auto simp: on_error_def split: option.split sum.split)

lemma on_error_Inl_iff:
  "on_error m f w = Some (Inl e, w'') \<longleftrightarrow> (\<exists>w'. m w = Some (Inl e, w') \<and> w'' = f w')"
  by (auto simp: on_error_def split: option.split sum.split)

lemma update_iff: "update f w = Some (r, w') \<longleftrightarrow> r = Inr () \<and> w' = f w"
  by (auto simp: update_def)

lemma ret_iff: "ret x w = Some (r, w') \<longleftrightarrow> r = Inr x \<and> w' = w"
  by (auto simp: ret_def)

lemma raise_error_iff: "raise_error e w = Some (r, w') \<longleftrightarrow> r = Inl e \<and> w' = w"
  by (auto simp: raise_error_def)

lemma require_iff:
  "require ok e w = Some (r, w') \<longleftrightarrow> w' = w \<and> r = (if ok then Inr () else Inl e)"
  by (auto simp: require_def ret_iff raise_error_iff)

lemmas command_iffs =
  seq_Inr_iff seq_Inl_iff on_error_Inr_iff on_error_Inl_iff update_iff ret_iff raise_error_iff
  require_iff andthen_def

section \<open>Common steps\<close>

definition lift_repo :: "(workspace \<Rightarrow> (repo_error + workspace) option) \<Rightarrow> unit command" where
  "lift_repo f w =
     (case f w of
        None \<Rightarrow> None
      | Some (Inl e) \<Rightarrow> Some (Inl (RepoError e), w)
      | Some (Inr w') \<Rightarrow> Some (Inr (), w'))"

definition load_view :: "string \<Rightarrow> blake3_hash fset command" where
  "load_view name w =
     (case fmlookup (rp_views w) name of
        None \<Rightarrow> Some (Inl (RepoError (NoSuchView name)), w)
      | Some heads \<Rightarrow> Some (Inr heads, w))"

definition hydrate_cmd :: "blake3_hash fset \<Rightarrow> unit command" where
  "hydrate_cmd heads = lift_repo (\<lambda>w. hydrate_heads w heads)"

definition hydrate_view :: "string \<Rightarrow> unit command" where
  "hydrate_view name = lift_repo (\<lambda>w. hydrate w name)"

text \<open>The state of a set of heads; no heads are the empty state.\<close>

definition state_of ::
  "('sk, 'x) crypto_scheme \<Rightarrow> 'y replay_env_scheme \<Rightarrow> blake3_hash fset \<Rightarrow> materialized_state command" where
  "state_of K env heads w =
     (if heads = {||} then Some (Inr Map.empty, w)
      else (case materialize_ws K env w heads of
              None \<Rightarrow> None
            | Some (Inl e) \<Rightarrow> Some (Inl (RepoError e), w)
            | Some (Inr st) \<Rightarrow> Some (Inr st, w)))"

definition state_of_view ::
  "('sk, 'x) crypto_scheme \<Rightarrow> 'y replay_env_scheme \<Rightarrow> string \<Rightarrow> materialized_state command" where
  "state_of_view K env name w =
     (case materialize (store_env K env (ws_blobs w)) w name of
        None \<Rightarrow> None
      | Some (Inl e) \<Rightarrow> Some (Inl (RepoError e), w)
      | Some (Inr st) \<Rightarrow> Some (Inr st, w))"

text \<open>Writing a state into the file tree is a parameter: it fails with a message or succeeds.\<close>

type_synonym tree_writer = "materialized_state \<Rightarrow> string option"

definition write_tree :: "tree_writer \<Rightarrow> materialized_state \<Rightarrow> unit command" where
  "write_tree out st w =
     (case out st of None \<Rightarrow> Some (Inr (), w) | Some message \<Rightarrow> Some (Inl (TreeError message), w))"

lemma load_view_iff:
  "load_view name w = Some (r, w') \<longleftrightarrow> w' = w \<and>
     r = (case fmlookup (rp_views w) name of None \<Rightarrow> Inl (RepoError (NoSuchView name)) | Some h \<Rightarrow> Inr h)"
  by (auto simp: load_view_def split: option.split)

lemma write_tree_iff:
  "write_tree out st w = Some (r, w') \<longleftrightarrow> w' = w \<and>
     r = (case out st of None \<Rightarrow> Inr () | Some message \<Rightarrow> Inl (TreeError message))"
  by (auto simp: write_tree_def split: option.split)

lemma state_of_same: "state_of K env heads w = Some (r, w') \<Longrightarrow> w' = w"
  by (auto simp: state_of_def split: if_splits option.splits sum.splits)

lemma state_of_view_same: "state_of_view K env name w = Some (r, w') \<Longrightarrow> w' = w"
  by (auto simp: state_of_view_def split: option.splits sum.splits)

lemma hydrate_cmd_error: "hydrate_cmd heads w = Some (Inl e, w') \<Longrightarrow> \<exists>e'. e = RepoError e'"
  by (auto simp: hydrate_cmd_def lift_repo_def split: option.splits sum.splits)

lemma state_of_error: "state_of K env heads w = Some (Inl e, w') \<Longrightarrow> \<exists>e'. e = RepoError e'"
  by (auto simp: state_of_def split: if_splits option.splits sum.splits)

lemma reopen_ws [simp]:
  "ws_blobs (reopen w) = ws_blobs w" "ws_log (reopen w) = ws_log w" "ws_redo (reopen w) = ws_redo w"
  "ws_conflict (reopen w) = ws_conflict w" "ws_diffedit (reopen w) = ws_diffedit w"
  "ws_restack (reopen w) = ws_restack w"
  "ws_pending_ai (reopen w) = ws_pending_ai w"
  by (simp_all add: reopen_def)

text \<open>Two workspaces that agree on disk.\<close>

lemma reopen_eqI:
  "rp_store w = rp_store w' \<Longrightarrow> rp_epochs w = rp_epochs w' \<Longrightarrow> rp_views w = rp_views w' \<Longrightarrow>
   ws_blobs w = ws_blobs w' \<Longrightarrow> ws_conflict w = ws_conflict w' \<Longrightarrow> ws_log w = ws_log w' \<Longrightarrow>
   ws_redo w = ws_redo w' \<Longrightarrow> ws_restack w = ws_restack w' \<Longrightarrow> ws_diffedit w = ws_diffedit w' \<Longrightarrow> ws_pending_ai w = ws_pending_ai w' \<Longrightarrow>
   reopen w = reopen (w' :: workspace)"
  by (rule workspace.equality) (simp_all add: reopen_def)

text \<open>Hydration changes nothing but the graph.\<close>

definition same_but_graph :: "workspace \<Rightarrow> workspace \<Rightarrow> bool" where
  "same_but_graph w w' \<longleftrightarrow> w' = w\<lparr>rp_graph := rp_graph w'\<rparr>"

lemma same_but_graph_refl [simp]: "same_but_graph w w"
  by (simp add: same_but_graph_def)

lemma same_but_graph_fields:
  assumes "same_but_graph w w'"
  shows "rp_store w' = rp_store w" "rp_epochs w' = rp_epochs w" "rp_views w' = rp_views w"
    "ws_blobs w' = ws_blobs w" "ws_log w' = ws_log w" "ws_redo w' = ws_redo w"
    "ws_conflict w' = ws_conflict w" "ws_restack w' = ws_restack w" "ws_diffedit w' = ws_diffedit w" "ws_pending_ai w' = ws_pending_ai w"
  using arg_cong [OF assms [unfolded same_but_graph_def], of rp_store]
    arg_cong [OF assms [unfolded same_but_graph_def], of rp_epochs]
    arg_cong [OF assms [unfolded same_but_graph_def], of rp_views]
    arg_cong [OF assms [unfolded same_but_graph_def], of ws_blobs]
    arg_cong [OF assms [unfolded same_but_graph_def], of ws_log]
    arg_cong [OF assms [unfolded same_but_graph_def], of ws_redo]
    arg_cong [OF assms [unfolded same_but_graph_def], of ws_conflict]
    arg_cong [OF assms [unfolded same_but_graph_def], of ws_restack]
    arg_cong [OF assms [unfolded same_but_graph_def], of ws_diffedit]
    arg_cong [OF assms [unfolded same_but_graph_def], of ws_pending_ai] by simp_all

lemma hydrate_cmd_same: "hydrate_cmd heads w = Some (r, w') \<Longrightarrow> same_but_graph w w'"
  by (auto simp: hydrate_cmd_def lift_repo_def hydrate_heads_def map_result_def same_but_graph_def
      split: option.splits sum.splits)

lemma hydrate_view_cmd:
  "hydrate_view name = (\<lambda>w. case fmlookup (rp_views w) name of
     None \<Rightarrow> Some (Inl (RepoError (NoSuchView name)), w) | Some heads \<Rightarrow> hydrate_cmd heads w)"
  by (auto simp: fun_eq_iff hydrate_view_def hydrate_cmd_def lift_repo_def hydrate_def split: option.split)

lemma hydrate_view_same: "hydrate_view name w = Some (r, w') \<Longrightarrow> same_but_graph w w'"
  by (auto simp: hydrate_view_cmd split: option.splits dest: hydrate_cmd_same)

section \<open>Revision queries\<close>

text \<open>\<^verbatim>\<open>str::parse::<usize>\<close>: an optional plus sign and decimal digits.\<close>

fun parse_digits :: "nat \<Rightarrow> string \<Rightarrow> nat option" where
  "parse_digits n [] = Some n"
| "parse_digits n (c # cs) =
     (if CHR ''0'' \<le> c \<and> c \<le> CHR ''9''
      then (let m = 10 * n + (of_char c - 48)
            in if m > usize_max then None else parse_digits m cs)
      else None)"

definition parse_usize :: "string \<Rightarrow> nat option" where
  "parse_usize s =
     (let digits = (case s of c # cs \<Rightarrow> if c = CHR ''+'' then cs else s | [] \<Rightarrow> s)
      in if digits = [] then None else parse_digits 0 digits)"

fun ancestor_step :: "nat \<Rightarrow> nat \<Rightarrow> (blake3_hash, change) fmap \<Rightarrow> blake3_hash \<Rightarrow> command_error + blake3_hash" where
  "ancestor_step 0 i store cur = Inr cur"
| "ancestor_step (Suc n) i store cur =
     (case read_change store cur of
        None \<Rightarrow> Inl (RepoError (UnreadableChange cur))
      | Some c \<Rightarrow>
          (case sort_key hash_to_hex (sorted_list_of_fset (ch_deps c)) of
             [] \<Rightarrow> Inl (NoAncestorAt i)
           | d # ds \<Rightarrow> ancestor_step n (Suc i) store d))"

definition only_head :: "blake3_hash fset \<Rightarrow> command_error + blake3_hash" where
  "only_head heads =
     (if fcard heads \<noteq> 1 then Inl (AmbiguousHead (fcard heads)) else Inr (hd (sorted_list_of_fset heads)))"

text \<open>The change objects are files named by the hexadecimal form of their ids.\<close>

definition changes_with_prefix :: "(blake3_hash, change) fmap \<Rightarrow> string \<Rightarrow> blake3_hash list" where
  "changes_with_prefix store prefix =
     filter (\<lambda>i. starts_with (hash_to_hex i) prefix) (sorted_list_of_fset (fmdom store))"

definition resolve_base :: "workspace \<Rightarrow> string \<Rightarrow> string \<Rightarrow> command_error + blake3_hash" where
  "resolve_base w current_view base =
     (if base = ''HEAD'' \<or> base = ''@''
      then (case fmlookup (rp_views w) current_view of
              None \<Rightarrow> Inl (RepoError (NoSuchView current_view))
            | Some heads \<Rightarrow> only_head heads)
      else (case fmlookup (rp_views w) base of
              Some heads \<Rightarrow> only_head heads
            | None \<Rightarrow>
                (case changes_with_prefix (rp_store w) base of
                   [] \<Rightarrow> Inl (NoChangeMatching base)
                 | [i] \<Rightarrow> Inr i
                 | is \<Rightarrow> Inl (AmbiguousPrefix base (length is)))))"

definition resolve_rev :: "workspace \<Rightarrow> string \<Rightarrow> string \<Rightarrow> command_error + blake3_hash" where
  "resolve_rev w current_view query =
     (case split_once (CHR ''~'') query of
        None \<Rightarrow> resolve_base w current_view query
      | Some (base, steps) \<Rightarrow>
          (case parse_usize steps of
             None \<Rightarrow> Inl (BadAncestorCount query)
           | Some n \<Rightarrow> bind_result (resolve_base w current_view base) (ancestor_step n 0 (rp_store w))))"

definition resolve_cmd :: "string \<Rightarrow> string \<Rightarrow> blake3_hash command" where
  "resolve_cmd current_view query w = Some (resolve_rev w current_view query, w)"

fun resolve_all :: "workspace \<Rightarrow> string \<Rightarrow> string list \<Rightarrow> command_error + blake3_hash list" where
  "resolve_all w current_view [] = Inr []"
| "resolve_all w current_view (q # qs) =
     bind_result (resolve_rev w current_view q) (\<lambda>i. map_result ((#) i) (resolve_all w current_view qs))"

lemma resolve_cmd_iff: "resolve_cmd v q w = Some (r, w') \<longleftrightarrow> w' = w \<and> r = resolve_rev w v q"
  by (auto simp: resolve_cmd_def)

end
