(* ===== verification/UndoRedo.thy ===== *)
theory UndoRedo
  imports Command
begin

text \<open>
  Undoing, redoing and moving a view (\<^verbatim>\<open>arc-cli/src/repo/core.rs\<close>): \<^verbatim>\<open>undo\<close>, \<^verbatim>\<open>redo\<close>,
  \<^verbatim>\<open>abandon_heads\<close>, \<^verbatim>\<open>op_restore\<close> and \<^verbatim>\<open>op_revert\<close> over the log of moves, the redo stack and the
  epoch map.  The log and the stack are lists whose last element is the most recent.
\<close>

section \<open>The log, the stack and the epoch map\<close>

definition pop_log :: "logged_move option command" where
  "pop_log w =
     (if ws_log w = [] then Some (Inr None, w)
      else Some (Inr (Some (last (ws_log w))), w\<lparr>ws_log := butlast (ws_log w)\<rparr>))"

definition append_log :: "logged_move \<Rightarrow> workspace \<Rightarrow> workspace" where
  "append_log op w = w\<lparr>ws_log := ws_log w @ [op]\<rparr>"

definition push_redo :: "logged_move \<Rightarrow> workspace \<Rightarrow> workspace" where
  "push_redo op w = w\<lparr>ws_redo := ws_redo w @ [op]\<rparr>"

text \<open>The entries of a rewrite that are still as it recorded them are removed.\<close>

definition rollback_entries ::
  "(blake3_hash, blake3_hash) fmap \<Rightarrow> (blake3_hash, blake3_hash) fmap \<Rightarrow> (blake3_hash, blake3_hash) fmap" where
  "rollback_entries rewrites epochs =
     fmfilter (\<lambda>i. fmlookup rewrites i = None \<or> fmlookup epochs i \<noteq> fmlookup rewrites i) epochs"

definition rollback_rewrite_map_entries :: "logged_move \<Rightarrow> workspace \<Rightarrow> workspace" where
  "rollback_rewrite_map_entries op w =
     (case lm_rewrites op of
        None \<Rightarrow> w
      | Some m \<Rightarrow> w\<lparr>rp_epochs := rollback_entries m (rp_epochs w)\<rparr>)"

section \<open>Undo and redo\<close>

definition undo ::
  "('sk, 'x) crypto_scheme \<Rightarrow> 'y replay_env_scheme \<Rightarrow> tree_writer \<Rightarrow> logged_move option command" where
  "undo K env out =
     seq pop_log (\<lambda>popped.
       case popped of
         None \<Rightarrow> ret None
       | Some op \<Rightarrow>
           andthen (update (rollback_rewrite_map_entries op))
             (seq (load_view (lm_view op)) (\<lambda>current_heads.
              andthen (hydrate_cmd current_heads)
                (seq (state_of K env current_heads) (\<lambda>current_state.
                 andthen (update (save_view (lm_view op) (lm_before op)))
                   (andthen (hydrate_cmd (lm_before op))
                     (seq (state_of K env (lm_before op)) (\<lambda>restored_state.
                      andthen (write_tree out restored_state)
                        (andthen (update (push_redo op)) (ret (Some op)))))))))))"

definition redo ::
  "('sk, 'x) crypto_scheme \<Rightarrow> 'y replay_env_scheme \<Rightarrow> tree_writer \<Rightarrow> logged_move option command" where
  "redo K env out w0 =
     (if ws_redo w0 = [] then Some (Inr None, w0)
      else
        (let op = last (ws_redo w0); stack = butlast (ws_redo w0)
         in if lm_rewrites op \<noteq> None then Some (Inl RedoOfRewrite, w0)
            else
              seq (load_view (lm_view op)) (\<lambda>current_heads.
              andthen (require (current_heads = lm_before op) (ViewChanged (lm_view op)))
                (andthen (hydrate_cmd (lm_before op))
                  (seq (state_of K env (lm_before op)) (\<lambda>before_state.
                   andthen (update (save_view (lm_view op) (lm_after op)))
                     (andthen (hydrate_cmd (lm_after op))
                       (seq (state_of K env (lm_after op)) (\<lambda>restored_state.
                        andthen (on_error (write_tree out restored_state) (save_view (lm_view op) (lm_before op)))
                          (andthen (update (append_log op))
                            (andthen (update (\<lambda>w. w\<lparr>ws_redo := stack\<rparr>)) (ret (Some op)))))))))))
              w0))"

section \<open>Abandoning heads\<close>

fun abandon_each ::
  "(blake3_hash, change) fmap \<Rightarrow> blake3_hash list \<Rightarrow> blake3_hash fset \<Rightarrow>
   command_error + blake3_hash fset \<times> blake3_hash list" where
  "abandon_each store [] heads = Inr (heads, [])"
| "abandon_each store (i # is) heads =
     (if i |\<notin>| heads then abandon_each store is heads
      else (case read_change store i of
              None \<Rightarrow> Inl (RepoError (UnreadableChange i))
            | Some c \<Rightarrow>
                map_result (\<lambda>(hs, abandoned). (hs, i # abandoned))
                  (abandon_each store is ((heads |-| {|i|}) |\<union>| ch_deps c))))"

definition from_result :: "command_error + 'a \<Rightarrow> 'a command" where
  "from_result r w = Some (r, w)"

definition abandon_heads ::
  "('sk, 'x) crypto_scheme \<Rightarrow> 'y replay_env_scheme \<Rightarrow> tree_writer \<Rightarrow> string \<Rightarrow> string list \<Rightarrow>
   blake3_hash list command" where
  "abandon_heads K env out view_name revisions =
     andthen (hydrate_view view_name)
       (seq (load_view view_name) (\<lambda>heads.
        seq (\<lambda>w. from_result (resolve_all w view_name (if revisions = [] then [''@''] else revisions)) w) (\<lambda>resolved.
        seq (\<lambda>w. from_result (abandon_each (rp_store w) resolved heads) w) (\<lambda>(new_heads, abandoned).
          if abandoned = [] then ret []
          else
            andthen (update (save_view view_name new_heads))
              (andthen (hydrate_cmd new_heads)
                (seq (state_of K env new_heads) (\<lambda>st.
                 andthen (write_tree out st)
                   (andthen (update (log_move ''abandon'' view_name heads new_heads)) (ret abandoned)))))))))"

section \<open>Restoring and reverting an operation\<close>

text \<open>
  An operation is looked up in the log, the most recent first, by its full snapshot id, then by
  its short id, then by a prefix of either.  The ids come from the operation log, with the move.
\<close>

type_synonym 'op named_operation = "string \<times> blake3_hash option \<times> 'op"

fun only_match :: "string \<Rightarrow> 'op named_operation list \<Rightarrow> (command_error + 'op) \<Rightarrow> command_error + 'op" where
  "only_match op_id [] otherwise = otherwise"
| "only_match op_id [(short, snap_id, op)] otherwise = Inr op"
| "only_match op_id (m # n # others) otherwise = Inl (AmbiguousOperation op_id)"

fun has_snapshot :: "string \<Rightarrow> 'op named_operation \<Rightarrow> bool" where
  "has_snapshot op_id (short, snap_id, op) = (case snap_id of None \<Rightarrow> False | Some h \<Rightarrow> hash_to_hex h = op_id)"

fun has_prefix :: "string \<Rightarrow> 'op named_operation \<Rightarrow> bool" where
  "has_prefix op_id (short, snap_id, op) =
     (starts_with short op_id \<or>
      (case snap_id of None \<Rightarrow> False | Some h \<Rightarrow> starts_with (hash_to_hex h) op_id))"

definition resolve_operation_by_id :: "'op named_operation list \<Rightarrow> string \<Rightarrow> command_error + 'op" where
  "resolve_operation_by_id ops op_id =
     (if ops = [] then Inl EmptyOperationLog
      else only_match op_id (filter (has_snapshot op_id) ops)
        (only_match op_id (filter (\<lambda>(short, snap_id, op). short = op_id) ops)
          (only_match op_id (filter (has_prefix op_id) ops) (Inl (OperationNotFound op_id)))))"

definition apply_operation_heads ::
  "('sk, 'x) crypto_scheme \<Rightarrow> 'y replay_env_scheme \<Rightarrow> tree_writer \<Rightarrow> string \<Rightarrow> logged_move \<Rightarrow>
   blake3_hash fset \<Rightarrow> string \<Rightarrow> unit command" where
  "apply_operation_heads K env out view_name target next_heads label =
     andthen (require (lm_view target = view_name) (WrongView (lm_view target) view_name))
       (andthen (hydrate_view view_name)
         (seq (load_view view_name) (\<lambda>before_heads.
          andthen (hydrate_cmd next_heads)
            (seq (state_of K env before_heads) (\<lambda>before_state.
             andthen (update (save_view view_name next_heads))
               (seq (state_of K env next_heads) (\<lambda>after_state.
                andthen (on_error (write_tree out after_state) (save_view view_name before_heads))
                  (update (log_move label view_name before_heads next_heads)))))))))"

definition op_restore ::
  "('sk, 'x) crypto_scheme \<Rightarrow> 'y replay_env_scheme \<Rightarrow> tree_writer \<Rightarrow> string \<Rightarrow>
   logged_move named_operation list \<Rightarrow> string \<Rightarrow> logged_move command" where
  "op_restore K env out view_name ops op_id =
     seq (from_result (resolve_operation_by_id ops op_id)) (\<lambda>target.
       andthen (apply_operation_heads K env out view_name target (lm_after target) (''op restore '' @ op_id))
         (ret target))"

definition op_revert ::
  "('sk, 'x) crypto_scheme \<Rightarrow> 'y replay_env_scheme \<Rightarrow> tree_writer \<Rightarrow> string \<Rightarrow>
   logged_move named_operation list \<Rightarrow> string \<Rightarrow> logged_move command" where
  "op_revert K env out view_name ops op_id =
     seq (from_result (resolve_operation_by_id ops op_id)) (\<lambda>target.
       andthen (apply_operation_heads K env out view_name target (lm_before target) (''op revert '' @ op_id))
         (ret target))"

section \<open>Redirected heads\<close>

text \<open>
  A graph that hydration has loaded: closed, consistent, and without redirected ids.  A head
  that is missing from a consistent graph cannot be materialised.
\<close>

definition loaded_graph :: "'r repo_scheme \<Rightarrow> bool" where
  "loaded_graph r \<longleftrightarrow> (\<exists>H V. hydrating (rp_epochs r) (rp_store r) H V (rp_graph r) {})"

lemma loaded_graph_reopen [simp]: "loaded_graph (reopen r)"
  using hydrating_init [of "rp_epochs r" "rp_store r" "{||}"]
  by (auto simp: loaded_graph_def)

lemma hydrating_more:
  "hydrating epochs store H V g {} \<Longrightarrow> hydrating epochs store (H \<union> N) V g N"
  by (auto simp: hydrating_def expanded_def Image_Un)

lemma hydrate_heads_again:
  assumes "acyclic (replaces (rp_epochs r))" "loaded_graph r"
  shows "(\<exists>i. hydrate_heads r heads = Some (Inl (UnreadableChange i))) \<or>
    (\<exists>g. hydrate_heads r heads = Some (Inr (r\<lparr>rp_graph := g\<rparr>)) \<and> loaded_graph (r\<lparr>rp_graph := g\<rparr>))"
proof -
  obtain H V where "hydrating (rp_epochs r) (rp_store r) H V (rp_graph r) {}"
    using assms(2) by (auto simp: loaded_graph_def)
  from hydrating_more [OF this, of "fset heads"]
  have "hydrating (rp_epochs r) (rp_store r) (H \<union> fset heads) V (rp_graph r) (set (sorted_list_of_fset heads))"
    by simp
  from hydrate_loop_result [OF assms(1) this] obtain res
    where "hydrate_loop (rp_epochs r) (rp_store r) (rp_graph r) (sorted_list_of_fset heads) = Some res \<and>
      (case res of
         Inr g' \<Rightarrow> \<exists>V'. hydrating (rp_epochs r) (rp_store r) (H \<union> fset heads) V' g' {}
       | Inl e \<Rightarrow> \<exists>i. e = UnreadableChange i \<and> i \<in> (leads_to (rp_epochs r) (rp_store r))\<^sup>* `` (H \<union> fset heads) \<and>
           fmlookup (rp_epochs r) i = None \<and> read_change (rp_store r) i = None)" by blast
  then show ?thesis
    by (cases res) (auto simp: hydrate_heads_def loaded_graph_def)
qed

lemma loaded_graph_wf: "loaded_graph r \<Longrightarrow> wf_graph (rp_graph r)"
  by (auto simp: loaded_graph_def hydrating_def)

lemma loaded_graph_redirected:
  "loaded_graph r \<Longrightarrow> fmlookup (rp_epochs r) i \<noteq> None \<Longrightarrow> graph_get (rp_graph r) i = None"
  by (auto simp: loaded_graph_def hydrating_def)

lemma missing_in_order:
  assumes "wf_graph g" "topological_sort g hs = Some order" "i |\<in>| ancestors g hs" "graph_get g i = None"
  shows "i \<in> set order"
proof -
  obtain deg where inv: "kahn_inv g (ancestors g hs) deg [] order"
    using topological_sort_inv [OF assms(1), of hs] assms(2) by auto
  have "i |\<notin>| fmdom (edges g)"
    using assms(1,4) by (simp add: wf_graph_def graph_get_def fmdom_notI)
  then have "open_deps g (ancestors g hs) order i = {}" by (simp add: open_deps_def deps_of_outside)
  with inv assms(3) show ?thesis by (simp add: kahn_inv_def)
qed

lemma missing_head_unmaterialisable:
  assumes "wf_graph g" "h |\<in>| heads" "graph_get g h = None"
  shows "\<exists>e. materialize_heads env g heads = Some (Inl e)"
proof -
  obtain order where order: "topological_sort g heads = Some order"
    using topological_sort_inv [OF assms(1), of heads] by blast
  have "h \<in> set order"
    by (rule missing_in_order [OF assms(1) order heads_in_ancestors [OF assms(2)] assms(3)])
  then have "\<nexists>st. replay_order env g order Map.empty = Inr st"
    using assms(3) by (blast dest: materialize_missing)
  then show ?thesis by (cases "replay_order env g order Map.empty") (auto simp: materialize_heads_def order)
qed

lemma state_of_missing:
  assumes "wf_graph (rp_graph w)" "h |\<in>| heads" "graph_get (rp_graph w) h = None"
  shows "\<exists>e. state_of K env heads w = Some (Inl (RepoError e), w)"
  using missing_head_unmaterialisable [OF assms, of "store_env K env (ws_blobs w)"] assms(2)
  by (auto simp: state_of_def materialize_ws_def)

lemma hydrate_cmd_loaded:
  assumes "acyclic (replaces (rp_epochs w))" "loaded_graph w"
  shows "\<exists>r w'. hydrate_cmd heads w = Some (r, w') \<and> loaded_graph w' \<and> same_but_graph w w'"
  using hydrate_heads_again [OF assms, of heads] assms(2)
  by (auto simp: hydrate_cmd_def lift_repo_def same_but_graph_def)

text \<open>No later command can use a view one of whose heads is redirected.\<close>

lemma redirected_view_unusable:
  assumes "acyclic (replaces (rp_epochs w))" "fmlookup (rp_views w) v = Some heads" "h |\<in>| heads"
    and "fmlookup (rp_epochs w) h \<noteq> None"
  shows "andthen (hydrate_view v) (state_of_view K env v) (reopen w) \<noteq> Some (Inr st, w')"
proof
  assume "andthen (hydrate_view v) (state_of_view K env v) (reopen w) = Some (Inr st, w')"
  then obtain w1 where hyd: "hydrate_cmd heads (reopen w) = Some (Inr (), w1)"
    and st: "state_of_view K env v w1 = Some (Inr st, w')"
    using assms(2) by (auto simp: command_iffs hydrate_view_cmd)
  obtain r w2 where "hydrate_cmd heads (reopen w) = Some (r, w2)" "loaded_graph w2" "same_but_graph (reopen w) w2"
    using hydrate_cmd_loaded [of "reopen w" heads] assms(1) by auto
  with hyd have l: "loaded_graph w1" and same: "same_but_graph (reopen w) w1" by auto
  have "graph_get (rp_graph w1) h = None"
    by (rule loaded_graph_redirected [OF l]) (use assms(4) same_but_graph_fields [OF same] in simp)
  from missing_head_unmaterialisable [OF loaded_graph_wf [OF l] assms(3) this]
  obtain e where "materialize_heads (store_env K env (ws_blobs w1)) (rp_graph w1) heads = Some (Inl e)" by blast
  with st assms(2) same_but_graph_fields [OF same] show False
    by (simp add: state_of_view_def materialize_def)
qed


section \<open>Amending, as a command\<close>

definition amend_cmd ::
  "('sk, 'x) crypto_scheme \<Rightarrow> 'y replay_env_scheme \<Rightarrow> tree_writer \<Rightarrow> string \<Rightarrow>
   (materialized_state \<Rightarrow> atom list) \<Rightarrow> string option \<Rightarrow> author \<Rightarrow> 'sk \<Rightarrow> blake3_hash command" where
  "amend_cmd K env out view_name delta message author sk w =
     (case amend K (store_env K env (ws_blobs w)) w view_name delta message author sk of
        None \<Rightarrow> None
      | Some (Inl e) \<Rightarrow> Some (Inl (RepoError e), w)
      | Some (Inr (new_id, w')) \<Rightarrow>
          (let prior = (case fmlookup (rp_views w) view_name of None \<Rightarrow> {||} | Some h \<Rightarrow> h)
           in seq (state_of_view K env view_name) (\<lambda>st.
                andthen (write_tree out st) (ret new_id))
                (log_move ''amend'' view_name prior {|new_id|} w')))"

lemma amend_leaves:
  assumes "amend K env r v delta message author sk = Some (Inr (new, r'))"
  shows "\<exists>c g epochs views. r' = r\<lparr>rp_store := write_change c (rp_store r), rp_graph := g,
    rp_epochs := epochs, rp_views := views\<rparr>"
proof -
  have hyd: "\<exists>g. r1 = r\<lparr>rp_graph := g\<rparr>" if "hydrate_heads r h = Some (Inr r1)" for r1 h and r :: "'e repo_scheme"
    using that by (auto simp: hydrate_heads_def map_result_Inr_iff)
  show ?thesis
    using assms
    by (auto simp: amend_def hydrate_def record_amend_def Let_def split: option.splits sum.splits if_splits
        dest!: hyd) blast+
qed

lemma amend_cmd_effect:
  assumes "amend_cmd K env out v delta message author sk w = Some (Inr new, w')"
  shows "\<exists>old. fmlookup (rp_views w) v = Some {|old|} \<and> rp_views w' = fmupd v {|new|} (rp_views w) \<and>
    rp_epochs w' = fmupd old new (rp_epochs w) \<and> ws_redo w' = [] \<and> ws_blobs w' = ws_blobs w \<and>
    ws_log w' = ws_log w @ [\<lparr>lm_command = ''amend'', lm_view = v, lm_before = {|old|}, lm_after = {|new|},
      lm_rewrites = None\<rparr>]"
proof -
  obtain i w1 where am: "amend K (store_env K env (ws_blobs w)) w v delta message author sk = Some (Inr (i, w1))"
    using assms by (auto simp: amend_cmd_def split: option.splits sum.splits)
  obtain old where old: "fmlookup (rp_views w) v = Some {|old|}" "rp_views w1 = fmupd v {|i|} (rp_views w)"
    "rp_epochs w1 = fmupd old i (rp_epochs w)"
    using amend_effect [OF am] by blast
  have rest: "new = i" "w' = log_move ''amend'' v {|old|} {|i|} w1"
    using assms am old(1)
    by (auto simp: amend_cmd_def command_iffs write_tree_iff dest!: state_of_view_same)
  have "ws_log w1 = ws_log w" "ws_blobs w1 = ws_blobs w"
    using amend_leaves [OF am] by auto
  with rest old show ?thesis by (simp add: log_move_def)
qed


section \<open>What undo and redo leave\<close>

lemma undo_Inr_Some:
  assumes "undo K env out w = Some (Inr (Some op), w')"
  shows "ws_log w = ws_log w' @ [op] \<and> rp_views w' = fmupd (lm_view op) (lm_before op) (rp_views w) \<and>
    rp_epochs w' = (case lm_rewrites op of None \<Rightarrow> rp_epochs w | Some m \<Rightarrow> rollback_entries m (rp_epochs w)) \<and>
    ws_redo w' = ws_redo w @ [op] \<and> rp_store w' = rp_store w \<and> ws_blobs w' = ws_blobs w \<and>
    ws_conflict w' = ws_conflict w \<and> ws_restack w' = ws_restack w \<and> ws_diffedit w' = ws_diffedit w \<and> ws_pending_ai w' = ws_pending_ai w"
proof -
  have log: "ws_log w \<noteq> []" and op: "op = last (ws_log w)"
    using assms by (auto simp: undo_def command_iffs pop_log_def split: if_splits option.splits)
  let ?w1 = "rollback_rewrite_map_entries op (w\<lparr>ws_log := butlast (ws_log w)\<rparr>)"
  from assms log op obtain cur w2 w3 where steps:
    "fmlookup (rp_views ?w1) (lm_view op) = Some cur"
    "hydrate_cmd cur ?w1 = Some (Inr (), w2)"
    "hydrate_cmd (lm_before op) (save_view (lm_view op) (lm_before op) w2) = Some (Inr (), w3)"
    "w' = push_redo op w3"
    by (auto simp: undo_def command_iffs pop_log_def load_view_iff write_tree_iff
        split: if_splits option.splits dest!: state_of_same)
  from steps(4) same_but_graph_fields [OF hydrate_cmd_same [OF steps(2)]]
    same_but_graph_fields [OF hydrate_cmd_same [OF steps(3)]] log op
  show ?thesis
    by (simp add: push_redo_def save_view_def rollback_rewrite_map_entries_def split: option.split)
qed

lemma redo_Inr_Some:
  assumes "redo K env out w = Some (Inr (Some op), w')"
  shows "ws_redo w = ws_redo w' @ [op] \<and> lm_rewrites op = None \<and>
    fmlookup (rp_views w) (lm_view op) = Some (lm_before op) \<and>
    rp_views w' = fmupd (lm_view op) (lm_after op) (rp_views w) \<and> rp_epochs w' = rp_epochs w \<and>
    ws_log w' = ws_log w @ [op] \<and> rp_store w' = rp_store w \<and> ws_blobs w' = ws_blobs w \<and>
    ws_conflict w' = ws_conflict w \<and> ws_restack w' = ws_restack w \<and> ws_diffedit w' = ws_diffedit w \<and> ws_pending_ai w' = ws_pending_ai w"
proof -
  have stack: "ws_redo w \<noteq> []" and op: "op = last (ws_redo w)" and plain: "lm_rewrites op = None"
    using assms by (auto simp: redo_def Let_def command_iffs split: if_splits)
  from assms stack op plain obtain w1 w2 where steps:
    "fmlookup (rp_views w) (lm_view op) = Some (lm_before op)"
    "hydrate_cmd (lm_before op) w = Some (Inr (), w1)"
    "hydrate_cmd (lm_after op) (save_view (lm_view op) (lm_after op) w1) = Some (Inr (), w2)"
    "w' = (append_log op w2)\<lparr>ws_redo := butlast (ws_redo w)\<rparr>"
    by (auto simp: redo_def Let_def command_iffs load_view_iff write_tree_iff
        split: if_splits option.splits dest!: state_of_same)
  from steps same_but_graph_fields [OF hydrate_cmd_same [OF steps(2)]]
    same_but_graph_fields [OF hydrate_cmd_same [OF steps(3)]] stack op plain
  show ?thesis by (simp add: append_log_def save_view_def)
qed


lemma redo_errors:
  assumes "redo K env out w = Some (Inl e, w')" and "ws_redo w \<noteq> []" "lm_rewrites (last (ws_redo w)) = None"
    and "fmlookup (rp_views w) (lm_view (last (ws_redo w))) = Some (lm_before (last (ws_redo w)))"
  shows "(\<exists>e'. e = RepoError e') \<or> (\<exists>m. e = TreeError m)"
  using assms
  by (simp add: redo_def Let_def command_iffs load_view_iff write_tree_iff)
     (auto dest: hydrate_cmd_error state_of_error split: option.splits)

text \<open>
  After undoing an amend the view is back on the head that the epoch map redirects, which no
  graph ever holds.
\<close>

lemma undo_amend:
  assumes amend: "amend_cmd K env out v delta message author sk w = Some (Inr new, w1)"
    and usable: "andthen (hydrate_cmd {|new|}) (state_of K env {|new|}) (reopen w1) = Some (Inr st, w1')"
    and acyc: "acyclic (replaces (rp_epochs w1))"
  shows "\<exists>old e w2. fmlookup (rp_views w) v = Some {|old|} \<and>
    undo K env out (reopen w1) = Some (Inl e, w2) \<and> rp_views w2 = fmupd v {|old|} (rp_views w) \<and>
    rp_epochs w2 = rp_epochs w1 \<and> fmlookup (rp_epochs w1) old = Some new \<and>
    ws_log w2 = ws_log w \<and> ws_redo w2 = []"
proof -
  obtain old where old: "fmlookup (rp_views w) v = Some {|old|}"
    and w1: "rp_views w1 = fmupd v {|new|} (rp_views w)" "rp_epochs w1 = fmupd old new (rp_epochs w)"
      "ws_redo w1 = []"
      "ws_log w1 = ws_log w @ [\<lparr>lm_command = ''amend'', lm_view = v, lm_before = {|old|},
        lm_after = {|new|}, lm_rewrites = None\<rparr>]"
    using amend_cmd_effect [OF amend] by blast
  let ?w = "(reopen w1)\<lparr>ws_log := ws_log w\<rparr>"
  obtain r w2 where hyd: "hydrate_cmd {|new|} ?w = Some (r, w2)" and l2: "loaded_graph w2"
    and s2: "same_but_graph ?w w2"
    using hydrate_cmd_loaded [of ?w "{|new|}"] acyc hydrating_init [of "rp_epochs w1" "rp_store w1" "{||}"]
    by (auto simp: loaded_graph_def)
  obtain w1'' where hyd1: "hydrate_cmd {|new|} (reopen w1) = Some (Inr (), w1'')"
    and st1: "state_of K env {|new|} w1'' = Some (Inr st, w1')"
    using usable by (auto simp: command_iffs)
  have r: "r = Inr ()" and st: "state_of K env {|new|} w2 = Some (Inr st, w2)"
    using hyd hyd1 st1
    by (auto simp: hydrate_cmd_def lift_repo_def hydrate_heads_def map_result_def state_of_def materialize_ws_def
        split: option.splits sum.splits)
  let ?w3 = "save_view v {|old|} w2"
  have l3: "loaded_graph ?w3" and a3: "acyclic (replaces (rp_epochs ?w3))"
    using l2 acyc same_but_graph_fields [OF s2] by (simp_all add: loaded_graph_def save_view_def)
  obtain r4 w4 where hyd4: "hydrate_cmd {|old|} ?w3 = Some (r4, w4)" and l4: "loaded_graph w4"
    and s4: "same_but_graph ?w3 w4"
    using hydrate_cmd_loaded [OF a3 l3] by blast
  have w4: "rp_views w4 = fmupd v {|old|} (rp_views w)" "rp_epochs w4 = rp_epochs w1"
    "ws_log w4 = ws_log w" "ws_redo w4 = []"
    using same_but_graph_fields [OF s2] same_but_graph_fields [OF s4] w1
    by (simp_all add: save_view_def)
  obtain e where none: "state_of K env {|old|} w4 = Some (Inl (RepoError e), w4)"
  proof -
    have "graph_get (rp_graph w4) old = None"
      by (rule loaded_graph_redirected [OF l4]) (simp add: w4 w1)
    from state_of_missing [OF loaded_graph_wf [OF l4] _ this, of "{|old|}"] that show thesis by auto
  qed
  have "\<exists>e. undo K env out (reopen w1) = Some (Inl e, w4)"
    using hyd [unfolded r] st hyd4 none w1
    by (cases r4) (simp_all add: undo_def pop_log_def seq_def andthen_def update_def load_view_def
        rollback_rewrite_map_entries_def)
  with old w4 w1 show ?thesis by auto
qed


section \<open>Abandoning and restoring\<close>

text \<open>
  Abandoned heads give way to their dependencies: what a head set below reaches stays reached,
  and no change outside it comes in.
\<close>

lemma abandon_each_step:
  "abandon_each store (i # is) heads = Inr (hs, abandoned) \<longleftrightarrow>
     i |\<notin>| heads \<and> abandon_each store is heads = Inr (hs, abandoned) \<or>
     (\<exists>c rest. i |\<in>| heads \<and> read_change store i = Some c \<and> abandoned = i # rest \<and>
        abandon_each store is ((heads |-| {|i|}) |\<union>| ch_deps c) = Inr (hs, rest))"
  by (auto simp: map_result_Inr_iff split: option.splits)

lemma abandon_each_heads:
  "abandon_each store is heads = Inr (hs, abandoned) \<Longrightarrow>
     set abandoned \<subseteq> set is \<and>
     (\<forall>h. h |\<in>| heads \<longrightarrow> h \<notin> set abandoned \<longrightarrow> h |\<in>| hs) \<and>
     (\<forall>h. h |\<in>| hs \<longrightarrow> h |\<in>| heads \<or>
        (\<exists>a c. a \<in> set abandoned \<and> read_change store a = Some c \<and> h |\<in>| ch_deps c))"
proof (induction "is" arbitrary: heads abandoned)
  case (Cons i "is")
  from Cons.prems consider
      "i |\<notin>| heads" "abandon_each store is heads = Inr (hs, abandoned)"
    | c rest where "i |\<in>| heads" "read_change store i = Some c" "abandoned = i # rest"
        "abandon_each store is ((heads |-| {|i|}) |\<union>| ch_deps c) = Inr (hs, rest)"
    unfolding abandon_each_step by blast
  then show ?case
  proof cases
    case 1
    from Cons.IH [OF 1(2)] show ?thesis by auto
  next
    case 2
    from Cons.IH [OF 2(4)] 2 show ?thesis by fastforce
  qed
qed simp

lemma abandon_Inr:
  assumes "abandon_heads K env out v revisions w = Some (Inr abandoned, w')" "abandoned \<noteq> []"
  shows "\<exists>heads new_heads resolved. fmlookup (rp_views w) v = Some heads \<and>
    abandon_each (rp_store w) resolved heads = Inr (new_heads, abandoned) \<and>
    rp_views w' = fmupd v new_heads (rp_views w) \<and> rp_epochs w' = rp_epochs w \<and> ws_redo w' = [] \<and>
    ws_log w' = ws_log w @ [\<lparr>lm_command = ''abandon'', lm_view = v, lm_before = heads,
      lm_after = new_heads, lm_rewrites = None\<rparr>]"
proof -
  from assms obtain heads new_heads resolved w1 w2 where
    hyd: "hydrate_view v w = Some (Inr (), w1)" and v: "fmlookup (rp_views w1) v = Some heads"
    and ab: "abandon_each (rp_store w1) resolved heads = Inr (new_heads, abandoned)"
    and hyd2: "hydrate_cmd new_heads (save_view v new_heads w1) = Some (Inr (), w2)"
    and w': "w' = log_move ''abandon'' v heads new_heads w2"
    by (auto simp: abandon_heads_def command_iffs load_view_iff write_tree_iff from_result_def
        split: if_splits option.splits dest!: state_of_same)
  note same = same_but_graph_fields [OF hydrate_view_same [OF hyd]]
    same_but_graph_fields [OF hydrate_cmd_same [OF hyd2]]
  from v ab show ?thesis
    by (intro exI [of _ heads] exI [of _ new_heads] exI [of _ resolved])
      (simp add: same w' log_move_def save_view_def)
qed

section \<open>Properties\<close>


definition second_change :: change where
  "second_change = change_new toy_crypto {|ch_id first_change|} [Insert [''g''] [2]] ''n'' (Human ''n'' ''e'' [7]) [7]"

definition snapped :: logged_move where
  "snapped = \<lparr>lm_command = ''snap'', lm_view = ''main'', lm_before = {|ch_id first_change|},
     lm_after = {|ch_id second_change|}, lm_rewrites = None\<rparr>"

definition two_change_ws :: workspace where
  "two_change_ws =
     \<lparr>rp_graph = graph_new,
      rp_store = fmap_of_list [(ch_id first_change, first_change), (ch_id second_change, second_change)],
      rp_epochs = fmempty, rp_views = fmap_of_list [(''main'', {|ch_id second_change|})],
      ws_blobs = fmap_of_list [([1], [1]), ([2], [2]), ([3], [3])], ws_conflict = None, ws_log = [snapped], ws_redo = [], ws_restack = None,
      ws_diffedit = None,
      ws_pending_ai = False\<rparr>"

definition always_written :: tree_writer where
  "always_written st = None"

definition succeeds :: "((command_error + 'a) \<times> workspace) option \<Rightarrow> bool" where
  "succeeds r = (case r of Some (Inr x, w) \<Rightarrow> True | _ \<Rightarrow> False)"

lemma undo_redo_runs:
  "case undo toy_crypto toy_env always_written two_change_ws of
     Some (Inr (Some op), w1) \<Rightarrow> op = snapped \<and> succeeds (redo toy_crypto toy_env always_written (reopen w1))
   | _ \<Rightarrow> False"
  by code_simp


text \<open>
  C14.  Undoing an amend breaks the view: although the amended view could be materialised, undo
  fails, having taken the operation off the log and put the view on the amended head, which the
  epoch map still redirects; nothing can be redone, and no later command can hydrate the view
  and materialise it.
\<close>

theorem undo_amend_breaks_view:
  assumes "amend_cmd K env out v delta message author sk w = Some (Inr new, w1)"
    and "andthen (hydrate_cmd {|new|}) (state_of K env {|new|}) (reopen w1) = Some (Inr st, w1')"
    and "acyclic (replaces (rp_epochs w1))"
  shows "\<exists>e w2. undo K env out (reopen w1) = Some (Inl e, w2) \<and>
    fmlookup (rp_views w2) v = fmlookup (rp_views w) v \<and> ws_log w2 = ws_log w \<and> ws_redo w2 = [] \<and>
    (\<forall>st' w3. andthen (hydrate_view v) (state_of_view K env v) (reopen w2) \<noteq> Some (Inr st', w3))"
proof -
  obtain old e w2 where o: "fmlookup (rp_views w) v = Some {|old|}"
    and u: "undo K env out (reopen w1) = Some (Inl e, w2)"
    and w2: "rp_views w2 = fmupd v {|old|} (rp_views w)" "rp_epochs w2 = rp_epochs w1"
      "fmlookup (rp_epochs w1) old = Some new" "ws_log w2 = ws_log w" "ws_redo w2 = []"
    using undo_amend [OF assms] by blast
  have "andthen (hydrate_view v) (state_of_view K env v) (reopen w2) \<noteq> Some (Inr st', w3)" for st' w3
    by (rule redirected_view_unusable [of w2 v "{|old|}" old]) (simp_all add: w2 assms(3))
  with o u w2 show ?thesis by auto
qed

definition one_change_ws :: workspace where
  "one_change_ws = two_change_ws\<lparr>rp_views := fmap_of_list [(''main'', {|ch_id first_change|})], ws_log := []\<rparr>"

definition amend_one :: "blake3_hash command" where
  "amend_one = amend_cmd toy_crypto toy_env always_written ''main'' other_atoms None (Human ''n'' ''e'' [7]) [7]"

lemma amend_one_runs:
  "case amend_one one_change_ws of
     Some (Inr new, w1) \<Rightarrow> new = other_id \<and> rp_epochs w1 = fmap_of_list [(ch_id first_change, other_id)] \<and>
       succeeds (andthen (hydrate_cmd {|new|}) (state_of toy_crypto toy_env {|new|}) (reopen w1))
   | _ \<Rightarrow> False"
  by code_simp

lemma other_id_differs: "other_id \<noteq> ch_id first_change"
  by code_simp

theorem undo_amend_breaks_view_witness:
  "\<exists>w1 e w2. amend_one one_change_ws = Some (Inr other_id, w1) \<and>
     undo toy_crypto toy_env always_written (reopen w1) = Some (Inl e, w2) \<and>
     (\<forall>st' w3. andthen (hydrate_view ''main'') (state_of_view toy_crypto toy_env ''main'') (reopen w2)
        \<noteq> Some (Inr st', w3))"
proof -
  obtain w1 st w1' where a: "amend_one one_change_ws = Some (Inr other_id, w1)"
    and e: "rp_epochs w1 = fmap_of_list [(ch_id first_change, other_id)]"
    and s: "andthen (hydrate_cmd {|other_id|}) (state_of toy_crypto toy_env {|other_id|}) (reopen w1) = Some (Inr st, w1')"
    using amend_one_runs by (auto simp: succeeds_def split: option.splits prod.splits sum.splits)
  have "replaces (rp_epochs w1) = {(other_id, ch_id first_change)}"
    by (auto simp: replaces_def e fmlookup_of_list split: if_splits)
  then have "acyclic (replaces (rp_epochs w1))"
    using other_id_differs by (simp add: acyclic_def trancl_insert)
  from undo_amend_breaks_view [OF a [unfolded amend_one_def] s this] a show ?thesis by blast
qed


text \<open>
  Abandoning: heads that are not abandoned stay, every other new head is a dependency of an
  abandoned change, and undoing it by a later command brings back the views, the log and the
  epoch map.
\<close>

theorem abandon_undone:
  assumes "abandon_heads K env out v revisions w = Some (Inr abandoned, w1)" and "abandoned \<noteq> []"
    and "undo K env out (reopen w1) = Some (Inr popped, w2)"
  shows "\<exists>heads new_heads. fmlookup (rp_views w) v = Some heads \<and> fmlookup (rp_views w1) v = Some new_heads \<and>
    (\<forall>h. h |\<in>| heads \<and> h \<notin> set abandoned \<longrightarrow> h |\<in>| new_heads) \<and>
    (\<forall>h. h |\<in>| new_heads \<longrightarrow> h |\<in>| heads \<or>
       (\<exists>a c. a \<in> set abandoned \<and> read_change (rp_store w) a = Some c \<and> h |\<in>| ch_deps c)) \<and>
    rp_views w2 = rp_views w \<and> rp_epochs w2 = rp_epochs w \<and> ws_log w2 = ws_log w"
proof -
  obtain heads new_heads resolved where a: "fmlookup (rp_views w) v = Some heads"
    "abandon_each (rp_store w) resolved heads = Inr (new_heads, abandoned)"
    "rp_views w1 = fmupd v new_heads (rp_views w)" "rp_epochs w1 = rp_epochs w"
    and log: "ws_log w1 = ws_log w @ [\<lparr>lm_command = ''abandon'', lm_view = v, lm_before = heads,
      lm_after = new_heads, lm_rewrites = None\<rparr>]"
    using abandon_Inr [OF assms(1,2)] by blast
  obtain op where op: "popped = Some op"
    using assms(3) log by (cases popped) (auto simp: undo_def command_iffs pop_log_def split: if_splits option.splits)
  note u = undo_Inr_Some [OF assms(3) [unfolded op]]
  have "rp_views w2 = rp_views w"
    using u a log by (intro fmap_ext) auto
  with a log u abandon_each_heads [OF a(2)] show ?thesis by auto
qed

lemma abandon_runs:
  "case abandon_heads toy_crypto toy_env always_written ''main'' [] two_change_ws of
     Some (Inr abandoned, w1) \<Rightarrow> abandoned = [ch_id second_change] \<and>
       succeeds (undo toy_crypto toy_env always_written (reopen w1))
   | _ \<Rightarrow> False"
  by code_simp

theorem abandon_undone_witness:
  "\<exists>w1 popped w2. abandon_heads toy_crypto toy_env always_written ''main'' [] two_change_ws =
       Some (Inr [ch_id second_change], w1) \<and>
     undo toy_crypto toy_env always_written (reopen w1) = Some (Inr popped, w2) \<and>
     rp_views w2 = rp_views two_change_ws"
proof -
  obtain w1 popped w2 where
    a: "abandon_heads toy_crypto toy_env always_written ''main'' [] two_change_ws = Some (Inr [ch_id second_change], w1)"
    and u: "undo toy_crypto toy_env always_written (reopen w1) = Some (Inr popped, w2)"
    using abandon_runs by (auto simp: succeeds_def split: option.splits prod.splits sum.splits)
  from abandon_undone [OF a _ u] a u show ?thesis by auto
qed

end
