(* ===== verification/Rewrite.thy ===== *)
theory Rewrite
  imports UndoRedo
begin

text \<open>
  The commands that rewrite history (\<^verbatim>\<open>arc-cli/src/repo/core.rs\<close>): \<^verbatim>\<open>squash_into\<close>, \<^verbatim>\<open>reorder\<close>,
  the resumable \<^verbatim>\<open>restack\<close> with its checkpoint, and the diffedit session.  Each computes new
  changes from the in-memory graph, stages the epoch map and the log, moves the view,
  materialises it, and rolls the metadata back when that fails.
\<close>

section \<open>Staging and rolling back\<close>

definition map_on :: "blake3_hash list \<Rightarrow> (blake3_hash \<rightharpoonup> blake3_hash) \<Rightarrow> (blake3_hash, blake3_hash) fmap" where
  "map_on ids m =
     fmap_of_list (concat (List.map (\<lambda>i. case m i of None \<Rightarrow> [] | Some j \<Rightarrow> [(i, j)]) ids))"

definition persist_rewrite_map :: "(blake3_hash, blake3_hash) fmap \<Rightarrow> workspace \<Rightarrow> workspace" where
  "persist_rewrite_map rewrites w = w\<lparr>rp_epochs := rp_epochs w ++\<^sub>f rewrites\<rparr>"

text \<open>Unlike a plain move, a rewrite leaves the redo stack alone.\<close>

definition append_rewrite_operation ::
  "string \<Rightarrow> string \<Rightarrow> blake3_hash fset \<Rightarrow> blake3_hash fset \<Rightarrow> (blake3_hash, blake3_hash) fmap \<Rightarrow>
   workspace \<Rightarrow> workspace" where
  "append_rewrite_operation command view prior after rewrites =
     append_log \<lparr>lm_command = command, lm_view = view, lm_before = prior, lm_after = after,
       lm_rewrites = Some rewrites\<rparr>"

definition stage_rewrite_metadata ::
  "string \<Rightarrow> string \<Rightarrow> blake3_hash fset \<Rightarrow> blake3_hash fset \<Rightarrow> (blake3_hash, blake3_hash) fmap \<Rightarrow>
   workspace \<Rightarrow> workspace" where
  "stage_rewrite_metadata command view prior after rewrites w =
     append_rewrite_operation command view prior after rewrites (persist_rewrite_map rewrites w)"

definition rollback_rewrite_metadata ::
  "(blake3_hash, blake3_hash) fmap \<Rightarrow> workspace \<Rightarrow> workspace" where
  "rollback_rewrite_metadata previous_epoch w =
     w\<lparr>ws_log := butlast (ws_log w), rp_epochs := previous_epoch\<rparr>"

definition commit_rewrite ::
  "('sk, 'x) crypto_scheme \<Rightarrow> 'y replay_env_scheme \<Rightarrow> tree_writer \<Rightarrow> string \<Rightarrow> string \<Rightarrow>
   blake3_hash fset \<Rightarrow> blake3_hash \<Rightarrow> (blake3_hash, blake3_hash) fmap \<Rightarrow> unit command" where
  "commit_rewrite K env out command view prior new_id rewrites w =
     (let previous_epoch = rp_epochs w
      in on_error (seq (state_of_view K env view) (write_tree out))
           (\<lambda>w'. rollback_rewrite_metadata previous_epoch (save_view view prior w'))
           (save_view view {|new_id|}
             (stage_rewrite_metadata command view prior {|new_id|} rewrites w)))"

definition record_all :: "change list \<Rightarrow> workspace \<Rightarrow> workspace" where
  "record_all cs w = fold record_change cs w"

section \<open>Squashing and reordering\<close>

definition run_squash ::
  "('sk, 'x) crypto_scheme \<Rightarrow> blake3_hash fset \<Rightarrow> blake3_hash \<Rightarrow> author \<times> 'sk \<Rightarrow> squash_outcome command" where
  "run_squash K heads target signer w =
     (case History.squash_into K (rp_graph w) heads target signer of
        None \<Rightarrow> None
      | Some (Inl e) \<Rightarrow> Some (Inl (RewriteError e), w)
      | Some (Inr outcome) \<Rightarrow> Some (Inr outcome, w))"

definition run_reorder ::
  "('sk, 'x) crypto_scheme \<Rightarrow> blake3_hash list \<Rightarrow> author \<times> 'sk \<Rightarrow> reorder_outcome command" where
  "run_reorder K desired signer w =
     (case History.reorder K (rp_graph w) desired signer of
        None \<Rightarrow> None
      | Some (Inl e) \<Rightarrow> Some (Inl (RewriteError e), w)
      | Some (Inr outcome) \<Rightarrow> Some (Inr outcome, w))"

definition squash_into_cmd ::
  "('sk, 'x) crypto_scheme \<Rightarrow> 'y replay_env_scheme \<Rightarrow> tree_writer \<Rightarrow> string \<Rightarrow> string \<Rightarrow> author \<times> 'sk \<Rightarrow>
   blake3_hash command" where
  "squash_into_cmd K env out view_name target_rev signer =
     seq (load_view view_name) (\<lambda>heads.
     andthen (require (fcard heads = 1) (RepoError (NotSingleHead (fcard heads))))
       (seq (resolve_cmd view_name target_rev) (\<lambda>target_id.
        seq (run_squash K heads target_id signer) (\<lambda>outcome w.
          (let new_id = ch_id (squashed outcome);
               rewrites = map_on (sorted_list_of_fset (fmdom (nodes (rp_graph w)))) (sq_rewrite_map outcome)
           in andthen (commit_rewrite K env out ''squash'' view_name heads new_id rewrites) (ret new_id)
                (record_change (squashed outcome) w))))))"

definition reorder_cmd ::
  "('sk, 'x) crypto_scheme \<Rightarrow> 'y replay_env_scheme \<Rightarrow> tree_writer \<Rightarrow> string \<Rightarrow> string list \<Rightarrow> author \<times> 'sk \<Rightarrow>
   blake3_hash command" where
  "reorder_cmd K env out view_name ordered_revs signer =
     andthen (require (\<not> length ordered_revs < 2) TooFewRevisions)
       (seq (load_view view_name) (\<lambda>heads.
        andthen (require (fcard heads = 1) (RepoError (NotSingleHead (fcard heads))))
          (seq (\<lambda>w. from_result (resolve_all w view_name ordered_revs) w) (\<lambda>desired.
           andthen (require (hd (sorted_list_of_fset heads) \<in> set desired) SetWithoutHead)
             (seq (run_reorder K desired signer) (\<lambda>outcome w.
               (let rewrites = map_on desired (ro_rewrite_map outcome)
                in andthen (commit_rewrite K env out ''reorder'' view_name heads (new_head outcome) rewrites)
                     (ret (new_head outcome)) (record_all (rewritten outcome) w))))))))"

section \<open>Restacking\<close>

definition save_pending_restack :: "pending_rewrite option \<Rightarrow> workspace \<Rightarrow> workspace" where
  "save_pending_restack pending w = w\<lparr>ws_restack := pending\<rparr>"

definition validate_pending_restack :: "pending_rewrite \<Rightarrow> unit command" where
  "validate_pending_restack pending =
     andthen (require (pr_version pending = checkpoint_version) BadCheckpointVersion)
       (require (pr_command pending = ''restack'') (BadCheckpointCommand (pr_command pending)))"

definition load_pending_restack :: "pending_rewrite command" where
  "load_pending_restack w =
     (case ws_restack w of None \<Rightarrow> Some (Inl NoCheckpoint, w) | Some pending \<Rightarrow> Some (Inr pending, w))"

text \<open>A failure pauses the checkpoint with a message, which \<open>describe\<close> renders.\<close>

definition pausing ::
  "(command_error \<Rightarrow> string) \<Rightarrow> pending_rewrite \<Rightarrow> 'a command \<Rightarrow> 'a command" where
  "pausing describe pending m w =
     (case m w of
        None \<Rightarrow> None
      | Some (Inl e, w') \<Rightarrow>
          Some (Inl e, save_pending_restack (Some (with_conflict pending (describe e))) w')
      | Some (Inr x, w') \<Rightarrow> Some (Inr x, w'))"

definition execute_pending_restack ::
  "('sk, 'x) crypto_scheme \<Rightarrow> 'y replay_env_scheme \<Rightarrow> tree_writer \<Rightarrow> (command_error \<Rightarrow> string) \<Rightarrow>
   author \<times> 'sk \<Rightarrow> pending_rewrite \<Rightarrow> blake3_hash command" where
  "execute_pending_restack K env out describe signer checkpoint =
     andthen (validate_pending_restack checkpoint)
       (let pending = with_attempt_incremented (clear_conflict checkpoint)
        in andthen (update (save_pending_restack (Some pending)))
             (seq (load_view (pr_view pending)) (\<lambda>heads.
              andthen (require (heads = pr_before_heads pending) (ViewChanged (pr_view pending)))
                (let desired = resolved_order pending
                 in seq (pausing describe pending (run_reorder K desired signer)) (\<lambda>outcome w.
                      let rewrites = map_on desired (ro_rewrite_map outcome);
                          pending' = with_rewrite_map pending rewrites
                      in andthen
                           (pausing describe pending'
                             (commit_rewrite K env out ''restack'' (pr_view pending) (pr_before_heads pending)
                               (new_head outcome) rewrites))
                           (andthen (update (save_pending_restack None)) (ret (new_head outcome)))
                           (save_pending_restack (Some pending') (record_all (rewritten outcome) w)))))))"

definition restack ::
  "('sk, 'x) crypto_scheme \<Rightarrow> 'y replay_env_scheme \<Rightarrow> tree_writer \<Rightarrow> (command_error \<Rightarrow> string) \<Rightarrow>
   author \<times> 'sk \<Rightarrow> string \<Rightarrow> string list \<Rightarrow> blake3_hash command" where
  "restack K env out describe signer view_name ordered_revs =
     andthen (require (\<not> length ordered_revs < 2) TooFewRevisions)
       (\<lambda>w. andthen (require (ws_restack w = None) CheckpointPending)
         (seq (load_view view_name) (\<lambda>heads.
          andthen (require (fcard heads = 1) (RepoError (NotSingleHead (fcard heads))))
            (seq (\<lambda>w. from_result (resolve_all w view_name ordered_revs) w) (\<lambda>desired.
             andthen (require (hd (sorted_list_of_fset heads) \<in> set desired) SetWithoutHead)
               (let pending = new_restack view_name heads desired
                in andthen (update (save_pending_restack (Some pending)))
                     (execute_pending_restack K env out describe signer pending)))))) w)"

definition restack_continue ::
  "('sk, 'x) crypto_scheme \<Rightarrow> 'y replay_env_scheme \<Rightarrow> tree_writer \<Rightarrow> (command_error \<Rightarrow> string) \<Rightarrow>
   author \<times> 'sk \<Rightarrow> blake3_hash command" where
  "restack_continue K env out describe signer =
     seq load_pending_restack (\<lambda>pending.
       andthen (validate_pending_restack pending) (execute_pending_restack K env out describe signer pending))"

definition restack_abort ::
  "('sk, 'x) crypto_scheme \<Rightarrow> 'y replay_env_scheme \<Rightarrow> tree_writer \<Rightarrow> unit command" where
  "restack_abort K env out =
     seq load_pending_restack (\<lambda>pending.
     seq (load_view (pr_view pending)) (\<lambda>current_heads.
     andthen (hydrate_cmd current_heads)
       (seq (state_of K env current_heads) (\<lambda>current_state.
        andthen (update (save_view (pr_view pending) (pr_before_heads pending)))
          (andthen (hydrate_cmd (pr_before_heads pending))
            (seq (state_of K env (pr_before_heads pending)) (\<lambda>restored_state.
             andthen (on_error (write_tree out restored_state) (save_view (pr_view pending) current_heads))
               (update (save_pending_restack None)))))))))"

section \<open>Editing a change in the working directory\<close>

definition graph_change :: "blake3_hash \<Rightarrow> change command" where
  "graph_change i w =
     (case graph_get (rp_graph w) i of
        None \<Rightarrow> Some (Inl (TargetNotInGraph i), w)
      | Some c \<Rightarrow> Some (Inr c, w))"

definition diffedit_prepare ::
  "('sk, 'x) crypto_scheme \<Rightarrow> 'y replay_env_scheme \<Rightarrow> tree_writer \<Rightarrow> string \<Rightarrow> string \<Rightarrow> unit command" where
  "diffedit_prepare K env out view_name target_rev =
     seq (resolve_cmd view_name target_rev) (\<lambda>target_id.
     seq (graph_change target_id) (\<lambda>target.
     andthen (update (\<lambda>w. w\<lparr>ws_diffedit := Some target_id\<rparr>))
       (seq (state_of K env {|target_id|}) (write_tree out))))"

text \<open>The edit is what the working directory adds to the state at the target.\<close>

definition edit_of :: "delta \<Rightarrow> materialized_state \<Rightarrow> atom list command" where
  "edit_of delta st w =
     (case delta st of
        Inl e \<Rightarrow> Some (Inl (RepoError e), w)
      | Inr (atoms, written) \<Rightarrow> Some (Inr atoms, w\<lparr>ws_blobs := store_blobs written (ws_blobs w)\<rparr>))"

definition diffedit_apply ::
  "('sk, 'x) crypto_scheme \<Rightarrow> 'y replay_env_scheme \<Rightarrow> tree_writer \<Rightarrow> string \<Rightarrow> delta \<Rightarrow> string option \<Rightarrow>
   author \<Rightarrow> 'sk \<Rightarrow> blake3_hash command" where
  "diffedit_apply K env out view_name delta message author sk =
     seq (\<lambda>w. from_result (case ws_diffedit w of None \<Rightarrow> Inl NoDiffeditSession | Some t \<Rightarrow> Inr t) w) (\<lambda>target_id.
     seq (graph_change target_id) (\<lambda>target.
     seq (state_of K env {|target_id|}) (\<lambda>stored_state.
     seq (edit_of delta stored_state) (\<lambda>atoms.
     andthen (require (atoms \<noteq> []) NothingToApply)
       (let intent = (case message of Some m \<Rightarrow> m | None \<Rightarrow> ''diffedit: '' @ ch_intent target);
            c = change_new K (ch_deps target) atoms intent author sk
        in andthen (update (record_change c))
             (seq (load_view view_name) (\<lambda>heads.
              andthen (commit_rewrite K env out ''diffedit'' view_name heads (ch_id c)
                  (fmap_of_list [(target_id, ch_id c)]))
                (andthen (update (\<lambda>w. w\<lparr>ws_diffedit := None\<rparr>)) (ret (ch_id c))))))))))"

section \<open>What a rewrite leaves\<close>

definition staged ::
  "string \<Rightarrow> string \<Rightarrow> blake3_hash fset \<Rightarrow> blake3_hash \<Rightarrow> (blake3_hash, blake3_hash) fmap \<Rightarrow>
   workspace \<Rightarrow> workspace \<Rightarrow> bool" where
  "staged command view prior new_id rewrites w w' \<longleftrightarrow>
     rp_views w' = fmupd view {|new_id|} (rp_views w) \<and> rp_epochs w' = rp_epochs w ++\<^sub>f rewrites \<and>
     ws_log w' = ws_log w @ [\<lparr>lm_command = command, lm_view = view, lm_before = prior,
       lm_after = {|new_id|}, lm_rewrites = Some rewrites\<rparr>] \<and> ws_redo w' = ws_redo w"

definition same_metadata :: "workspace \<Rightarrow> workspace \<Rightarrow> bool" where
  "same_metadata w w' \<longleftrightarrow>
     rp_views w' = rp_views w \<and> rp_epochs w' = rp_epochs w \<and> ws_log w' = ws_log w \<and> ws_redo w' = ws_redo w"

lemma same_metadata_refl [simp]: "same_metadata w w"
  by (simp add: same_metadata_def)

lemma same_metadata_trans: "same_metadata w w' \<Longrightarrow> same_metadata w' w'' \<Longrightarrow> same_metadata w w''"
  by (simp add: same_metadata_def)

lemma record_change_fields [simp]:
  "rp_views (record_change c w) = rp_views w" "rp_epochs (record_change c w) = rp_epochs w"
  by (simp_all add: record_change_def)

lemma record_all_fields [simp]:
  "rp_views (record_all cs w) = rp_views w" "rp_epochs (record_all cs w) = rp_epochs w"
  "ws_log (record_all cs w) = ws_log w" "ws_redo (record_all cs w) = ws_redo w"
  by (induction cs arbitrary: w) (simp_all add: record_all_def record_change_def)

lemma same_metadata_record [simp]:
  "same_metadata (record_change c w) w' = same_metadata w w'"
  "same_metadata (record_all cs w) w' = same_metadata w w'"
  "same_metadata (save_pending_restack p w) w' = same_metadata w w'"
  "same_metadata w (save_pending_restack p w') = same_metadata w w'"
  by (simp_all add: same_metadata_def record_change_def save_pending_restack_def)

lemma staged_record [simp]:
  "staged command view prior i m (record_change c w) w' = staged command view prior i m w w'"
  by (simp add: staged_def record_change_def)

lemma staged_record_all [simp]:
  "staged command view prior i m (record_all cs w) w' = staged command view prior i m w w'"
  by (simp add: staged_def)

lemma commit_rewrite_cases:
  assumes "commit_rewrite K env out command view prior new_id rewrites w = Some (r, w')"
    and "fmlookup (rp_views w) view = Some prior"
  shows "(case r of Inl e \<Rightarrow> same_metadata w w' | Inr _ \<Rightarrow> staged command view prior new_id rewrites w w') \<and>
    rp_store w' = rp_store w \<and> rp_graph w' = rp_graph w \<and> ws_restack w' = ws_restack w"
proof -
  have "fmupd view prior (rp_views w) = rp_views w"
    using assms(2) by (intro fmap_ext) auto
  then show ?thesis
    using assms(1)
    by (auto simp: commit_rewrite_def Let_def on_error_def seq_def write_tree_def staged_def same_metadata_def
        save_view_def stage_rewrite_metadata_def append_rewrite_operation_def persist_rewrite_map_def
        append_log_def rollback_rewrite_metadata_def
        split: option.splits sum.splits prod.splits dest!: state_of_view_same)
qed

lemma run_squash_iff:
  "run_squash K heads t signer w = Some (Inr outcome, w') \<longleftrightarrow>
     w' = w \<and> History.squash_into K (rp_graph w) heads t signer = Some (Inr outcome)"
  "run_squash K heads t signer w = Some (Inl e, w') \<longleftrightarrow>
     w' = w \<and> (\<exists>e'. e = RewriteError e' \<and> History.squash_into K (rp_graph w) heads t signer = Some (Inl e'))"
  by (auto simp: run_squash_def split: option.splits sum.splits)

lemma run_reorder_iff:
  "run_reorder K desired signer w = Some (Inr outcome, w') \<longleftrightarrow>
     w' = w \<and> History.reorder K (rp_graph w) desired signer = Some (Inr outcome)"
  "run_reorder K desired signer w = Some (Inl e, w') \<longleftrightarrow>
     w' = w \<and> (\<exists>e'. e = RewriteError e' \<and> History.reorder K (rp_graph w) desired signer = Some (Inl e'))"
  by (auto simp: run_reorder_def split: option.splits sum.splits)

text \<open>A command that leaves the metadata alone when it fails and stages it when it succeeds.\<close>

definition rewrites_or_keeps ::
  "string \<Rightarrow> string \<Rightarrow> workspace \<Rightarrow> (command_error + blake3_hash) \<Rightarrow> workspace \<Rightarrow> bool" where
  "rewrites_or_keeps command view w r w' \<longleftrightarrow>
     (case r of
        Inl e \<Rightarrow> same_metadata w w'
      | Inr new_id \<Rightarrow> \<exists>prior rewrites. fmlookup (rp_views w) view = Some prior \<and>
          (\<forall>i. i |\<in>| fmdom rewrites \<longrightarrow> graph_get (rp_graph w) i \<noteq> None) \<and>
          staged command view prior new_id rewrites w w')"

lemma fmdom_map_on: "i |\<in>| fmdom (map_on ids m) \<longleftrightarrow> i \<in> set ids \<and> m i \<noteq> None"
  by (auto simp: map_on_def fmlookup_of_list fset_of_list.rep_eq image_iff split: option.splits) metis

lemma squash_cases:
  assumes "squash_into_cmd K env out v target signer w = Some (r, w')"
  shows "rewrites_or_keeps ''squash'' v w r w'"
proof (cases r)
  case (Inl e)
  with assms show ?thesis
    by (auto simp: squash_into_cmd_def command_iffs load_view_iff resolve_cmd_iff run_squash_iff Let_def
        rewrites_or_keeps_def split: option.splits dest!: commit_rewrite_cases)
next
  case (Inr new)
  with assms have "\<exists>prior (outcome :: squash_outcome). fmlookup (rp_views w) v = Some prior \<and>
      commit_rewrite K env out ''squash'' v prior new
        (map_on (sorted_list_of_fset (fmdom (nodes (rp_graph w)))) (sq_rewrite_map outcome))
        (record_change (squashed outcome) w) = Some (Inr (), w')"
    by (auto simp: squash_into_cmd_def command_iffs load_view_iff resolve_cmd_iff run_squash_iff Let_def
        split: option.splits sum.splits)
  then obtain prior and outcome :: squash_outcome where v: "fmlookup (rp_views w) v = Some prior"
    and c: "commit_rewrite K env out ''squash'' v prior new
        (map_on (sorted_list_of_fset (fmdom (nodes (rp_graph w)))) (sq_rewrite_map outcome))
        (record_change (squashed outcome) w) = Some (Inr (), w')" by blast
  let ?rewrites = "map_on (sorted_list_of_fset (fmdom (nodes (rp_graph w)))) (sq_rewrite_map outcome)"
  from commit_rewrite_cases [OF c] v have "staged ''squash'' v prior new ?rewrites w w'" by simp
  moreover have "\<forall>i. i |\<in>| fmdom ?rewrites \<longrightarrow> graph_get (rp_graph w) i \<noteq> None"
    by (auto simp: fmdom_map_on graph_get_def dest: fmdom_notI)
  ultimately show ?thesis using v unfolding rewrites_or_keeps_def Inr by auto
qed

lemma reorder_desired:
  "History.reorder K g desired signer = Some (Inr outcome) \<Longrightarrow> i \<in> set desired \<Longrightarrow> graph_get g i \<noteq> None"
  by (auto simp: History.reorder_def list_ex_iff split: if_splits)

lemma reorder_cases:
  assumes "reorder_cmd K env out v revs signer w = Some (r, w')"
  shows "rewrites_or_keeps ''reorder'' v w r w'"
proof (cases r)
  case (Inl e)
  with assms show ?thesis
    by (auto simp: reorder_cmd_def command_iffs load_view_iff from_result_def run_reorder_iff Let_def
        rewrites_or_keeps_def split: option.splits dest!: commit_rewrite_cases)
next
  case (Inr new)
  with assms obtain prior desired outcome where
    v: "fmlookup (rp_views w) v = Some prior"
    and o: "History.reorder K (rp_graph w) desired signer = Some (Inr outcome)"
    and c: "commit_rewrite K env out ''reorder'' v prior new (map_on desired (ro_rewrite_map outcome))
        (record_all (rewritten outcome) w) = Some (Inr (), w')"
    by (auto simp: reorder_cmd_def command_iffs load_view_iff from_result_def run_reorder_iff Let_def
        split: option.splits sum.splits)
  from commit_rewrite_cases [OF c] v
  have "staged ''reorder'' v prior new (map_on desired (ro_rewrite_map outcome)) w w'" by simp
  moreover have "\<forall>i. i |\<in>| fmdom (map_on desired (ro_rewrite_map outcome)) \<longrightarrow> graph_get (rp_graph w) i \<noteq> None"
    using reorder_desired [OF o] by (simp add: fmdom_map_on)
  ultimately show ?thesis using v unfolding rewrites_or_keeps_def Inr by auto
qed

lemma rewrites_or_keeps_Inr:
  assumes "squash_into_cmd K env out v target signer w = Some (Inr new, w1) \<or>
      reorder_cmd K env out v revs signer w = Some (Inr new, w1)"
  shows "\<exists>command prior m. fmlookup (rp_views w) v = Some prior \<and>
    (\<forall>i. i |\<in>| fmdom m \<longrightarrow> graph_get (rp_graph w) i \<noteq> None) \<and> staged command v prior new m w w1"
  using assms
proof
  assume "squash_into_cmd K env out v target signer w = Some (Inr new, w1)"
  from squash_cases [OF this] show ?thesis by (auto simp: rewrites_or_keeps_def)
next
  assume "reorder_cmd K env out v revs signer w = Some (Inr new, w1)"
  from reorder_cases [OF this] show ?thesis by (auto simp: rewrites_or_keeps_def)
qed

section \<open>Rewrites that change nothing\<close>

text \<open>
  The first change of a chain that is not moved keeps its id when its author signs again, and
  the rewrite map then sends it to itself.
\<close>

lemma bubble_pass_hd:
  assumes "bubble_pass K signer pos (x # ws) = Inr (ws', swapped)" "pos (origin x) = Some 0"
  shows "\<exists>more. ws' = x # more"
  using assms by (cases ws) (auto simp: map_result_Inr_iff split: option.splits)

lemma bubble_loop_hd:
  "bubble_loop n K signer pos (x # ws) = Inr ws' \<Longrightarrow> pos (origin x) = Some 0 \<Longrightarrow> \<exists>more. ws' = x # more"
proof (induction n arbitrary: ws)
  case (Suc n)
  from Suc.prems(1) obtain ws1 swapped where pass: "bubble_pass K signer pos (x # ws) = Inr (ws1, swapped)"
    and rest: "(if swapped then bubble_loop n K signer pos ws1 else Inr ws1) = Inr ws'"
    by (auto simp: bind_result_Inr_iff)
  from bubble_pass_hd [OF pass Suc.prems(2)] obtain more where "ws1 = x # more" by blast
  with rest Suc.IH Suc.prems(2) show ?case by (auto split: if_splits)
qed auto

lemma resolve_linear_chain_hd:
  assumes "resolve_linear_chain g selected = Inr chain" "r |\<in>| selected" "parents_in g selected r = []"
  shows "\<exists>more. chain = r # more"
proof -
  let ?roots = "filter (\<lambda>i. parents_in g selected i = []) (sorted_list_of_fset selected)"
  have one: "length ?roots = 1" and walk: "chain_walk g selected (hd ?roots) {||} = Some chain"
    using assms(1) by (auto simp: resolve_linear_chain_def Let_def split: if_splits option.splits)
  have "r \<in> set ?roots" using assms(2,3) by simp
  with one have "hd ?roots = r" by (cases ?roots) auto
  with walk show ?thesis
    by (subst (asm) chain_walk.simps) (auto split: if_splits list.splits)
qed

lemma map_of_zip_hd: "map_of (zip (r # rs) [0 ..< length (r # rs)]) r = Some 0"
  by (simp add: upt_conv_Cons del: upt_Suc)

lemma reorder_fixed_root:
  assumes "wf_graph g" "History.reorder K g (r # rs) (author, sk) = Some (Inr out)"
    and "graph_get g r = Some c" "parents_in g (fset_of_list (r # rs)) r = []"
    and "ch_id c = compute_id K (ch_deps c) (ch_atoms c) (ch_intent c) author"
  shows "ro_rewrite_map out r = Some r"
proof -
  let ?sel = "fset_of_list (r # rs)"
  from reorder_Inr [OF assms(2)] obtain chain working sorted_work cs m where
    dist: "distinct (r # rs)"
    and chain: "resolve_linear_chain g ?sel = Inr chain"
    and working: "all_some (List.map (\<lambda>i. map_option (\<lambda>c. \<lparr>origin = i, wchange = c\<rparr>) (graph_get g i)) chain)
        = Some working"
    and bub: "bubble_loop (length working) K (author, sk)
        (map_of (zip (r # rs) [0 ..< length (r # rs)])) working = Inr sorted_work"
    and origins: "List.map origin sorted_work = r # rs"
    and reb: "rebuild K (author, sk) ?sel Map.empty None sorted_work = (cs, m)"
    and out: "out = \<lparr>rewritten = cs, ro_rewrite_map = m, new_head = ch_id (last cs)\<rparr>"
    by (elim exE conjE) (rule that)
  obtain more where "chain = r # more" using resolve_linear_chain_hd [OF chain _ assms(4)] by auto
  with working assms(3) obtain ws where w: "working = \<lparr>origin = r, wchange = c\<rparr> # ws"
    by (auto simp: bind_eq_Some_conv)
  obtain more' where sw: "sorted_work = \<lparr>origin = r, wchange = c\<rparr> # more'"
    using bubble_loop_hd [OF bub [unfolded w]] map_of_zip_hd [of r rs] by (auto simp del: upt_Suc)
  have "distinct (List.map origin sorted_work)" using origins dist by simp
  note rm = rebuild_map [OF reb this]
  have "deps_of g r = ch_deps c" using assms(1,3) by (simp add: wf_graph_def graph_get_def deps_of_def entry_or_default_def)
  with assms(4) have "ffilter (\<lambda>d. d |\<in>| ?sel) (ch_deps c) = {||}"
    by (auto simp: parents_in_def parent_ids_def filter_empty_conv)
  then have "remap_deps ?sel Map.empty None (ch_deps c) = ch_deps c"
    by (auto simp: remap_deps_def fset_eq_iff)
  then have "ch_id (cs ! 0) = r"
    using reb assms(1,3,5) unfolding sw
    by (auto simp: Let_def wf_graph_def graph_get_def split: prod.splits)
  with rm show ?thesis by (auto simp: sw out)
qed

text \<open>
  An epoch map with a cycle: no heads that lead into it are ever hydrated, because some member of
  the cycle stays in the queue.
\<close>

lemma hydrate_step_keeps:
  "hydrate_step epochs store g (i # queue) = More g' queue' \<Longrightarrow> set queue \<subseteq> set queue'"
  by (auto split: option.splits if_splits)

lemma cycle_stays_queued:
  assumes "epoch_cycle epochs C" "hydrating epochs store H V g (set (i # queue))"
    and step: "hydrate_step epochs store g (i # queue) = More g' queue'"
    and inv: "C \<inter> (V \<union> set (i # queue)) \<noteq> {} \<longrightarrow> C \<inter> set (i # queue) \<noteq> {}"
  shows "C \<inter> (insert i V \<union> set queue') \<noteq> {} \<longrightarrow> C \<inter> set queue' \<noteq> {}"
proof (cases "i \<in> C")
  case True
  then obtain j where j: "j \<in> C" "fmlookup epochs i = Some j" using assms(1) by (auto simp: epoch_cycle_def)
  then have "fmlookup epochs j \<noteq> None" using assms(1) by (auto simp: epoch_cycle_def)
  then have "graph_get g j = None" using hydrating_graph(2) [OF assms(2), of j] by (cases "graph_get g j") auto
  with step j have "j \<in> set queue'" by auto
  with j(1) show ?thesis by blast
next
  case False
  with inv hydrate_step_keeps [OF step] show ?thesis by auto
qed

lemma hydrate_loop_cycle:
  assumes cycle: "epoch_cycle epochs C"
    and "hydrate_loop epochs store g queue = Some (Inr g')" "hydrating epochs store H V g (set queue)"
    and "C \<inter> (V \<union> set queue) \<noteq> {} \<longrightarrow> C \<inter> set queue \<noteq> {}"
  shows "C \<inter> (leads_to epochs store)\<^sup>* `` H = {}"
proof -
  have "\<forall>g' V. r = Inr g' \<longrightarrow> e = epochs \<longrightarrow> s = store \<longrightarrow> hydrating epochs store H V g (set queue) \<longrightarrow>
      (C \<inter> (V \<union> set queue) \<noteq> {} \<longrightarrow> C \<inter> set queue \<noteq> {}) \<longrightarrow> C \<inter> (leads_to epochs store)\<^sup>* `` H = {}"
    if "hydrate_loop e s g queue = Some r" for e s g queue r
  proof (rule hydrate_loop.raw_induct [where P = "\<lambda>e s g queue r. \<forall>g' V. r = Inr g' \<longrightarrow> e = epochs \<longrightarrow>
      s = store \<longrightarrow> hydrating epochs store H V g (set queue) \<longrightarrow>
      (C \<inter> (V \<union> set queue) \<noteq> {} \<longrightarrow> C \<inter> set queue \<noteq> {}) \<longrightarrow> C \<inter> (leads_to epochs store)\<^sup>* `` H = {}",
      OF _ that])
    fix loop e s g queue r
    assume IH: "\<And>e s g queue r. loop e s g queue = Some r \<Longrightarrow> \<forall>g' V. r = Inr g' \<longrightarrow> e = epochs \<longrightarrow>
        s = store \<longrightarrow> hydrating epochs store H V g (set queue) \<longrightarrow>
        (C \<inter> (V \<union> set queue) \<noteq> {} \<longrightarrow> C \<inter> set queue \<noteq> {}) \<longrightarrow> C \<inter> (leads_to epochs store)\<^sup>* `` H = {}"
      and run: "(case hydrate_step e s g queue of Done r \<Rightarrow> Some r | More g' queue' \<Rightarrow> loop e s g' queue') = Some r"
    show "\<forall>g' V. r = Inr g' \<longrightarrow> e = epochs \<longrightarrow> s = store \<longrightarrow> hydrating epochs store H V g (set queue) \<longrightarrow>
        (C \<inter> (V \<union> set queue) \<noteq> {} \<longrightarrow> C \<inter> set queue \<noteq> {}) \<longrightarrow> C \<inter> (leads_to epochs store)\<^sup>* `` H = {}"
    proof (intro allI impI)
      fix g' V
      assume res: "r = Inr g'" "e = epochs" "s = store" and hyd: "hydrating epochs store H V g (set queue)"
        and inv: "C \<inter> (V \<union> set queue) \<noteq> {} \<longrightarrow> C \<inter> set queue \<noteq> {}"
      show "C \<inter> (leads_to epochs store)\<^sup>* `` H = {}"
      proof (cases queue)
        case Nil
        have "V = (leads_to epochs store)\<^sup>* `` H"
          by (rule expanded_closed) (use hyd Nil in \<open>auto simp: hydrating_def\<close>)
        with inv Nil show ?thesis by auto
      next
        case (Cons i rest)
        from run res Cons obtain g1 queue1 where step: "hydrate_step epochs store g (i # rest) = More g1 queue1"
          and more: "loop epochs store g1 queue1 = Some (Inr g')"
          by (auto split: hydration.splits option.splits if_splits)
        have "hydrating epochs store H (insert i V) g1 (set queue1)"
          by (rule hydrating_extend [OF _ step]) (use hyd Cons in simp)
        moreover have "C \<inter> (insert i V \<union> set queue1) \<noteq> {} \<longrightarrow> C \<inter> set queue1 \<noteq> {}"
          by (rule cycle_stays_queued [OF cycle _ step]) (use hyd inv Cons in simp_all)
        ultimately show ?thesis using IH [OF more] by blast
      qed
    qed
  qed
  with assms(2-4) show ?thesis by blast
qed

lemma hydrate_cycle_fails:
  assumes "epoch_cycle (rp_epochs r) C" "c \<in> C" "c \<in> (leads_to (rp_epochs r) (rp_store r))\<^sup>* `` fset heads"
  shows "hydrate_heads (reopen r) heads \<noteq> Some (Inr r')"
proof
  assume "hydrate_heads (reopen r) heads = Some (Inr r')"
  then obtain g where run: "hydrate_loop (rp_epochs r) (rp_store r) graph_new (sorted_list_of_fset heads) = Some (Inr g)"
    by (auto simp: hydrate_heads_def map_result_Inr_iff)
  have "hydrating (rp_epochs r) (rp_store r) (fset heads) {} graph_new (set (sorted_list_of_fset heads))"
    using hydrating_init by simp
  from hydrate_loop_cycle [OF assms(1) run this] assms(2,3) show False by auto
qed

lemma seq_run: "m w = Some (Inr x, w') \<Longrightarrow> seq m k w = k x w'"
  by (simp add: seq_def)

section \<open>Restacking and the empty graph\<close>

lemma pausing_iff:
  "pausing describe p m w = Some (Inr x, w') \<longleftrightarrow> m w = Some (Inr x, w')"
  "pausing describe p m w = Some (Inl e, w') \<longleftrightarrow>
     (\<exists>w1. m w = Some (Inl e, w1) \<and> w' = save_pending_restack (Some (with_conflict p (describe e))) w1)"
  by (auto simp: pausing_def split: option.split sum.split)

lemma squash_empty: "History.squash_into K graph_new heads t signer \<noteq> Some (Inr (outcome :: squash_outcome))"
  by (simp add: History.squash_into_def)

lemma reorder_empty: "History.reorder K graph_new desired signer \<noteq> Some (Inr (outcome :: reorder_outcome))"
  using reorder_desired [of K graph_new desired signer outcome "hd desired"]
  by (cases desired) (auto simp: History.reorder_def)

lemma execute_empty:
  "rp_graph w = graph_new \<Longrightarrow> execute_pending_restack K env out describe signer p w \<noteq> Some (Inr i, w')"
  by (auto simp: execute_pending_restack_def command_iffs load_view_iff Let_def validate_pending_restack_def
      save_pending_restack_def pausing_iff run_reorder_iff reorder_empty)

lemma save_pending_restack_simps [simp]:
  "rp_views (save_pending_restack p w) = rp_views w" "rp_epochs (save_pending_restack p w) = rp_epochs w"
  "ws_log (save_pending_restack p w) = ws_log w" "ws_redo (save_pending_restack p w) = ws_redo w"
  "rp_graph (save_pending_restack p w) = rp_graph w" "ws_restack (save_pending_restack p w) = p"
  by (simp_all add: save_pending_restack_def)

text \<open>Checkpoints of one restack: what it is to do stays, its progress changes.\<close>

definition same_restack :: "pending_rewrite \<Rightarrow> pending_rewrite \<Rightarrow> bool" where
  "same_restack p p' \<longleftrightarrow> pr_view p' = pr_view p \<and> pr_before_heads p' = pr_before_heads p \<and>
     pr_desired_order p' = pr_desired_order p \<and> pr_command p' = pr_command p \<and> pr_version p' = pr_version p"

lemma same_restack_simps [simp]:
  "same_restack p p" "same_restack p (with_conflict q m) = same_restack p q"
  "same_restack p (with_rewrite_map q rs) = same_restack p q" "same_restack p (clear_conflict q) = same_restack p q"
  "same_restack p (with_attempt_incremented q) = same_restack p q"
  "pr_view (with_attempt_incremented q) = pr_view q" "pr_view (clear_conflict q) = pr_view q"
  "pr_before_heads (with_attempt_incremented q) = pr_before_heads q"
  "pr_before_heads (clear_conflict q) = pr_before_heads q"
  by (simp_all add: same_restack_def with_conflict_def with_rewrite_map_def clear_conflict_def
      with_attempt_incremented_def)

lemma staged_pending [simp]:
  "staged command view prior i m (save_pending_restack p w) w' = staged command view prior i m w w'"
  "staged command view prior i m w (save_pending_restack p w') = staged command view prior i m w w'"
  by (simp_all add: staged_def)

lemma validate_same: "validate_pending_restack p w = Some (r, w') \<Longrightarrow> w' = w"
  by (cases r) (auto simp: validate_pending_restack_def command_iffs)

lemma execute_restack_cases:
  assumes "execute_pending_restack K env out describe signer p w = Some (r, w')" "ws_restack w = Some p"
  shows "case r of
      Inl e \<Rightarrow> same_metadata w w' \<and> (\<exists>p'. ws_restack w' = Some p' \<and> same_restack p p')
    | Inr new \<Rightarrow> ws_restack w' = None \<and> fmlookup (rp_views w) (pr_view p) = Some (pr_before_heads p) \<and>
        (\<exists>m. staged ''restack'' (pr_view p) (pr_before_heads p) new m w w')"
proof (cases r)
  case (Inl e)
  with assms show ?thesis
    by (auto simp: execute_pending_restack_def command_iffs load_view_iff Let_def validate_pending_restack_def
        pausing_iff run_reorder_iff split: option.splits dest!: commit_rewrite_cases)
next
  case (Inr new)
  with assms(1) show ?thesis
    by (auto simp: execute_pending_restack_def command_iffs load_view_iff Let_def validate_pending_restack_def
        pausing_iff run_reorder_iff split: option.splits if_splits dest!: commit_rewrite_cases)
qed

lemma restack_abort_Inr:
  assumes "restack_abort K env out w = Some (Inr (), w')"
  shows "\<exists>p. ws_restack w = Some p \<and> rp_views w' = fmupd (pr_view p) (pr_before_heads p) (rp_views w) \<and>
    rp_epochs w' = rp_epochs w \<and> ws_log w' = ws_log w \<and> ws_redo w' = ws_redo w \<and> ws_restack w' = None"
proof -
  from assms obtain p cur w1 w2 where p: "ws_restack w = Some p"
    and h: "hydrate_cmd cur w = Some (Inr (), w1)"
      "hydrate_cmd (pr_before_heads p) (save_view (pr_view p) (pr_before_heads p) w1) = Some (Inr (), w2)"
    and w': "w' = save_pending_restack None w2"
    by (auto simp: restack_abort_def command_iffs load_view_iff write_tree_iff load_pending_restack_def
        split: option.splits dest!: state_of_same)
  from same_but_graph_fields [OF hydrate_cmd_same [OF h(1)]] same_but_graph_fields [OF hydrate_cmd_same [OF h(2)]]
  show ?thesis by (simp add: p w' save_view_def)
qed

section \<open>Properties\<close>


text \<open>Three changes on top of each other, under ids that pin the dependencies.\<close>

abbreviation toy_author :: author where
  "toy_author \<equiv> Human ''n'' ''e'' [7]"

definition chain_crypto :: "bytes crypto" where
  "chain_crypto = toy_crypto\<lparr>bincode_id_payload := (\<lambda>(deps, atoms, intent, author).
     str_bytes intent @ concat deps)\<rparr>"

definition chain_a :: change where
  "chain_a = change_new chain_crypto {||} [Insert [''f''] [1]] ''a'' toy_author [7]"

definition chain_b :: change where
  "chain_b = change_new chain_crypto {|ch_id chain_a|} [Insert [''g''] [2]] ''b'' toy_author [7]"

definition chain_c :: change where
  "chain_c = change_new chain_crypto {|ch_id chain_b|} [Insert [''h''] [3]] ''c'' toy_author [7]"

definition chain_ws :: workspace where
  "chain_ws = two_change_ws\<lparr>
     rp_store := fmap_of_list [(ch_id chain_a, chain_a), (ch_id chain_b, chain_b), (ch_id chain_c, chain_c)],
     rp_views := fmap_of_list [(''main'', {|ch_id chain_c|})], ws_log := []\<rparr>"

definition chain_loaded :: workspace where
  "chain_loaded = chain_ws\<lparr>rp_graph := add_change (add_change (add_change graph_new chain_c) chain_b) chain_a\<rparr>"

lemma chain_loads: "hydrate_cmd {|ch_id chain_c|} chain_ws = Some (Inr (), chain_loaded)"
  by code_simp

lemma reopen_chain: "reopen chain_ws = chain_ws"
  by (simp add: reopen_def chain_ws_def two_change_ws_def)

lemma loaded_chain: "loaded_graph chain_loaded"
proof -
  have "acyclic (replaces (rp_epochs chain_ws))"
    by (simp add: chain_ws_def two_change_ws_def replaces_def acyclic_def)
  moreover have "loaded_graph chain_ws" using loaded_graph_reopen [of chain_ws] by (simp add: reopen_chain)
  ultimately show ?thesis using hydrate_cmd_loaded [of chain_ws "{|ch_id chain_c|}"] chain_loads by auto
qed

definition reorder_chain :: "string list \<Rightarrow> blake3_hash command" where
  "reorder_chain revs = reorder_cmd chain_crypto toy_env always_written ''main'' revs (toy_author, [7])"

definition moved_order :: "blake3_hash list" where
  "moved_order = [ch_id chain_a, ch_id chain_c, ch_id chain_b]"

definition moved_revs :: "string list" where
  "moved_revs = [''61'', ''636261'', ''6261'']"

lemma resolve_moved: "resolve_all chain_loaded ''main'' moved_revs = Inr moved_order"
  by code_simp

text \<open>The new head of the moved chain leads to the first change, which did not move.\<close>

definition leads_down :: "workspace \<Rightarrow> blake3_hash \<Rightarrow> blake3_hash \<Rightarrow> bool" where
  "leads_down w i j \<longleftrightarrow> fmlookup (rp_epochs w) i = None \<and>
     (case read_change (rp_store w) i of None \<Rightarrow> False | Some c \<Rightarrow> j |\<in>| ch_deps c)"

lemma leads_down: "leads_down w i j \<Longrightarrow> (i, j) \<in> leads_to (rp_epochs w) (rp_store w)"
  by (auto simp: leads_down_def leads_to_def split: option.splits)

definition moved_chain_ok :: "reorder_outcome \<Rightarrow> workspace \<Rightarrow> bool" where
  "moved_chain_ok out w1 \<longleftrightarrow>
     leads_down w1 (new_head out) (ch_id (rewritten out ! 1)) \<and>
     leads_down w1 (ch_id (rewritten out ! 1)) (ch_id chain_a) \<and>
     succeeds (undo chain_crypto toy_env always_written (reopen w1))"

lemma moved_chain_runs:
  "case History.reorder chain_crypto (rp_graph chain_loaded) moved_order (toy_author, [7]) of
     Some (Inr out) \<Rightarrow>
       (case commit_rewrite chain_crypto toy_env always_written ''reorder'' ''main'' {|ch_id chain_c|}
          (new_head out) (map_on moved_order (ro_rewrite_map out)) (record_all (rewritten out) chain_loaded) of
          Some (Inr u, w1) \<Rightarrow> moved_chain_ok out w1
        | _ \<Rightarrow> False)
   | _ \<Rightarrow> False"
  by code_simp

lemma case_success:
  "(case r of Some (Inr x, w) \<Rightarrow> P x w | _ \<Rightarrow> False) \<Longrightarrow> \<exists>x w. r = Some (Inr x, w) \<and> P x w"
  by (cases r) (auto split: prod.splits sum.splits)

lemma case_computed:
  "(case r of Some (Inr x) \<Rightarrow> P x | _ \<Rightarrow> False) \<Longrightarrow> \<exists>x. r = Some (Inr x) \<and> P x"
  by (cases r) (auto split: sum.splits)

lemma moved_chain:
  obtains out :: reorder_outcome and w1 where "reorder_chain moved_revs chain_loaded = Some (Inr (new_head out), w1)"
    "(new_head out, ch_id chain_a) \<in> (leads_to (rp_epochs w1) (rp_store w1))\<^sup>*"
    "succeeds (undo chain_crypto toy_env always_written (reopen w1))"
proof -
  have "\<exists>(out :: reorder_outcome) w1.
      History.reorder chain_crypto (rp_graph chain_loaded) moved_order (toy_author, [7]) = Some (Inr out) \<and>
      commit_rewrite chain_crypto toy_env always_written ''reorder'' ''main'' {|ch_id chain_c|}
        (new_head out) (map_on moved_order (ro_rewrite_map out)) (record_all (rewritten out) chain_loaded) =
        Some (Inr (), w1) \<and> moved_chain_ok out w1"
    using case_computed [OF moved_chain_runs] by (fastforce dest: case_success)
  then obtain out :: reorder_outcome and w1 where
    out: "History.reorder chain_crypto (rp_graph chain_loaded) moved_order (toy_author, [7]) = Some (Inr out)"
    and c: "commit_rewrite chain_crypto toy_env always_written ''reorder'' ''main'' {|ch_id chain_c|}
        (new_head out) (map_on moved_order (ro_rewrite_map out)) (record_all (rewritten out) chain_loaded) =
        Some (Inr (), w1)"
    and ok: "moved_chain_ok out w1" by blast
  have view: "fmlookup (rp_views chain_loaded) ''main'' = Some {|ch_id chain_c|}"
    by (simp add: chain_loaded_def chain_ws_def)
  have one: "fcard {|ch_id chain_c|} = 1" by (simp add: fcard.rep_eq)
  have len: "length moved_revs = 3" by (simp add: moved_revs_def)
  have "reorder_chain moved_revs chain_loaded = Some (Inr (new_head out), w1)"
    using view out c resolve_moved one
    by (simp add: reorder_chain_def reorder_cmd_def seq_def andthen_def require_def ret_def load_view_def
        from_result_def run_reorder_def Let_def moved_order_def len)
  moreover have "(new_head out, ch_id chain_a) \<in> (leads_to (rp_epochs w1) (rp_store w1))\<^sup>*"
    using ok unfolding moved_chain_ok_def by (meson leads_down r_into_rtrancl rtrancl_trans)
  moreover have "succeeds (undo chain_crypto toy_env always_written (reopen w1))"
    using ok by (simp add: moved_chain_ok_def)
  ultimately show thesis by (rule that)
qed






text \<open>
  C19.  The rewriting commands work on the graph of the process, which is empty when a command
  starts: run on a freshly opened repository, as the command line runs them, squash, reorder,
  restack, its continuation and both steps of a diffedit never succeed.
\<close>

theorem fresh_rewrites_fail:
  "squash_into_cmd K env out v target signer (reopen w) \<noteq> Some (Inr i, w1) \<and>
   reorder_cmd K env out v revs signer (reopen w) \<noteq> Some (Inr i, w1) \<and>
   restack K env out describe signer v revs (reopen w) \<noteq> Some (Inr i, w1) \<and>
   restack_continue K env out describe signer (reopen w) \<noteq> Some (Inr i, w1) \<and>
   diffedit_prepare K env out v target (reopen w) \<noteq> Some (Inr (), w1) \<and>
   diffedit_apply K env out v delta message author sk (reopen w) \<noteq> Some (Inr i, w1)"
proof -
  have "squash_into_cmd K env out v target signer (reopen w) \<noteq> Some (Inr i, w1)"
    by (auto simp: squash_into_cmd_def command_iffs load_view_iff resolve_cmd_iff run_squash_iff squash_empty)
  moreover have "reorder_cmd K env out v revs signer (reopen w) \<noteq> Some (Inr i, w1)"
    by (auto simp: reorder_cmd_def command_iffs load_view_iff from_result_def run_reorder_iff reorder_empty)
  moreover have "restack K env out describe signer v revs (reopen w) \<noteq> Some (Inr i, w1)"
    by (auto simp: restack_def command_iffs load_view_iff from_result_def Let_def execute_empty
        save_pending_restack_def)
  moreover have "restack_continue K env out describe signer (reopen w) \<noteq> Some (Inr i, w1)"
    by (auto simp: restack_continue_def command_iffs load_pending_restack_def validate_pending_restack_def
        execute_empty split: option.splits)
  moreover have "diffedit_prepare K env out v target (reopen w) \<noteq> Some (Inr (), w1)"
    by (auto simp: diffedit_prepare_def command_iffs resolve_cmd_iff graph_change_def)
  moreover have "diffedit_apply K env out v delta message author sk (reopen w) \<noteq> Some (Inr i, w1)"
    by (auto simp: diffedit_apply_def command_iffs from_result_def graph_change_def)
  ultimately show ?thesis by blast
qed

text \<open>
  C18.  A paused restack is resumable: continuing either fails and leaves the views, the epoch map,
  the log and the redo stack as they were, with a checkpoint for the same view, heads and order,
  or succeeds from exactly the heads the checkpoint was taken at and clears it.  Aborting after a
  failed continuation puts the view on the heads of the checkpoint, clears it, and is not logged.
\<close>

theorem restack_resumable:
  assumes "restack_continue K env out describe signer w = Some (r, w1)" and "ws_restack w = Some p"
  shows "case r of
      Inr new \<Rightarrow> ws_restack w1 = None \<and> fmlookup (rp_views w) (pr_view p) = Some (pr_before_heads p) \<and>
        rp_views w1 = fmupd (pr_view p) {|new|} (rp_views w)
    | Inl e \<Rightarrow> rp_views w1 = rp_views w \<and> rp_epochs w1 = rp_epochs w \<and> ws_log w1 = ws_log w \<and>
        ws_redo w1 = ws_redo w \<and>
        (\<exists>p'. ws_restack w1 = Some p' \<and> pr_view p' = pr_view p \<and> pr_before_heads p' = pr_before_heads p \<and>
           pr_desired_order p' = pr_desired_order p) \<and>
        (\<forall>w2. restack_abort K env out w1 = Some (Inr (), w2) \<longrightarrow>
           rp_views w2 = fmupd (pr_view p) (pr_before_heads p) (rp_views w) \<and> ws_restack w2 = None \<and>
           ws_log w2 = ws_log w)"
proof (cases r)
  case (Inl e)
  from assms(1) consider "w1 = w" | "execute_pending_restack K env out describe signer p w = Some (Inl e, w1)"
    using assms(2) by (auto simp: Inl restack_continue_def command_iffs load_pending_restack_def
        validate_pending_restack_def split: if_splits)
  then have "\<exists>p'. same_metadata w w1 \<and> ws_restack w1 = Some p' \<and> same_restack p p'"
  proof cases
    case 1
    with assms(2) show ?thesis by (intro exI [of _ p]) simp
  next
    case 2
    from execute_restack_cases [OF this assms(2)] show ?thesis by simp
  qed
  then obtain p' where same: "same_metadata w w1" and p': "ws_restack w1 = Some p'" "same_restack p p'" by blast
  have "rp_views w2 = fmupd (pr_view p) (pr_before_heads p) (rp_views w) \<and> ws_restack w2 = None \<and>
      ws_log w2 = ws_log w" if "restack_abort K env out w1 = Some (Inr (), w2)" for w2
    using restack_abort_Inr [OF that] p' same by (auto simp: same_metadata_def same_restack_def)
  with same p' show ?thesis by (auto simp: Inl same_metadata_def same_restack_def)
next
  case (Inr new)
  from assms have "execute_pending_restack K env out describe signer p w = Some (Inr new, w1)"
    by (auto simp: Inr restack_continue_def command_iffs load_pending_restack_def dest: validate_same)
  from execute_restack_cases [OF this assms(2)] show ?thesis by (auto simp: Inr staged_def)
qed

text \<open>A restack paused over the chain, continued by a command that has not hydrated anything.\<close>

definition paused_ws :: workspace where
  "paused_ws = chain_ws\<lparr>ws_restack := Some (new_restack ''main'' {|ch_id chain_c|} moved_order)\<rparr>"

definition describe_error :: "command_error \<Rightarrow> string" where
  "describe_error e = ''restack failed''"

definition continue_paused :: "blake3_hash command" where
  "continue_paused = restack_continue chain_crypto toy_env always_written describe_error (toy_author, [7])"

lemma paused_fails:
  "continue_paused paused_ws = Some (Inl (RewriteError InvalidReorderSet),
     save_pending_restack (Some (with_conflict (with_attempt_incremented (new_restack ''main'' {|ch_id chain_c|} moved_order))
       ''restack failed'')) chain_ws)"
proof -
  let ?p = "new_restack ''main'' {|ch_id chain_c|} moved_order"
  have "History.reorder chain_crypto graph_new moved_order (toy_author, [7]) = Some (Inl InvalidReorderSet)"
    by (simp add: reorder_def moved_order_def)
  moreover have "remap_loop fmempty n V i = i" for n V i by (cases n) simp_all
  then have "remap_change i fmempty = i" for i by (simp add: remap_change_def)
  then have "resolved_order (with_attempt_incremented (clear_conflict ?p)) = moved_order"
    by (simp add: resolved_order_def new_restack_def with_attempt_incremented_def clear_conflict_def)
  moreover have "clear_conflict ?p = ?p" by (simp add: clear_conflict_def new_restack_def)
  ultimately show ?thesis
    by (simp add: continue_paused_def restack_continue_def seq_def andthen_def load_pending_restack_def paused_ws_def
        validate_pending_restack_def require_def ret_def execute_pending_restack_def Let_def update_def load_view_def
        pausing_def run_reorder_def save_pending_restack_def describe_error_def chain_ws_def two_change_ws_def
        new_restack_def with_attempt_incremented_def)
qed

lemma paused_ws_restack: "ws_restack paused_ws = Some (new_restack ''main'' {|ch_id chain_c|} moved_order)"
  by (simp add: paused_ws_def)

theorem restack_resumable_witness:
  "\<exists>e w1. continue_paused paused_ws = Some (Inl e, w1) \<and> rp_views w1 = rp_views paused_ws \<and>
     ws_restack w1 \<noteq> None"
  using restack_resumable [OF paused_fails [unfolded continue_paused_def] paused_ws_restack] paused_fails
  by auto

text \<open>
  Applying a diffedit loses the edited change: the replacement has the dependencies of the
  target but only the atoms of the edit, which were computed against the state that includes the
  target; and the view is put on the replacement alone, without what was above the target.
\<close>

theorem diffedit_apply_exact:
  assumes "diffedit_apply K env out v delta message author sk w = Some (Inr new, w1)"
  shows "\<exists>i target st atoms written c. ws_diffedit w = Some i \<and> graph_get (rp_graph w) i = Some target \<and>
    materialize_ws K env w {|i|} = Some (Inr st) \<and> delta st = Inr (atoms, written) \<and> atoms \<noteq> [] \<and>
    ch_deps c = ch_deps target \<and> ch_atoms c = atoms \<and> new = ch_id c \<and>
    rp_store w1 = write_change c (rp_store w) \<and> rp_views w1 = fmupd v {|new|} (rp_views w) \<and>
    fmlookup (rp_epochs w1) i = Some new \<and> ws_diffedit w1 = None"
proof -
  define intent where "intent target = (case message of Some m \<Rightarrow> m | None \<Rightarrow> ''diffedit: '' @ ch_intent target)"
    for target :: change
  define c where "c target atoms = change_new K (ch_deps target) atoms (intent target) author sk"
    for target :: change and atoms
  obtain i where i: "ws_diffedit w = Some i"
    using assms by (cases "ws_diffedit w") (auto simp: diffedit_apply_def command_iffs from_result_def)
  obtain target where target: "graph_get (rp_graph w) i = Some target"
    using assms i by (cases "graph_get (rp_graph w) i")
      (auto simp: diffedit_apply_def command_iffs from_result_def graph_change_def)
  obtain st where st: "state_of K env {|i|} w = Some (Inr st, w)"
    using assms i target by (auto simp: diffedit_apply_def command_iffs from_result_def graph_change_def
        dest: state_of_same)
  obtain atoms written where edit: "delta st = Inr (atoms, written)"
    using assms i target st
    by (cases "delta st") (auto simp: diffedit_apply_def command_iffs from_result_def graph_change_def edit_of_def)
  let ?w1 = "w\<lparr>ws_blobs := store_blobs written (ws_blobs w)\<rparr>"
  let ?w2 = "record_change (c target atoms) ?w1"
  have run: "diffedit_apply K env out v delta message author sk w =
      andthen (require (atoms \<noteq> []) NothingToApply)
        (andthen (update (record_change (c target atoms)))
          (seq (load_view v) (\<lambda>heads.
             andthen (commit_rewrite K env out ''diffedit'' v heads (ch_id (c target atoms))
               (fmap_of_list [(i, ch_id (c target atoms))]))
             (andthen (update (\<lambda>w. w\<lparr>ws_diffedit := None\<rparr>)) (ret (ch_id (c target atoms))))))) ?w1"
    unfolding diffedit_apply_def
    by (subst seq_run, simp only: from_result_def i option.case, subst seq_run, simp only: graph_change_def target option.case,
        subst seq_run, rule st, subst seq_run, simp only: edit_of_def edit sum.case prod.case)
      (simp only: Let_def c_def intent_def)
  obtain heads w3 where v: "fmlookup (rp_views ?w2) v = Some heads" and ne: "atoms \<noteq> []"
    and new: "new = ch_id (c target atoms)"
    and co: "commit_rewrite K env out ''diffedit'' v heads new (fmap_of_list [(i, new)]) ?w2 = Some (Inr (), w3)"
    and w1: "w1 = w3\<lparr>ws_diffedit := None\<rparr>"
    using assms unfolding run by (auto simp: command_iffs load_view_iff split: option.splits if_splits)
  have mat: "materialize_ws K env w {|i|} = Some (Inr st)"
    using st by (auto simp: state_of_def split: option.splits sum.splits)
  from commit_rewrite_cases [OF co v] have stg: "staged ''diffedit'' v heads new (fmap_of_list [(i, new)]) ?w2 w3"
    "rp_store w3 = rp_store ?w2" by auto
  have store: "rp_store ?w2 = write_change (c target atoms) (rp_store w)" "rp_views ?w2 = rp_views w"
    by (simp_all add: record_change_def)
  from i target mat edit ne new stg store show ?thesis
    by (intro exI [of _ i] exI [of _ target] exI [of _ st] exI [of _ atoms] exI [of _ written] exI [of _ "c target atoms"])
      (auto simp: w1 staged_def c_def fmlookup_of_list)
qed

definition edited_ws :: workspace where
  "edited_ws = chain_loaded\<lparr>ws_diffedit := Some (ch_id chain_a)\<rparr>"

definition edit_g :: delta where
  "edit_g st = Inr ([Insert [''g''] [2]], [])"

definition apply_edit :: "blake3_hash command" where
  "apply_edit = diffedit_apply chain_crypto toy_env always_written ''main'' edit_g None toy_author [7]"

text \<open>The edit adds one file; the file of the edited change is gone afterwards.\<close>

lemma edit_applies:
  "case apply_edit edited_ws of
     Some (Inr new, w1) \<Rightarrow>
       (case materialize_ws chain_crypto toy_env edited_ws {|ch_id chain_a|} of
          Some (Inr st) \<Rightarrow> st [''f''] \<noteq> None | _ \<Rightarrow> False) \<and>
       (case materialize_ws chain_crypto toy_env w1 {|new|} of
          Some (Inr st) \<Rightarrow> st [''f''] = None \<and> st [''g''] \<noteq> None | _ \<Rightarrow> False)
   | _ \<Rightarrow> False"
  by code_simp
theorem diffedit_apply_exact_witness:
  "\<exists>new w1 c. apply_edit edited_ws = Some (Inr new, w1) \<and> ch_id c = new \<and>
     ch_atoms c = [Insert [''g''] [2]] \<and> rp_store w1 = write_change c (rp_store edited_ws)"
proof -
  obtain new w1 where r: "apply_edit edited_ws = Some (Inr new, w1)"
    using case_success [OF edit_applies] by blast
  from diffedit_apply_exact [OF r [unfolded apply_edit_def]] r show ?thesis by (auto simp: edit_g_def)
qed

end
