(* ===== verification/RotatedFile.thy ===== *)
theory RotatedFile
  imports Prelude
begin

text \<open>
  Files replaced with a rotating backup (\<^verbatim>\<open>arc-cli/src/repo/core.rs\<close>: \<^verbatim>\<open>save_redo_stack\<close>,
  \<^verbatim>\<open>persist_epoch_map_raw\<close> and their readers).  The slots are the file, its temporary, the
  staged backup, the backup and the older file of the epoch map.  A run of the writer is a
  sequence of steps of which each file operation may fail, and a crash stops it after any step.
\<close>

section \<open>The files and the writer\<close>

datatype slot = Main | Temp | Staged | Backup | Legacy

text \<open>What a file holds: a payload that parses, or what an interrupted write left.\<close>

datatype 'a content = Payload 'a | Torn

type_synonym 'a files = "slot \<rightharpoonup> 'a content"

datatype phase =
    WriteTemp
  | ClearStaged
  | StageMain
  | ReplaceMain
  | RestoreMain
  | DropBackup
  | FinalizeBackup
  | DropLegacy
  | Saved
  | Failed

definition rename_file :: "slot \<Rightarrow> slot \<Rightarrow> 'a files \<Rightarrow> 'a files" where
  "rename_file s t f = (f(t := f s))(s := None)"

text \<open>One step of the writer of \<open>v\<close>; the flag tells whether its file operation succeeds.\<close>

fun persist_step :: "'a \<Rightarrow> bool \<Rightarrow> phase \<times> 'a files \<Rightarrow> phase \<times> 'a files" where
  "persist_step v ok (WriteTemp, f) =
     (if ok then (ClearStaged, f(Temp \<mapsto> Payload v)) else (Failed, f(Temp \<mapsto> Torn)))"
| "persist_step v ok (ClearStaged, f) =
     (if f Staged = None then (StageMain, f)
      else if ok then (StageMain, f(Staged := None)) else (Failed, f))"
| "persist_step v ok (StageMain, f) =
     (if f Main = None then (ReplaceMain, f)
      else if ok then (ReplaceMain, rename_file Main Staged f) else (Failed, f))"
| "persist_step v ok (ReplaceMain, f) =
     (if ok then (DropBackup, rename_file Temp Main f) else (RestoreMain, f))"
| "persist_step v ok (RestoreMain, f) =
     (if f Staged \<noteq> None \<and> ok then (Failed, rename_file Staged Main f) else (Failed, f))"
| "persist_step v ok (DropBackup, f) =
     (if f Staged = None then (DropLegacy, f)
      else if f Backup = None then (FinalizeBackup, f)
      else if ok then (FinalizeBackup, f(Backup := None)) else (Failed, f))"
| "persist_step v ok (FinalizeBackup, f) =
     (if ok then (DropLegacy, rename_file Staged Backup f) else (Failed, f))"
| "persist_step v ok (DropLegacy, f) =
     (Saved, if f Legacy \<noteq> None \<and> ok then f(Legacy := None) else f)"
| "persist_step v ok (Saved, f) = (Saved, f)"
| "persist_step v ok (Failed, f) = (Failed, f)"

text \<open>What a run may have reached, each operation succeeding or not.\<close>

inductive persist_run :: "'a \<Rightarrow> phase \<times> 'a files \<Rightarrow> phase \<times> 'a files \<Rightarrow> bool" for v where
  start: "persist_run v s s"
| step: "persist_run v s t \<Longrightarrow> persist_run v s (persist_step v ok t)"

text \<open>The run in which the given operations fail, by the number of the step.\<close>

fun persist_until :: "'a \<Rightarrow> bool list \<Rightarrow> phase \<times> 'a files \<Rightarrow> phase \<times> 'a files" where
  "persist_until v [] s = s"
| "persist_until v (ok # oks) s = persist_until v oks (persist_step v ok s)"

definition persist :: "'a \<Rightarrow> bool list \<Rightarrow> 'a files \<Rightarrow> phase \<times> 'a files" where
  "persist v oks f = persist_until v oks (WriteTemp, f)"

section \<open>The readers\<close>

datatype 'a loaded = Empty | Loaded 'a | Corrupt

fun read_content :: "'a content \<Rightarrow> 'a loaded" where
  "read_content (Payload v) = Loaded v"
| "read_content Torn = Corrupt"

fun read_first :: "slot list \<Rightarrow> 'a files \<Rightarrow> 'a loaded" where
  "read_first [] f = Empty"
| "read_first (s # ss) f = (case f s of Some c \<Rightarrow> read_content c | None \<Rightarrow> read_first ss f)"

definition load_redo_stack :: "'a files \<Rightarrow> 'a loaded" where
  "load_redo_stack f = read_first [Main, Staged, Backup] f"

definition load_epoch_map_raw :: "'a files \<Rightarrow> 'a loaded" where
  "load_epoch_map_raw f = read_first [Main, Staged, Backup, Legacy] f"

text \<open>Hydration reads the file alone.\<close>

definition load_epoch_map :: "'a files \<Rightarrow> 'a loaded" where
  "load_epoch_map f = read_first [Main] f"

text \<open>Amending and compacting also read the file alone and take whatever is wrong for empty.\<close>

definition epochs_or_default :: "'a \<Rightarrow> 'a files \<Rightarrow> 'a" where
  "epochs_or_default no_epochs f = (case load_epoch_map f of Loaded m \<Rightarrow> m | _ \<Rightarrow> no_epochs)"

definition replace_epochs :: "('a \<Rightarrow> 'a) \<Rightarrow> 'a \<Rightarrow> 'a files \<Rightarrow> 'a files" where
  "replace_epochs add no_epochs f =
     rename_file Temp Main (f(Temp \<mapsto> Payload (add (epochs_or_default no_epochs f))))"

lemma rename_file_simps [simp]:
  "rename_file s t f u = (if u = s then None else if u = t then f s else f u)"
  by (simp add: rename_file_def)

section \<open>Invariants of a run\<close>

text \<open>
  What is on disk in each phase of a run that began with \<open>old\<close> in the file: the old payload is
  in the file or staged until the new one has replaced it.
\<close>

fun rotating :: "'a \<Rightarrow> 'a \<Rightarrow> phase \<times> 'a files \<Rightarrow> bool" where
  "rotating v old (WriteTemp, f) = (f Main = Some (Payload old))"
| "rotating v old (ClearStaged, f) = (f Main = Some (Payload old) \<and> f Temp = Some (Payload v))"
| "rotating v old (StageMain, f) =
     (f Main = Some (Payload old) \<and> f Temp = Some (Payload v) \<and> f Staged = None)"
| "rotating v old (ReplaceMain, f) =
     (f Main = None \<and> f Staged = Some (Payload old) \<and> f Temp = Some (Payload v))"
| "rotating v old (RestoreMain, f) = (f Main = None \<and> f Staged = Some (Payload old))"
| "rotating v old (Failed, f) =
     (f Main = Some (Payload old) \<or> f Main = Some (Payload v) \<or>
      f Main = None \<and> f Staged = Some (Payload old))"
| "rotating v old (ph, f) = (f Main = Some (Payload v))"

lemma rotating_step: "rotating v old s \<Longrightarrow> rotating v old (persist_step v ok s)"
  by (induction v ok s rule: persist_step.induct) auto

lemma rotating_run: "persist_run v s t \<Longrightarrow> rotating v old s \<Longrightarrow> rotating v old t"
  by (induction rule: persist_run.induct) (auto intro: rotating_step)

lemma rotating_loads:
  "rotating v old (ph, f) \<Longrightarrow> load_epoch_map_raw f = Loaded old \<or> load_epoch_map_raw f = Loaded v"
  "rotating v old (ph, f) \<Longrightarrow> load_redo_stack f = Loaded old \<or> load_redo_stack f = Loaded v"
  by (cases ph; auto simp: load_epoch_map_raw_def load_redo_stack_def)+

lemma persist_run_trans: "persist_run v t u \<Longrightarrow> persist_run v s t \<Longrightarrow> persist_run v s u"
  by (induction rule: persist_run.induct) (auto intro: persist_run.step)

lemma persist_until_run: "persist_run v s (persist_until v oks s)"
proof (induction oks arbitrary: s)
  case (Cons ok oks)
  have "persist_run v s (persist_step v ok s)" by (rule persist_run.step) (rule persist_run.start)
  with Cons [of "persist_step v ok s"] show ?case by (auto intro: persist_run_trans)
qed (simp add: persist_run.start)

text \<open>Whatever was on disk, a run that ends well leaves the new payload in the file.\<close>

fun replacing :: "'a \<Rightarrow> phase \<times> 'a files \<Rightarrow> bool" where
  "replacing v (WriteTemp, f) = True"
| "replacing v (Failed, f) = True"
| "replacing v (RestoreMain, f) = True"
| "replacing v (ph, f) =
     (if ph \<in> {ClearStaged, StageMain, ReplaceMain} then f Temp = Some (Payload v)
      else f Main = Some (Payload v))"

lemma replacing_step: "replacing v s \<Longrightarrow> replacing v (persist_step v ok s)"
  by (induction v ok s rule: persist_step.induct) auto

lemma replacing_run: "persist_run v s t \<Longrightarrow> replacing v s \<Longrightarrow> replacing v t"
  by (induction rule: persist_run.induct) (auto intro: replacing_step)

text \<open>The crash between staging the old file and moving the new one in.\<close>

lemma staged_only:
  assumes "f Main = Some (Payload old)"
  shows "snd (persist v [True, True, True] f) =
    f(Temp \<mapsto> Payload v, Staged \<mapsto> Payload old, Main := None)"
  using assms by (auto simp: persist_def rename_file_def fun_eq_iff)

section \<open>Properties\<close>

text \<open>
  C20.  The rotation survives one fault: when the file is there, a crash at any point of a save,
  with any of its file operations failing, leaves the old or the new payload for the readers
  that fall back to the backups, and a save that reports success has replaced the file.
\<close>

theorem rotation_crash_safe:
  assumes "f Main = Some (Payload old)" and "persist_run v (WriteTemp, f) (ph, f')"
  shows "(load_epoch_map_raw f' = Loaded old \<or> load_epoch_map_raw f' = Loaded v) \<and>
    (load_redo_stack f' = Loaded old \<or> load_redo_stack f' = Loaded v) \<and>
    (ph = Saved \<longrightarrow> load_epoch_map f' = Loaded v \<and> load_epoch_map_raw f' = Loaded v)"
proof (intro conjI impI)
  have "rotating v old (ph, f')" using rotating_run [OF assms(2)] assms(1) by simp
  then show "load_epoch_map_raw f' = Loaded old \<or> load_epoch_map_raw f' = Loaded v"
    "load_redo_stack f' = Loaded old \<or> load_redo_stack f' = Loaded v"
    by (rule rotating_loads)+
  assume "ph = Saved"
  then have "f' Main = Some (Payload v)" using replacing_run [OF assms(2)] by simp
  then show "load_epoch_map f' = Loaded v" "load_epoch_map_raw f' = Loaded v"
    by (simp_all add: load_epoch_map_def load_epoch_map_raw_def)
qed

definition one_file :: "nat files" where
  "one_file = [Main \<mapsto> Payload 1]"

theorem rotation_crash_safe_witness:
  "load_epoch_map_raw (snd (persist 2 [True, True, True] one_file)) \<in> {Loaded 1, Loaded (2 :: nat)}"
proof -
  obtain ph f' where run: "persist 2 [True, True, True] one_file = (ph, f')" by (cases "persist 2 [True, True, True] one_file")
  have "persist_run 2 (WriteTemp, one_file) (ph, f')"
    using persist_until_run [of 2 "(WriteTemp, one_file)"] by (simp add: run [symmetric] persist_def del: persist_until.simps)
  from rotation_crash_safe [of one_file 1, OF _ this] show ?thesis by (auto simp: run) (simp_all add: one_file_def)
qed

text \<open>
  C21.  Hydration does not fall back: a crash of a save between staging the old file and moving
  the new one in leaves no epoch map for hydration, which reads the empty map, while the old one
  lies staged; and the next command that amends or compacts then writes a file that has lost
  every earlier redirection, which from there on also hides the staged one from the readers that
  fall back.
\<close>

theorem crash_hides_epochs:
  assumes "f Main = Some (Payload old)"
    and "snd (persist v [True, True, True] f) = f'"
  shows "load_epoch_map_raw f' = Loaded old \<and> load_epoch_map f' = Empty \<and>
    load_epoch_map_raw (replace_epochs add no_epochs f') = Loaded (add no_epochs) \<and>
    load_epoch_map (replace_epochs add no_epochs f') = Loaded (add no_epochs)"
  using assms(2) by (simp add: staged_only [of f old v, OF assms(1)] load_epoch_map_raw_def load_epoch_map_def
      replace_epochs_def epochs_or_default_def flip: assms(2))

theorem crash_hides_epochs_witness:
  "load_epoch_map (snd (persist 2 [True, True, True] one_file)) = Empty \<and>
   load_epoch_map_raw (snd (persist 2 [True, True, True] one_file)) = Loaded 1"
  using crash_hides_epochs [of one_file 1, OF _ refl, of 2 id 0] by (simp add: one_file_def)

text \<open>
  A second fault loses the payload: after a crash that left it staged only, the next save
  deletes the staged copy before the new one is in place, and a crash there leaves the readers
  the backup before it, or nothing at all.
\<close>

theorem second_crash_loses_current:
  assumes "f Main = Some (Payload old)"
    and "snd (persist v [True, True, True] f) = f1" and "snd (persist w [True, True] f1) = f2"
  shows "load_epoch_map_raw f1 = Loaded old \<and>
    load_epoch_map_raw f2 = read_first [Backup, Legacy] f \<and>
    load_redo_stack f2 = read_first [Backup] f"
proof -
  have f1: "f1 Main = None" "f1 Staged = Some (Payload old)" "f1 Backup = f Backup" "f1 Legacy = f Legacy"
    using staged_only [of f old v] assms by auto
  then have "f2 = f1(Temp \<mapsto> Payload w, Staged := None)"
    using assms(3) by (auto simp: persist_def)
  with f1 show ?thesis by (simp add: load_epoch_map_raw_def load_redo_stack_def split: option.split)
qed

theorem second_crash_loses_current_witness:
  "load_redo_stack (snd (persist 3 [True, True] (snd (persist 2 [True, True, True] one_file)))) = Empty"
  using second_crash_loses_current [of one_file 1, OF _ refl refl, of 2 3]
  by (simp add: one_file_def)

end
