(* ===== verification/WorkTree.thy ===== *)
theory WorkTree
  imports Command Compact "HOL-Library.AList" "HOL-Library.Sublist"
begin

text \<open>
  The file tree of a working directory (\<^verbatim>\<open>arc-cli/src/repo/core.rs\<close>, \<^verbatim>\<open>snapshot.rs\<close>): the walks
  that collect files and empty directories, the delta of the tree against a state, the test
  whether the tree is clean, the projection of a state into the tree, and switching views, which
  composes them.  The tree is a datatype of named entries; the ignore file, the source
  plugin (\<^verbatim>\<open>arc-lang\<close>), text decoding and bincode are the fields of \<open>project\<close>.
\<close>

section \<open>The tree\<close>

datatype tree = File bytes | Dir "(string \<times> tree) list"

type_synonym dir = "(string \<times> tree) list"
type_synonym fs_path = "string list"

fun find_node :: "dir \<Rightarrow> fs_path \<Rightarrow> tree option" where
  "find_node es [] = Some (Dir es)"
| "find_node es (n # p) =
     (case map_of es n of
        None \<Rightarrow> None
      | Some (File b) \<Rightarrow> if p = [] then Some (File b) else None
      | Some (Dir sub) \<Rightarrow> find_node sub p)"

definition read_file :: "dir \<Rightarrow> fs_path \<Rightarrow> bytes option" where
  "read_file es p = (case find_node es p of Some (File b) \<Rightarrow> Some b | _ \<Rightarrow> None)"

definition path_exists :: "dir \<Rightarrow> fs_path \<Rightarrow> bool" where
  "path_exists es p \<longleftrightarrow> find_node es p \<noteq> None"

text \<open>
  Writing a file with the directories above it; \<^const>\<open>None\<close> where a file is in the place of a
  directory or the other way round.
\<close>

fun put_file :: "dir \<Rightarrow> fs_path \<Rightarrow> bytes \<Rightarrow> dir option" where
  "put_file es [] b = None"
| "put_file es [n] b =
     (case map_of es n of Some (Dir sub) \<Rightarrow> None | _ \<Rightarrow> Some (AList.update n (File b) es))"
| "put_file es (n # m # p) b =
     (case map_of es n of
        Some (File c) \<Rightarrow> None
      | Some (Dir sub) \<Rightarrow> map_option (\<lambda>sub'. AList.update n (Dir sub') es) (put_file sub (m # p) b)
      | None \<Rightarrow> map_option (\<lambda>sub'. AList.update n (Dir sub') es) (put_file [] (m # p) b))"

fun make_dirs :: "dir \<Rightarrow> fs_path \<Rightarrow> dir option" where
  "make_dirs es [] = Some es"
| "make_dirs es (n # p) =
     (case map_of es n of
        Some (File c) \<Rightarrow> None
      | Some (Dir sub) \<Rightarrow> map_option (\<lambda>sub'. AList.update n (Dir sub') es) (make_dirs sub p)
      | None \<Rightarrow> map_option (\<lambda>sub'. AList.update n (Dir sub') es) (make_dirs [] p))"

fun remove_file :: "dir \<Rightarrow> fs_path \<Rightarrow> dir" where
  "remove_file es [] = es"
| "remove_file es (n # p) =
     (case map_of es n of
        None \<Rightarrow> es
      | Some (File c) \<Rightarrow> if p = [] then AList.delete n es else es
      | Some (Dir sub) \<Rightarrow> if p = [] then es else AList.update n (Dir (remove_file sub p)) es)"

lemma read_file_Nil [simp]: "read_file es [] = None"
  by (simp add: read_file_def)

lemma read_file_Cons:
  "read_file es (n # p) =
     (case map_of es n of
        None \<Rightarrow> None
      | Some (File b) \<Rightarrow> if p = [] then Some b else None
      | Some (Dir sub) \<Rightarrow> read_file sub p)"
  by (auto simp: read_file_def split: option.split tree.split)

lemma map_of_updated [simp]: "map_of (AList.update k v es) = (map_of es)(k \<mapsto> v)"
  by (rule AList.update_conv')

lemma map_of_deleted [simp]: "map_of (AList.delete k es) = (map_of es)(k := None)"
  by (rule AList.delete_conv')

lemma read_file_empty [simp]: "read_file [] q = None"
  by (cases q) (simp_all add: read_file_Cons)

lemma read_file_update:
  "read_file (AList.update n t es) q =
     (case q of
        [] \<Rightarrow> None
      | m # r \<Rightarrow> if m \<noteq> n then read_file es q
                  else (case t of File b \<Rightarrow> if r = [] then Some b else None | Dir sub \<Rightarrow> read_file sub r))"
  by (cases q) (auto simp: read_file_Cons split: tree.split)

lemma put_file_Cons_Some:
  "put_file es (n # m # p) b = Some es' \<longleftrightarrow>
     (\<exists>sub sub'. put_file sub (m # p) b = Some sub' \<and> es' = AList.update n (Dir sub') es \<and>
        (map_of es n = Some (Dir sub) \<or> map_of es n = None \<and> sub = []))"
  by (auto split: option.splits tree.splits)

lemma make_dirs_Cons_Some:
  "make_dirs es (n # p) = Some es' \<longleftrightarrow>
     (\<exists>sub sub'. make_dirs sub p = Some sub' \<and> es' = AList.update n (Dir sub') es \<and>
        (map_of es n = Some (Dir sub) \<or> map_of es n = None \<and> sub = []))"
  by (auto split: option.splits tree.splits)

lemma read_put_file:
  "put_file es p b = Some es' \<Longrightarrow> read_file es' q = (if q = p then Some b else read_file es q)"
proof (induction es p b arbitrary: es' q rule: put_file.induct)
  case (2 es n b)
  then show ?case
    by (cases q; cases "map_of es n") (auto simp: read_file_update read_file_Cons split: list.split tree.splits)
next
  case (3 es n m p b)
  from 3(3) obtain sub sub' where s: "put_file sub (m # p) b = Some sub'" "es' = AList.update n (Dir sub') es"
      "map_of es n = Some (Dir sub) \<or> map_of es n = None \<and> sub = []"
    unfolding put_file_Cons_Some by blast
  then have "read_file sub' r = (if r = m # p then Some b else read_file sub r)" for r
    using 3(1,2) by auto
  with s show ?case by (auto simp: read_file_update read_file_Cons split: list.split)
qed simp

lemma read_make_dirs: "make_dirs es p = Some es' \<Longrightarrow> read_file es' q = read_file es q"
proof (induction es p arbitrary: es' q rule: make_dirs.induct)
  case (2 es n p)
  from 2(3) obtain sub sub' where s: "make_dirs sub p = Some sub'" "es' = AList.update n (Dir sub') es"
      "map_of es n = Some (Dir sub) \<or> map_of es n = None \<and> sub = []"
    unfolding make_dirs_Cons_Some by blast
  then have "read_file sub' r = read_file sub r" for r
    using 2(1,2) by auto
  with s show ?case by (auto simp: read_file_update read_file_Cons split: list.split)
qed simp

lemma read_remove_file: "p \<noteq> [] \<Longrightarrow> read_file (remove_file es p) q = (if q = p then None else read_file es q)"
proof (induction es p arbitrary: q rule: remove_file.induct)
  case (2 es n p)
  show ?case
  proof (cases "map_of es n")
    case None
    then show ?thesis by (cases q) (auto simp: read_file_Cons)
  next
    case (Some t)
    then show ?thesis
    proof (cases t)
      case (File c)
      with Some show ?thesis by (cases q) (auto simp: read_file_Cons)
    next
      case (Dir sub)
      with Some 2 show ?thesis by (cases q) (auto simp: read_file_update read_file_Cons)
    qed
  qed
qed simp

text \<open>What is on the tree, files and directories.\<close>

lemma path_exists_Nil [simp]: "path_exists es []"
  by (simp add: path_exists_def)

lemma path_exists_Cons:
  "path_exists es (n # p) =
     (case map_of es n of
        None \<Rightarrow> False
      | Some (File b) \<Rightarrow> p = []
      | Some (Dir sub) \<Rightarrow> path_exists sub p)"
  by (auto simp: path_exists_def split: option.split tree.split)

lemma path_exists_empty [simp]: "path_exists [] q \<longleftrightarrow> q = []"
  by (cases q) (simp_all add: path_exists_Cons)

lemma path_exists_update:
  "path_exists (AList.update n t es) q \<longleftrightarrow>
     (case q of
        [] \<Rightarrow> True
      | m # r \<Rightarrow> if m \<noteq> n then path_exists es q
                  else (case t of File b \<Rightarrow> r = [] | Dir sub \<Rightarrow> path_exists sub r))"
  by (cases q) (auto simp: path_exists_Cons split: tree.split)

lemma path_exists_put_file:
  "put_file es p b = Some es' \<Longrightarrow> path_exists es' q \<longleftrightarrow> path_exists es q \<or> prefix q p"
proof (induction es p b arbitrary: es' q rule: put_file.induct)
  case (2 es n b)
  then show ?case
    by (cases q) (auto simp: path_exists_update path_exists_Cons split: option.splits tree.splits if_splits)
next
  case (3 es n m p b)
  from 3(3) obtain sub sub' where s: "put_file sub (m # p) b = Some sub'" "es' = AList.update n (Dir sub') es"
      "map_of es n = Some (Dir sub) \<or> map_of es n = None \<and> sub = []"
    unfolding put_file_Cons_Some by blast
  then have sub: "path_exists sub' r \<longleftrightarrow> path_exists sub r \<or> prefix r (m # p)" for r
    using 3(1,2) by auto
  show ?case
  proof (cases q)
    case (Cons a r)
    have "path_exists es (n # r) \<or> prefix r (m # p) \<longleftrightarrow> path_exists sub r \<or> prefix r (m # p)"
      using s(3) by (auto simp: path_exists_Cons)
    then show ?thesis using sub [of r] by (cases "a = n") (simp_all add: Cons s(2) path_exists_update)
  qed simp
qed simp

lemma path_exists_make_dirs:
  "make_dirs es p = Some es' \<Longrightarrow> path_exists es' q \<longleftrightarrow> path_exists es q \<or> prefix q p"
proof (induction es p arbitrary: es' q rule: make_dirs.induct)
  case (2 es n p)
  from 2(3) obtain sub sub' where s: "make_dirs sub p = Some sub'" "es' = AList.update n (Dir sub') es"
      "map_of es n = Some (Dir sub) \<or> map_of es n = None \<and> sub = []"
    unfolding make_dirs_Cons_Some by blast
  then have sub: "path_exists sub' r \<longleftrightarrow> path_exists sub r \<or> prefix r p" for r
    using 2(1,2) by auto
  show ?case
  proof (cases q)
    case (Cons a r)
    have "path_exists es (n # r) \<or> prefix r p \<longleftrightarrow> path_exists sub r \<or> prefix r p"
      using s(3) by (auto simp: path_exists_Cons)
    then show ?thesis using sub [of r] by (cases "a = n") (simp_all add: Cons s(2) path_exists_update)
  qed simp
qed (auto simp: path_exists_def)

lemma path_exists_file: "read_file es p \<noteq> None \<Longrightarrow> path_exists es p"
  by (auto simp: read_file_def path_exists_def split: option.splits)

section \<open>Names and ignored files\<close>

definition path_string :: "fs_path \<Rightarrow> string" where
  "path_string p = join ''/'' p"

fun split_on :: "char \<Rightarrow> string \<Rightarrow> string list" where
  "split_on d [] = [[]]"
| "split_on d (c # cs) =
     (if c = d then [] # split_on d cs
      else (case split_on d cs of [] \<Rightarrow> [[c]] | s # ss \<Rightarrow> (c # s) # ss))"

definition path_components :: "string \<Rightarrow> fs_path" where
  "path_components s = filter (\<lambda>c. c \<noteq> [] \<and> c \<noteq> ''.'') (split_on (CHR ''/'') s)"

definition hidden :: "string \<Rightarrow> bool" where
  "hidden name = (name \<noteq> [] \<and> hd name = CHR ''.'')"

text \<open>\<^verbatim>\<open>Path::extension\<close>: what follows the last dot, unless the name begins with it.\<close>

definition extension :: "string \<Rightarrow> string option" where
  "extension name =
     (let to_dot = dropWhile (\<lambda>c. c \<noteq> CHR ''.'') (rev name)
      in if length to_dot \<le> 1 then None
         else Some (rev (takeWhile (\<lambda>c. c \<noteq> CHR ''.'') (rev name))))"

definition contains_hard_ignored_dir :: "fs_path \<Rightarrow> bool" where
  "contains_hard_ignored_dir p =
     list_ex (\<lambda>c. c \<in> {''target'', ''node_modules'', ''.git'', ''dist'', ''build''}) p"

definition source_extensions :: "string list" where
  "source_extensions = [''rs'', ''js'', ''ts'', ''py'', ''go'', ''c'', ''cpp'', ''md'', ''json'', ''toml'',
     ''yaml'', ''yml'']"

definition is_implicitly_ignored :: "bool \<Rightarrow> fs_path \<Rightarrow> bool" where
  "is_implicitly_ignored track_all p =
     (if track_all then False
      else if contains_hard_ignored_dir p then True
      else if p = [] then True
      else if last p \<in> {''.env'', ''id_rsa''} then True
      else (let ext = map_option (List.map ascii_lower) (extension (last p))
            in if ext \<in> {Some ''pem'', Some ''key''} then True
               else (case ext of None \<Rightarrow> True | Some e \<Rightarrow> e \<notin> set source_extensions)))"

section \<open>Walking the tree\<close>

text \<open>
  What the tree code takes from outside: the ignore file, the sparse cone, the environment
  switch, the plugin's unparser and differ (with the blobs the differ stores), UTF-8 decoding,
  bincode, the iteration order of hash maps and sets and the order in which threads finish.
\<close>

record project =
  pj_ignored :: "string \<Rightarrow> bool \<Rightarrow> bool"
  pj_cone :: sparse_matcher
  pj_track_all :: bool
  pj_unparse :: "materialized_state \<Rightarrow> string \<Rightarrow> string option"
  pj_diff :: "string \<Rightarrow> string \<Rightarrow> string + atom list \<times> (blake3_hash \<times> bytes) list"
  pj_text :: "bytes \<Rightarrow> string option"
  pj_text_lossy :: "bytes \<Rightarrow> string"
  pj_decode_atom :: "bytes \<Rightarrow> atom option"
  pj_keys :: "materialized_state \<Rightarrow> node_path list"
  pj_set_order :: "string fset \<Rightarrow> string list"
  pj_arrival :: "atom list \<Rightarrow> atom list"

definition arrival_ok :: "'x project_scheme \<Rightarrow> bool" where
  "arrival_ok pj \<longleftrightarrow> (\<forall>as. set (pj_arrival pj as) = set as)"

definition project_ok :: "'x project_scheme \<Rightarrow> materialized_state \<Rightarrow> bool" where
  "project_ok pj st \<longleftrightarrow> set (pj_keys pj st) = dom st \<and> (\<forall>S. set (pj_set_order pj S) = fset S) \<and>
     arrival_ok pj"

text \<open>Whether a walk passes an entry: not hidden, not ignored, no ignored directory.\<close>

definition walk_enters :: "'x project_scheme \<Rightarrow> fs_path \<Rightarrow> bool \<Rightarrow> bool" where
  "walk_enters pj p is_dir =
     (\<not> hidden (last p) \<and> \<not> pj_ignored pj (path_string p) is_dir \<and>
      \<not> (is_dir \<and> contains_hard_ignored_dir p))"

fun collect_all_recursive :: "'x project_scheme \<Rightarrow> fs_path \<Rightarrow> dir \<Rightarrow> fs_path list" where
  "collect_all_recursive pj base [] = []"
| "collect_all_recursive pj base ((n, File b) # es) =
     (if walk_enters pj (base @ [n]) False then [base @ [n]] else []) @ collect_all_recursive pj base es"
| "collect_all_recursive pj base ((n, Dir sub) # es) =
     (if walk_enters pj (base @ [n]) True then collect_all_recursive pj (base @ [n]) sub else []) @
     collect_all_recursive pj base es"

fun collect_rs_recursive :: "'x project_scheme \<Rightarrow> fs_path \<Rightarrow> dir \<Rightarrow> fs_path list" where
  "collect_rs_recursive pj base [] = []"
| "collect_rs_recursive pj base ((n, File b) # es) =
     (if walk_enters pj (base @ [n]) False \<and> \<not> is_implicitly_ignored (pj_track_all pj) (base @ [n]) \<and>
         extension n = Some ''rs''
      then [base @ [n]] else []) @ collect_rs_recursive pj base es"
| "collect_rs_recursive pj base ((n, Dir sub) # es) =
     (if walk_enters pj (base @ [n]) True then collect_rs_recursive pj (base @ [n]) sub else []) @
     collect_rs_recursive pj base es"

fun is_sub_dir :: "string \<times> tree \<Rightarrow> bool" where
  "is_sub_dir (n, Dir sub) = (\<not> hidden n)"
| "is_sub_dir (n, File b) = False"

fun is_regular :: "string \<times> tree \<Rightarrow> bool" where
  "is_regular (n, File b) = True"
| "is_regular (n, Dir sub) = False"

text \<open>The directories of a list of entries, each either empty or walked.\<close>

fun collect_empty_dirs_recursive :: "'x project_scheme \<Rightarrow> fs_path \<Rightarrow> dir \<Rightarrow> fs_path list" where
  "collect_empty_dirs_recursive pj base [] = []"
| "collect_empty_dirs_recursive pj base ((n, File b) # es) = collect_empty_dirs_recursive pj base es"
| "collect_empty_dirs_recursive pj base ((n, Dir sub) # es) =
     (if \<not> walk_enters pj (base @ [n]) True then []
      else if \<not> list_ex is_sub_dir sub \<and> \<not> list_ex is_regular sub then [base @ [n]]
      else collect_empty_dirs_recursive pj (base @ [n]) sub) @
     collect_empty_dirs_recursive pj base es"

definition collect_rs_files :: "'x project_scheme \<Rightarrow> dir \<Rightarrow> fs_path list" where
  "collect_rs_files pj es = sort_key path_string (collect_rs_recursive pj [] es)"

definition collect_all_files :: "'x project_scheme \<Rightarrow> dir \<Rightarrow> fs_path list" where
  "collect_all_files pj es = sort_key path_string (collect_all_recursive pj [] es)"

definition collect_empty_dirs :: "'x project_scheme \<Rightarrow> dir \<Rightarrow> fs_path list" where
  "collect_empty_dirs pj es = sort_key path_string (collect_empty_dirs_recursive pj [] es)"


section \<open>The delta of the tree\<close>

datatype tree_error =
    NotText fs_path
  | DiffFailed fs_path string
  | UnparseFailed string
  | MissingBlob string blake3_hash
  | CannotWrite fs_path
  | ManyConflicts string
  | MissingSide string
  | DirtyTree

definition node_paths_of :: "'x project_scheme \<Rightarrow> materialized_state \<Rightarrow> string \<Rightarrow> node_path list" where
  "node_paths_of pj st f = filter (\<lambda>k. length k \<ge> 2 \<and> k ! 0 = ''file'' \<and> k ! 1 = f) (pj_keys pj st)"

definition extract_filepaths_from_state :: "'x project_scheme \<Rightarrow> materialized_state \<Rightarrow> string list" where
  "extract_filepaths_from_state pj st =
     pj_set_order pj (fset_of_list
       (List.map (\<lambda>k. k ! 1) (filter (\<lambda>k. length k \<ge> 2 \<and> k ! 0 = ''file'') (pj_keys pj st))))"

definition state_dirs :: "'x project_scheme \<Rightarrow> materialized_state \<Rightarrow> string list" where
  "state_dirs pj st =
     List.map (\<lambda>k. k ! 1)
       (filter (\<lambda>k. length k = 2 \<and> k ! 0 = ''dir'' \<and> matches_file_path (pj_cone pj) (k ! 1)) (pj_keys pj st))"

fun prefix_atom_path :: "string \<Rightarrow> atom \<Rightarrow> atom" where
  "prefix_atom_path f (Insert at h) = Insert (''file'' # f # at) h"
| "prefix_atom_path f (Delete at h) = Delete (''file'' # f # at) h"
| "prefix_atom_path f (Move s t) = Move (''file'' # f # s) (''file'' # f # t)"
| "prefix_atom_path f (SemanticsPreserving at d) = SemanticsPreserving (''file'' # f # at) d"
| "prefix_atom_path f (Directory p) = Directory (''file'' # f # p)"
| "prefix_atom_path f (Blob p h n) = Blob (if p = [] then f else f @ ''/'' @ p) h n"
| "prefix_atom_path f (Mount p c) = Mount (''file'' # f # p) c"
| "prefix_atom_path f (Conflict bases sides at) = Conflict bases sides (''file'' # f # at)"

definition unparse_or_default :: "'x project_scheme \<Rightarrow> materialized_state \<Rightarrow> string \<Rightarrow> string" where
  "unparse_or_default pj st f = (case pj_unparse pj st f of None \<Rightarrow> [] | Some source \<Rightarrow> source)"

text \<open>Reading a file as text; a file of the walk can only fail to be text.\<close>

definition read_text :: "'x project_scheme \<Rightarrow> dir \<Rightarrow> fs_path \<Rightarrow> tree_error + string" where
  "read_text pj es p =
     (case Option.bind (read_file es p) (pj_text pj) of None \<Rightarrow> Inl (NotText p) | Some s \<Rightarrow> Inr s)"

definition rs_delta ::
  "'x project_scheme \<Rightarrow> dir \<Rightarrow> materialized_state \<Rightarrow> fs_path \<Rightarrow>
   tree_error + atom list \<times> (blake3_hash \<times> bytes) list" where
  "rs_delta pj es st p =
     (if \<not> matches_file_path (pj_cone pj) (path_string p) then Inr ([], [])
      else bind_result (read_text pj es p) (\<lambda>new_src.
        let old_src = unparse_or_default pj st (path_string p)
        in if old_src = new_src then Inr ([], [])
           else (case pj_diff pj old_src new_src of
                   Inl e \<Rightarrow> Inl (DiffFailed p e)
                 | Inr (atoms, blobs) \<Rightarrow> Inr (List.map (prefix_atom_path (path_string p)) atoms, blobs))))"

definition is_tracked :: "materialized_state \<Rightarrow> string \<Rightarrow> bool" where
  "is_tracked st f = (st [''file'', f] \<noteq> None)"

definition blob_candidates :: "'x project_scheme \<Rightarrow> dir \<Rightarrow> materialized_state \<Rightarrow> fs_path list" where
  "blob_candidates pj es st =
     filter (\<lambda>p. matches_file_path (pj_cone pj) (path_string p) \<and> \<not> ends_with (path_string p) ''.rs'' \<and>
         (is_tracked st (path_string p) \<or> \<not> is_implicitly_ignored (pj_track_all pj) p))
       (collect_all_files pj es)"

definition blob_delta ::
  "('sk, 'y) crypto_scheme \<Rightarrow> dir \<Rightarrow> materialized_state \<Rightarrow> fs_path \<Rightarrow> atom option" where
  "blob_delta K es st p =
     (case read_file es p of
        None \<Rightarrow> None
      | Some b \<Rightarrow>
          (let h = blake3 K b
           in case st [''file'', path_string p] of
                Some old \<Rightarrow> if is_blob_token old \<and> take 32 (drop 13 old) = h then None
                            else Some (Blob (path_string p) h (word_of_nat (length b)))
              | None \<Rightarrow> Some (Blob (path_string p) h (word_of_nat (length b)))))"

definition deleted_keys :: "'x project_scheme \<Rightarrow> dir \<Rightarrow> materialized_state \<Rightarrow> node_path list" where
  "deleted_keys pj es st =
     concat (List.map (node_paths_of pj st)
       (filter (\<lambda>f. matches_file_path (pj_cone pj) f \<and> \<not> path_exists es (path_components f))
         (extract_filepaths_from_state pj st)))"

definition new_dirs :: "'x project_scheme \<Rightarrow> dir \<Rightarrow> materialized_state \<Rightarrow> string list" where
  "new_dirs pj es st =
     filter (\<lambda>d. matches_file_path (pj_cone pj) d \<and> d \<notin> set (state_dirs pj st))
       (List.map path_string (collect_empty_dirs pj es))"

definition removed_dirs :: "'x project_scheme \<Rightarrow> dir \<Rightarrow> materialized_state \<Rightarrow> string list" where
  "removed_dirs pj es st =
     filter (\<lambda>d. \<not> path_exists es (path_components d)) (pj_set_order pj (fset_of_list (state_dirs pj st)))"

definition delete_atom :: "('sk, 'y) crypto_scheme \<Rightarrow> materialized_state \<Rightarrow> node_path \<Rightarrow> atom" where
  "delete_atom K st k = Delete k (blake3 K (extract_content_at_path st k))"

text \<open>The result carries the blobs that are written on the way.\<close>

definition compute_working_directory_delta ::
  "('sk, 'y) crypto_scheme \<Rightarrow> 'x project_scheme \<Rightarrow> dir \<Rightarrow> materialized_state \<Rightarrow>
   tree_error + atom list \<times> (blake3_hash \<times> bytes) list" where
  "compute_working_directory_delta K pj es st =
     map_result (\<lambda>sources.
       let gone = deleted_keys pj es st; gone_dirs = List.map (\<lambda>d. [''dir'', d]) (removed_dirs pj es st)
       in (concat (List.map fst sources) @
           pj_arrival pj (List.map_filter (blob_delta K es st) (blob_candidates pj es st)) @
           List.map (delete_atom K st) gone @
           List.map (\<lambda>d. Directory [''dir'', d]) (new_dirs pj es st) @
           List.map (delete_atom K st) gone_dirs,
           concat (List.map snd sources) @
           List.map (\<lambda>k. (blake3 K (extract_content_at_path st k), extract_content_at_path st k)) (gone @ gone_dirs)))
       (traverse (rs_delta pj es st) (collect_rs_files pj es))"

text \<open>The tree as the recording commands take it: its delta, and the bytes of its files.\<close>

definition working_delta :: "('sk, 'y) crypto_scheme \<Rightarrow> 'x project_scheme \<Rightarrow> dir \<Rightarrow> delta" where
  "working_delta K pj es st =
     (case compute_working_directory_delta K pj es st of
        Inl e \<Rightarrow> Inl (UnreadableFile ''working directory'')
      | Inr d \<Rightarrow> Inr d)"

definition working_files :: "dir \<Rightarrow> string \<Rightarrow> bytes option" where
  "working_files es f = read_file es (path_components f)"

section \<open>Clean trees\<close>

text \<open>The differ may store blobs here too; they are of no consequence to the test.\<close>

definition rs_clean :: "'x project_scheme \<Rightarrow> dir \<Rightarrow> materialized_state \<Rightarrow> fs_path \<Rightarrow> tree_error + unit" where
  "rs_clean pj es st p =
     bind_result (read_text pj es p) (\<lambda>new_src.
       let old_src = unparse_or_default pj st (path_string p)
       in if old_src = new_src then Inr ()
          else if old_src = [] then Inl DirtyTree
          else (case pj_diff pj old_src new_src of
                  Inl e \<Rightarrow> Inl (DiffFailed p e)
                | Inr (atoms, blobs) \<Rightarrow> if atoms = [] then Inr () else Inl DirtyTree))"

definition check_working_dir_clean :: "'x project_scheme \<Rightarrow> dir \<Rightarrow> materialized_state \<Rightarrow> tree_error + unit" where
  "check_working_dir_clean pj es st =
     bind_result (traverse (rs_clean pj es st) (collect_rs_files pj es)) (\<lambda>_.
       if list_ex (\<lambda>f. \<not> path_exists es (path_components f)) (extract_filepaths_from_state pj st)
       then Inl DirtyTree else Inr ())"

section \<open>Projecting a state into the tree\<close>

definition decode_conflict_projection ::
  "'x project_scheme \<Rightarrow> bytes \<Rightarrow> (blake3_hash list \<times> blake3_hash list) option" where
  "decode_conflict_projection pj content =
     (if take 17 content \<noteq> str_bytes ''ARC_CONFLICT_REF:'' then None
      else (case pj_decode_atom pj (drop 17 content) of
              Some (Conflict bases sides at) \<Rightarrow> Some (bases, sides)
            | _ \<Rightarrow> None))"

definition conflict_projection_for_file ::
  "'x project_scheme \<Rightarrow> materialized_state \<Rightarrow> string \<Rightarrow> tree_error + (blake3_hash list \<times> blake3_hash list) option" where
  "conflict_projection_for_file pj st f =
     (case List.map_filter (\<lambda>k. decode_conflict_projection pj (extract_content_at_path st k)) (node_paths_of pj st f) of
        [] \<Rightarrow> Inr None
      | [c] \<Rightarrow> Inr (Some c)
      | _ \<Rightarrow> Inl (ManyConflicts f))"

type_synonym blob_reader = "blake3_hash \<Rightarrow> bytes option"

definition read_blob_text :: "'x project_scheme \<Rightarrow> blob_reader \<Rightarrow> string \<Rightarrow> blake3_hash \<Rightarrow> tree_error + string" where
  "read_blob_text pj blobs f h =
     (case blobs h of None \<Rightarrow> Inl (MissingBlob f h) | Some b \<Rightarrow> Inr (pj_text_lossy pj b))"

definition nl :: string where "nl = [CHR 0x0A]"

definition render_conflict_markers ::
  "'x project_scheme \<Rightarrow> blob_reader \<Rightarrow> string \<Rightarrow> blake3_hash list \<Rightarrow> blake3_hash list \<Rightarrow> tree_error + string" where
  "render_conflict_markers pj blobs f bases sides =
     bind_result (case bases of [] \<Rightarrow> Inr [] | h # hs \<Rightarrow> read_blob_text pj blobs f h) (\<lambda>_.
       case sides of
         a # b # rest \<Rightarrow>
           bind_result (read_blob_text pj blobs f a) (\<lambda>side_a.
           bind_result (read_blob_text pj blobs f b) (\<lambda>side_b.
             Inr (''<<<<<<< side_a'' @ nl @ side_a @ nl @ ''======='' @ nl @ side_b @ nl @ ''>>>>>>> side_b'' @ nl)))
       | _ \<Rightarrow> Inl (MissingSide f))"

text \<open>A step on the tree fails or not, and leaves a tree in either case.\<close>

type_synonym tree_step = "dir \<Rightarrow> tree_error option \<times> dir"

definition tree_then :: "tree_step \<Rightarrow> tree_step \<Rightarrow> tree_step" where
  "tree_then s t es = (case s es of (Some e, es') \<Rightarrow> (Some e, es') | (None, es') \<Rightarrow> t es')"

definition tree_fail :: "tree_error \<Rightarrow> tree_step" where
  "tree_fail e es = (Some e, es)"

definition tree_skip :: tree_step where
  "tree_skip es = (None, es)"

definition write_at :: "fs_path \<Rightarrow> bytes \<Rightarrow> tree_step" where
  "write_at p b es = (case put_file es p b of None \<Rightarrow> (Some (CannotWrite p), es) | Some es' \<Rightarrow> (None, es'))"

definition create_dir_all :: "fs_path \<Rightarrow> tree_step" where
  "create_dir_all p es = (case make_dirs es p of None \<Rightarrow> (Some (CannotWrite p), es) | Some es' \<Rightarrow> (None, es'))"

text \<open>The content of a file of the state, by its kind; the directory above it exists.\<close>

definition write_content :: "'x project_scheme \<Rightarrow> blob_reader \<Rightarrow> materialized_state \<Rightarrow> string \<Rightarrow> tree_step" where
  "write_content pj blobs st f =
     (let p = path_components f in
      if ends_with f ''.rs''
      then (case pj_unparse pj st f of
              None \<Rightarrow> tree_fail (UnparseFailed f)
            | Some source \<Rightarrow> if source = [] then tree_skip else write_at p (str_bytes source))
      else (case st [''file'', f] of
              None \<Rightarrow> tree_skip
            | Some content \<Rightarrow>
                if take 10 content = str_bytes ''ARC_MOUNT:''
                then tree_then (create_dir_all p)
                  (write_at (p @ [''.arc-mount''])
                    (case pj_text pj content of None \<Rightarrow> [] | Some text \<Rightarrow> str_bytes (drop 10 text)))
                else if is_blob_token content
                then (case blobs (take 32 (drop 13 content)) of
                        None \<Rightarrow> tree_fail (MissingBlob f (take 32 (drop 13 content)))
                      | Some b \<Rightarrow> write_at p b)
                else tree_skip))"

definition write_filepath :: "'x project_scheme \<Rightarrow> blob_reader \<Rightarrow> materialized_state \<Rightarrow> string \<Rightarrow> tree_step" where
  "write_filepath pj blobs st f =
     (if \<not> matches_file_path (pj_cone pj) f then tree_skip
      else tree_then (create_dir_all (butlast (path_components f)))
        (case conflict_projection_for_file pj st f of
           Inl e \<Rightarrow> tree_fail e
         | Inr (Some (bases, sides)) \<Rightarrow>
             (case render_conflict_markers pj blobs f bases sides of
                Inl e \<Rightarrow> tree_fail e
              | Inr text \<Rightarrow> write_at (path_components f) (str_bytes text))
         | Inr None \<Rightarrow> write_content pj blobs st f))"

fun tree_steps :: "('a \<Rightarrow> tree_step) \<Rightarrow> 'a list \<Rightarrow> tree_step" where
  "tree_steps f [] = tree_skip"
| "tree_steps f (x # xs) = tree_then (f x) (tree_steps f xs)"

definition remove_source :: "'x project_scheme \<Rightarrow> fs_path \<Rightarrow> tree_step" where
  "remove_source pj p es =
     (None, if matches_file_path (pj_cone pj) (path_string p) then remove_file es p else es)"

definition write_state_to_working_dir :: "'x project_scheme \<Rightarrow> blob_reader \<Rightarrow> materialized_state \<Rightarrow> tree_step" where
  "write_state_to_working_dir pj blobs st es =
     tree_then (tree_steps (remove_source pj) (collect_rs_files pj es))
       (tree_then (tree_steps (write_filepath pj blobs st) (extract_filepaths_from_state pj st))
         (tree_steps (\<lambda>d. create_dir_all (path_components d)) (state_dirs pj st))) es"

section \<open>Switching views\<close>

definition switch_from ::
  "('sk, 'y) crypto_scheme \<Rightarrow> 'z replay_env_scheme \<Rightarrow> string \<Rightarrow> string \<Rightarrow>
   (blake3_hash fset \<times> materialized_state) command" where
  "switch_from K env name target =
     seq (load_view target) (\<lambda>heads. andthen (hydrate_view name)
       (seq (state_of_view K env name) (\<lambda>st. ret (heads, st))))"

definition switch_to ::
  "('sk, 'y) crypto_scheme \<Rightarrow> 'z replay_env_scheme \<Rightarrow> string \<Rightarrow> blake3_hash fset \<Rightarrow> materialized_state command" where
  "switch_to K env target heads =
     andthen (hydrate_view target) (if heads = {||} then ret Map.empty else state_of_view K env target)"

text \<open>
  The command with the tree and the name of the current view, which it sets on success.
\<close>

definition switch_view ::
  "('sk, 'y) crypto_scheme \<Rightarrow> 'z replay_env_scheme \<Rightarrow> 'x project_scheme \<Rightarrow> string \<Rightarrow> string \<Rightarrow>
   workspace \<Rightarrow> dir \<Rightarrow> (((command_error + tree_error) + unit) \<times> workspace \<times> dir \<times> string) option" where
  "switch_view K env pj name target w es =
     (case switch_from K env name target w of
        None \<Rightarrow> None
      | Some (Inl e, w1) \<Rightarrow> Some (Inl (Inl e), w1, es, name)
      | Some (Inr (heads, st), w1) \<Rightarrow>
          (case check_working_dir_clean pj es st of
             Inl e \<Rightarrow> Some (Inl (Inr e), w1, es, name)
           | Inr _ \<Rightarrow>
               (case switch_to K env target heads w1 of
                  None \<Rightarrow> None
                | Some (Inl e, w2) \<Rightarrow> Some (Inl (Inl e), w2, es, name)
                | Some (Inr st', w2) \<Rightarrow>
                    (case write_state_to_working_dir pj (fmlookup (ws_blobs w2)) st' es of
                       (Some e, es') \<Rightarrow> Some (Inl (Inr e), w2, es', name)
                     | (None, es') \<Rightarrow> Some (Inr (), w2, es', target)))))"

lemma switch_view_Inr:
  "switch_view K env pj name target w es = Some (Inr (), w', es', now) \<longleftrightarrow> now = target \<and>
   (\<exists>heads st w1 st'. switch_from K env name target w = Some (Inr (heads, st), w1) \<and>
      check_working_dir_clean pj es st = Inr () \<and> switch_to K env target heads w1 = Some (Inr st', w') \<and>
      write_state_to_working_dir pj (fmlookup (ws_blobs w')) st' es = (None, es'))"
  (is "?l \<longleftrightarrow> ?r")
proof
  assume ?l
  then show ?r
    unfolding switch_view_def
    apply (cases "switch_from K env name target w")
     apply simp
    apply (clarsimp split: sum.splits prod.splits option.splits)
    done
next
  assume ?r
  then show ?l unfolding switch_view_def by auto
qed

end
