(* ===== verification/Checkout.thy ===== *)
theory Checkout
  imports WorkTree
begin

text \<open>
  Properties of the file tree: walks depend on the shape of a tree only, so the test for a clean
  tree cannot tell apart trees that differ in a file that is no Rust source; what a projection
  writes and leaves; and that a checkout into an empty directory has an empty delta.
\<close>

section \<open>Shapes\<close>

text \<open>The tree without the contents of its files, which is all the walks look at.\<close>

fun shape :: "dir \<Rightarrow> dir" where
  "shape [] = []"
| "shape ((n, File b) # es) = (n, File []) # shape es"
| "shape ((n, Dir sub) # es) = (n, Dir (shape sub)) # shape es"

fun hollow :: "tree \<Rightarrow> tree" where
  "hollow (File b) = File []"
| "hollow (Dir sub) = Dir (shape sub)"

lemma map_of_shape: "map_of (shape es) n = map_option hollow (map_of es n)"
  by (induction es rule: shape.induct) auto

lemma shape_update: "shape (AList.update n t es) = AList.update n (hollow t) (shape es)"
  by (induction es rule: shape.induct) (cases t, auto)+

lemma shape_delete: "shape (AList.delete n es) = AList.delete n (shape es)"
  by (induction es rule: shape.induct) (auto simp: AList.delete_eq)

lemma shape_put_file: "map_option shape (put_file es p b) = put_file (shape es) p []"
proof (induction es p b rule: put_file.induct)
  case (3 es n m p b)
  show ?case
  proof (cases "map_of es n")
    case None
    have "put_file [] (m # p) [] = map_option shape (put_file [] (m # p) b)"
      using 3(1) [OF None] by simp
    with None show ?thesis
      by (cases "put_file [] (m # p) b") (simp_all add: map_of_shape shape_update)
  next
    case (Some t)
    then show ?thesis
    proof (cases t)
      case (Dir sub)
      with Some show ?thesis using 3(2) [OF Some Dir]
        by (cases "put_file sub (m # p) b") (auto simp: map_of_shape shape_update dest: sym)
    qed (simp add: map_of_shape)
  qed
qed (auto simp: map_of_shape shape_update split: option.split tree.split)

lemma shape_make_dirs: "map_option shape (make_dirs es p) = make_dirs (shape es) p"
proof (induction es p rule: make_dirs.induct)
  case (2 es n p)
  show ?case
  proof (cases "map_of es n")
    case None
    then show ?thesis using 2(1)
      by (cases "make_dirs [] p") (auto simp: map_of_shape shape_update)
  next
    case (Some t)
    then show ?thesis
    proof (cases t)
      case (Dir sub)
      with Some show ?thesis using 2(2) [OF Some Dir]
        by (cases "make_dirs sub p") (auto simp: map_of_shape shape_update dest: sym)
    qed (simp add: map_of_shape)
  qed
qed simp

lemma shape_remove_file: "shape (remove_file es p) = remove_file (shape es) p"
proof (induction es p rule: remove_file.induct)
  case (2 es n p)
  then show ?case
    by (auto simp: map_of_shape shape_update shape_delete split: option.split tree.split)
qed simp

lemma path_exists_shape: "path_exists (shape es) q = path_exists es q"
  by (induction q arbitrary: es) (auto simp: path_exists_Cons map_of_shape split: option.split tree.split)

lemma collect_rs_shape: "collect_rs_recursive pj base (shape es) = collect_rs_recursive pj base es"
  by (induction pj base es rule: collect_rs_recursive.induct) simp_all

lemma collect_rs_files_cong: "shape es = shape es' \<Longrightarrow> collect_rs_files pj es = collect_rs_files pj es'"
  by (metis collect_rs_files_def collect_rs_shape)

lemma path_exists_cong: "shape es = shape es' \<Longrightarrow> path_exists es q = path_exists es' q"
  by (metis path_exists_shape)

lemma collect_rs_extension:
  "p \<in> set (collect_rs_recursive pj base es) \<Longrightarrow> extension (last p) = Some ''rs''"
  by (induction pj base es rule: collect_rs_recursive.induct) (auto split: if_splits)

section \<open>Two trees that differ in one file\<close>

text \<open>
  The file \<open>p\<close> is the same in both, or still \<open>c\<close> in the one and \<open>b\<close> in the other.
\<close>

definition edited_at :: "fs_path \<Rightarrow> bytes option \<Rightarrow> bytes \<Rightarrow> dir \<Rightarrow> dir \<Rightarrow> bool" where
  "edited_at p c b es es' \<longleftrightarrow> shape es = shape es' \<and> (\<forall>q. q \<noteq> p \<longrightarrow> read_file es q = read_file es' q) \<and>
     (read_file es p = read_file es' p \<or> read_file es p = c \<and> read_file es' p = Some b)"

definition respects_edit :: "fs_path \<Rightarrow> bytes option \<Rightarrow> bytes \<Rightarrow> tree_step \<Rightarrow> bool" where
  "respects_edit p c b s \<longleftrightarrow> (\<forall>es es'. edited_at p c b es es' \<longrightarrow>
     fst (s es) = fst (s es') \<and> edited_at p c b (snd (s es)) (snd (s es')))"

lemma respects_basic [simp]:
  "respects_edit p c b tree_skip" "respects_edit p c b (tree_fail e)"
  by (simp_all add: respects_edit_def tree_skip_def tree_fail_def)

lemma respects_then [simp]:
  "respects_edit p c b s \<Longrightarrow> respects_edit p c b t \<Longrightarrow> respects_edit p c b (tree_then s t)"
  unfolding respects_edit_def
proof (intro allI impI)
  fix es es'
  assume st: "\<forall>es es'. edited_at p c b es es' \<longrightarrow> fst (s es) = fst (s es') \<and> edited_at p c b (snd (s es)) (snd (s es'))"
    "\<forall>es es'. edited_at p c b es es' \<longrightarrow> fst (t es) = fst (t es') \<and> edited_at p c b (snd (t es)) (snd (t es'))"
    and e: "edited_at p c b es es'"
  obtain r u r' u' where "s es = (r, u)" "s es' = (r', u')" by (cases "s es"; cases "s es'")
  with st(1) [rule_format, OF e] st(2) [rule_format, of u u']
  show "fst (tree_then s t es) = fst (tree_then s t es') \<and>
    edited_at p c b (snd (tree_then s t es)) (snd (tree_then s t es'))"
    by (cases r; cases r') (auto simp: tree_then_def)
qed

lemma respects_write_at [simp]: "respects_edit p c b (write_at q x)"
  unfolding respects_edit_def
proof (intro allI impI)
  fix es es' assume e: "edited_at p c b es es'"
  have s: "map_option shape (put_file es q x) = map_option shape (put_file es' q x)"
    using e by (simp add: shape_put_file edited_at_def)
  show "fst (write_at q x es) = fst (write_at q x es') \<and>
    edited_at p c b (snd (write_at q x es)) (snd (write_at q x es'))"
    using s e
    by (cases "put_file es q x"; cases "put_file es' q x")
      (auto simp: write_at_def edited_at_def read_put_file)
qed

lemma respects_create_dir_all [simp]: "respects_edit p c b (create_dir_all q)"
  unfolding respects_edit_def
proof (intro allI impI)
  fix es es' assume e: "edited_at p c b es es'"
  have s: "map_option shape (make_dirs es q) = map_option shape (make_dirs es' q)"
    using e by (simp add: shape_make_dirs edited_at_def)
  show "fst (create_dir_all q es) = fst (create_dir_all q es') \<and>
    edited_at p c b (snd (create_dir_all q es)) (snd (create_dir_all q es'))"
    using s e
    by (cases "make_dirs es q"; cases "make_dirs es' q")
      (auto simp: create_dir_all_def edited_at_def read_make_dirs)
qed

lemma respects_remove_source [simp]: "respects_edit p c b (remove_source pj q)"
proof (cases "q = []")
  case False
  then show ?thesis
    by (auto simp: respects_edit_def remove_source_def edited_at_def read_remove_file shape_remove_file)
qed (auto simp: respects_edit_def remove_source_def)

lemma respects_steps [simp]: "(\<And>x. respects_edit p c b (f x)) \<Longrightarrow> respects_edit p c b (tree_steps f xs)"
  by (induction xs) simp_all

lemma respects_write_filepath [simp]: "respects_edit p c b (write_filepath pj blobs st f)"
  by (auto simp: write_filepath_def write_content_def Let_def split: sum.split option.split)

lemma respects_write_state: "respects_edit p c b (write_state_to_working_dir pj blobs st)"
  unfolding respects_edit_def
proof (intro allI impI)
  fix es es' assume e: "edited_at p c b es es'"
  let ?s = "tree_then (tree_steps (remove_source pj) (collect_rs_files pj es))
       (tree_then (tree_steps (write_filepath pj blobs st) (extract_filepaths_from_state pj st))
         (tree_steps (\<lambda>d. create_dir_all (path_components d)) (state_dirs pj st)))"
  have "collect_rs_files pj es' = collect_rs_files pj es"
    using e by (intro collect_rs_files_cong) (simp add: edited_at_def)
  then have "write_state_to_working_dir pj blobs st es' = ?s es'"
    by (simp add: write_state_to_working_dir_def)
  moreover have "write_state_to_working_dir pj blobs st es = ?s es"
    by (simp add: write_state_to_working_dir_def)
  moreover have "respects_edit p c b ?s" by simp
  ultimately show "fst (write_state_to_working_dir pj blobs st es) = fst (write_state_to_working_dir pj blobs st es') \<and>
      edited_at p c b (snd (write_state_to_working_dir pj blobs st es)) (snd (write_state_to_working_dir pj blobs st es'))"
    using e unfolding respects_edit_def by metis
qed

lemma shape_put_existing:
  "put_file es p b = Some es' \<Longrightarrow> read_file es p = Some c \<Longrightarrow> shape es' = shape es"
proof (induction es p b arbitrary: es' rule: put_file.induct)
  case (2 es n b)
  then show ?case
    by (auto simp: read_file_Cons shape_update map_of_shape intro!: AList.update_triv split: option.splits tree.splits)
next
  case (3 es n m p b)
  from 3(3) obtain sub sub' where s: "put_file sub (m # p) b = Some sub'" "es' = AList.update n (Dir sub') es"
      "map_of es n = Some (Dir sub) \<or> map_of es n = None \<and> sub = []"
    unfolding put_file_Cons_Some by blast
  with 3(4) have sub: "map_of es n = Some (Dir sub)" "read_file sub (m # p) = Some c"
    by (auto simp: read_file_Cons)
  have "shape sub' = shape sub" by (rule 3(2) [OF sub(1) refl s(1) sub(2)])
  with s(2) sub(1) show ?case by (simp add: shape_update map_of_shape AList.update_triv)
qed simp

lemma edited_by_put:
  assumes "put_file es p b = Some es'" "read_file es p = Some c"
  shows "edited_at p (Some c) b es es'"
  using assms shape_put_existing [OF assms] by (simp add: edited_at_def read_put_file)

lemma traverse_eq: "(\<And>x. x \<in> set xs \<Longrightarrow> f x = g x) \<Longrightarrow> traverse f xs = traverse g xs"
  by (induction xs) simp_all

lemma check_ignores_edit:
  assumes "edited_at p c b es es'" "extension (last p) \<noteq> Some ''rs''"
  shows "check_working_dir_clean pj es' st = check_working_dir_clean pj es st"
proof -
  have s: "shape es' = shape es" using assms(1) by (simp add: edited_at_def)
  have files: "collect_rs_files pj es' = collect_rs_files pj es" by (rule collect_rs_files_cong [OF s])
  have "rs_clean pj es' st q = rs_clean pj es st q" if "q \<in> set (collect_rs_files pj es)" for q
  proof -
    have "q \<noteq> p" using that assms(2) collect_rs_extension by (auto simp: collect_rs_files_def)
    then show ?thesis using assms(1) by (simp add: rs_clean_def read_text_def edited_at_def)
  qed
  then have "traverse (rs_clean pj es' st) (collect_rs_files pj es) = traverse (rs_clean pj es st) (collect_rs_files pj es)"
    by (rule traverse_eq)
  then show ?thesis
    by (simp add: check_working_dir_clean_def files path_exists_cong [OF s])
qed

section \<open>What the test for a clean tree sees\<close>

text \<open>
  C10.
  The test that guards switching, merging and pulling sees only Rust sources and deleted files:
  two trees that differ in the content of a tracked file of any other kind are switched alike,
  and wherever the switch writes that file the edit is gone without a message.
\<close>

theorem switch_discards_edits:
  assumes "switch_view K env pj name target w es = Some (Inr (), w', es', target)"
    and "read_file es p = Some c" "extension (last p) \<noteq> Some ''rs''" "put_file es p b = Some edited"
  shows "\<exists>out. switch_view K env pj name target w edited = Some (Inr (), w', out, target) \<and>
    (\<forall>q. q \<noteq> p \<longrightarrow> read_file out q = read_file es' q) \<and>
    (read_file es' p \<noteq> Some c \<longrightarrow> read_file out p = read_file es' p)"
proof -
  have e: "edited_at p (Some c) b es edited" by (rule edited_by_put [OF assms(4,2)])
  have check: "check_working_dir_clean pj edited st = check_working_dir_clean pj es st" for st
    by (rule check_ignores_edit [OF e assms(3)])
  have out: "fst (write_state_to_working_dir pj blobs st edited) = fst (write_state_to_working_dir pj blobs st es)"
    "edited_at p (Some c) b (snd (write_state_to_working_dir pj blobs st es)) (snd (write_state_to_working_dir pj blobs st edited))"
    for blobs st using respects_write_state e unfolding respects_edit_def by metis+
  from assms(1) obtain heads st w1 st' where run: "switch_from K env name target w = Some (Inr (heads, st), w1)"
      "check_working_dir_clean pj es st = Inr ()" "switch_to K env target heads w1 = Some (Inr st', w')"
      "write_state_to_working_dir pj (fmlookup (ws_blobs w')) st' es = (None, es')"
    unfolding switch_view_Inr by blast
  obtain t where t: "write_state_to_working_dir pj (fmlookup (ws_blobs w')) st' edited = (None, t)"
      "edited_at p (Some c) b es' t"
    using out [of "fmlookup (ws_blobs w')" st'] run(4) by (metis fst_conv snd_conv surj_pair)
  have "switch_view K env pj name target w edited = Some (Inr (), w', t, target)"
    using run check t(1) unfolding switch_view_Inr by auto
  then show ?thesis using t(2) by (auto simp: edited_at_def)
qed

text \<open>The atoms a clean tree can hide.\<close>

definition unseen_atom :: "atom \<Rightarrow> bool" where
  "unseen_atom a = (case a of Blob f h n \<Rightarrow> True | Directory k \<Rightarrow> hd k = ''dir'' | Delete k h \<Rightarrow> hd k = ''dir'' | _ \<Rightarrow> False)"

lemma traverse_Inr_cong:
  "traverse f xs = Inr ys \<Longrightarrow> (\<And>x y. x \<in> set xs \<Longrightarrow> f x = Inr y \<Longrightarrow> \<exists>z. g x = Inr z \<and> P z) \<Longrightarrow>
   \<exists>zs. traverse g xs = Inr zs \<and> (\<forall>z\<in>set zs. P z)"
proof (induction xs arbitrary: ys)
  case (Cons x xs)
  from Cons.prems(1) obtain y ys' where "f x = Inr y" "traverse f xs = Inr ys'"
    by (auto simp: bind_result_Inr_iff map_result_Inr_iff)
  then show ?case using Cons.IH [of ys'] Cons.prems(2) by fastforce
qed simp

lemma rs_clean_delta:
  assumes "rs_clean pj es st p = Inr y"
  shows "\<exists>z. rs_delta pj es st p = Inr z \<and> fst z = []"
proof -
  from assms obtain src where src: "read_text pj es p = Inr src"
    by (auto simp: rs_clean_def bind_result_Inr_iff)
  show ?thesis
    using assms
    by (auto simp: rs_clean_def rs_delta_def Let_def src split: if_splits sum.splits prod.splits)
qed

text \<open>
  C0.
  What the test for a clean tree misses, exactly: it accepts only trees whose delta can be
  computed, and all it lets through are whole-file atoms and the atoms of empty directories.
\<close>

theorem clean_tree_delta:
  assumes "check_working_dir_clean pj es st = Inr ()" "project_ok pj st"
  shows "\<exists>atoms blobs. compute_working_directory_delta K pj es st = Inr (atoms, blobs) \<and>
    (\<forall>a\<in>set atoms. unseen_atom a)"
proof -
  have order: "set (pj_arrival pj as) = set as" for as using assms(2) by (simp add: project_ok_def arrival_ok_def)
  from assms(1) obtain ys where ys: "traverse (rs_clean pj es st) (collect_rs_files pj es) = Inr ys"
    and there: "\<forall>f\<in>set (extract_filepaths_from_state pj st). path_exists es (path_components f)"
    by (auto simp: check_working_dir_clean_def bind_result_Inr_iff list_ex_iff split: if_splits)
  have "\<exists>zs. traverse (rs_delta pj es st) (collect_rs_files pj es) = Inr zs \<and> (\<forall>z\<in>set zs. fst z = [])"
    by (rule traverse_Inr_cong [OF ys rs_clean_delta])
  then obtain zs where zs: "traverse (rs_delta pj es st) (collect_rs_files pj es) = Inr zs"
      "\<forall>z\<in>set zs. fst z = []" by blast
  have "deleted_keys pj es st = []" using there by (auto simp: deleted_keys_def filter_empty_conv)
  moreover have "unseen_atom a" if "a \<in> set (List.map_filter (blob_delta K es st) ps)" for a ps
    using that by (induction ps) (auto simp: blob_delta_def unseen_atom_def Let_def split: option.splits if_splits)
  ultimately show ?thesis
    using zs by (auto simp: compute_working_directory_delta_def order unseen_atom_def delete_atom_def Let_def)
qed

section \<open>What a write leaves alone\<close>

definition leaves :: "fs_path \<Rightarrow> tree_step \<Rightarrow> bool" where
  "leaves q s \<longleftrightarrow> (\<forall>es. read_file (snd (s es)) q = read_file es q)"

lemma leaves_basic [simp]: "leaves q tree_skip" "leaves q (tree_fail e)" "leaves q (create_dir_all p)"
  by (auto simp: leaves_def tree_skip_def tree_fail_def create_dir_all_def read_make_dirs split: option.split)

lemma leaves_then [simp]: "leaves q s \<Longrightarrow> leaves q t \<Longrightarrow> leaves q (tree_then s t)"
  unfolding leaves_def
proof
  fix es assume st: "\<forall>es. read_file (snd (s es)) q = read_file es q" "\<forall>es. read_file (snd (t es)) q = read_file es q"
  obtain r es1 where "s es = (r, es1)" by (cases "s es")
  with st(1) [rule_format, of es] st(2) show "read_file (snd (tree_then s t es)) q = read_file es q"
    by (cases r) (simp_all add: tree_then_def)
qed

lemma leaves_write_at [simp]: "q \<noteq> p \<Longrightarrow> leaves q (write_at p b)"
  by (auto simp: leaves_def write_at_def read_put_file split: option.split)

lemma leaves_remove_source [simp]: "q \<noteq> p \<Longrightarrow> leaves q (remove_source pj p)"
  by (cases "p = []") (auto simp: leaves_def remove_source_def read_remove_file)

lemma leaves_steps: "(\<And>x. x \<in> set xs \<Longrightarrow> leaves q (f x)) \<Longrightarrow> leaves q (tree_steps f xs)"
  by (induction xs) simp_all

lemma leaves_write_filepath:
  "q \<noteq> path_components f \<Longrightarrow> q \<noteq> path_components f @ [''.arc-mount''] \<Longrightarrow> leaves q (write_filepath pj blobs st f)"
  by (auto simp: write_filepath_def write_content_def Let_def split: sum.split option.split)

text \<open>The files a projection of the state writes.\<close>

definition written_paths :: "'x project_scheme \<Rightarrow> materialized_state \<Rightarrow> fs_path list" where
  "written_paths pj st =
     concat (List.map (\<lambda>f. [path_components f, path_components f @ [''.arc-mount'']]) (extract_filepaths_from_state pj st))"

lemma write_state_leaves:
  assumes "q \<notin> set (written_paths pj st)" "extension (last q) \<noteq> Some ''rs''"
  shows "leaves q (write_state_to_working_dir pj blobs st)"
proof -
  have "q \<notin> set (collect_rs_files pj es)" for es
    using assms(2) collect_rs_extension by (auto simp: collect_rs_files_def)
  then have removed: "leaves q (tree_steps (remove_source pj) (collect_rs_files pj es))" for es
    by (intro leaves_steps leaves_remove_source) auto
  have written: "leaves q (tree_steps (write_filepath pj blobs st) (extract_filepaths_from_state pj st))"
    using assms(1) by (intro leaves_steps leaves_write_filepath) (auto simp: written_paths_def)
  have "leaves q (tree_then (tree_steps (remove_source pj) (collect_rs_files pj es))
       (tree_then (tree_steps (write_filepath pj blobs st) (extract_filepaths_from_state pj st))
         (tree_steps (\<lambda>d. create_dir_all (path_components d)) (state_dirs pj st))))" for es
    by (intro leaves_then removed written leaves_steps leaves_basic)
  then show ?thesis by (simp add: leaves_def write_state_to_working_dir_def)
qed

text \<open>The walk reaches a file when it passes every directory above it.\<close>

fun walked :: "'x project_scheme \<Rightarrow> fs_path \<Rightarrow> fs_path \<Rightarrow> bool" where
  "walked pj base [] = False"
| "walked pj base (n # p) =
     (if p = [] then walk_enters pj (base @ [n]) False
      else walk_enters pj (base @ [n]) True \<and> walked pj (base @ [n]) p)"

lemma collect_all_complete:
  "read_file es p \<noteq> None \<Longrightarrow> walked pj base p \<Longrightarrow> base @ p \<in> set (collect_all_recursive pj base es)"
proof (induction pj base es arbitrary: p rule: collect_all_recursive.induct)
  case (2 pj base n b es)
  then show ?case
    by (cases p; cases "hd p = n") (auto simp: read_file_Cons split: if_splits)
next
  case (3 pj base n sub es)
  show ?case
  proof (cases p)
    case (Cons m r)
    show ?thesis
    proof (cases "m = n")
      case True
      with 3(3,4) Cons have r: "read_file sub r \<noteq> None" "r \<noteq> []" by (auto simp: read_file_Cons)
      with 3(4) Cons True have "walk_enters pj (base @ [n]) True" "walked pj (base @ [n]) r" by auto
      then show ?thesis using 3(1) [of r] r Cons True by simp
    next
      case False
      with 3(3) Cons have "read_file es p \<noteq> None" by (auto simp: read_file_Cons)
      then show ?thesis using 3(2) [of p] 3(4) by simp
    qed
  qed (use 3(3) in simp)
qed simp

definition snapped_next :: "'x project_scheme \<Rightarrow> materialized_state \<Rightarrow> fs_path \<Rightarrow> bool" where
  "snapped_next pj st p \<longleftrightarrow> walked pj [] p \<and> matches_file_path (pj_cone pj) (path_string p) \<and>
     \<not> ends_with (path_string p) ''.rs'' \<and> \<not> is_implicitly_ignored (pj_track_all pj) p \<and>
     st [''file'', path_string p] = None"

lemma snapped_next_delta:
  assumes "snapped_next pj st p" "read_file es p = Some c" "arrival_ok pj"
    and "compute_working_directory_delta K pj es st = Inr (atoms, blobs)"
  shows "Blob (path_string p) (blake3 K c) (word_of_nat (length c)) \<in> set atoms"
proof -
  have "p \<in> set (collect_all_files pj es)"
    using collect_all_complete [of es p pj "[]"] assms(1,2)
    by (auto simp: collect_all_files_def snapped_next_def)
  then have "p \<in> set (blob_candidates pj es st)"
    using assms(1) by (simp add: blob_candidates_def snapped_next_def)
  moreover have "blob_delta K es st p = Some (Blob (path_string p) (blake3 K c) (word_of_nat (length c)))"
    using assms(1,2) by (simp add: blob_delta_def snapped_next_def Let_def)
  ultimately have "Blob (path_string p) (blake3 K c) (word_of_nat (length c)) \<in>
      set (List.map_filter (blob_delta K es st) (blob_candidates pj es st))"
    by (auto simp: mem_map_filter)
  then show ?thesis
    using assms(3,4) by (auto simp: compute_working_directory_delta_def arrival_ok_def map_result_Inr_iff Let_def)
qed


section \<open>A state in an empty directory\<close>

text \<open>
  The states a checkout can reproduce: names that are their own normal form and not hidden, no
  pending conflict, Rust sources the plugin can print and other files given by their blobs.
\<close>

definition plain_name :: "string \<Rightarrow> bool" where
  "plain_name f \<longleftrightarrow> path_components f \<noteq> [] \<and> path_string (path_components f) = f \<and>
     list_all (\<lambda>n. \<not> hidden n) (path_components f)"

definition plain_file :: "'x project_scheme \<Rightarrow> materialized_state \<Rightarrow> string \<Rightarrow> bool" where
  "plain_file pj st f \<longleftrightarrow> plain_name f \<and>
     list_all (\<lambda>k. decode_conflict_projection pj (extract_content_at_path st k) = None) (node_paths_of pj st f) \<and>
     (if ends_with f ''.rs''
      then (case pj_unparse pj st f of
              None \<Rightarrow> False | Some source \<Rightarrow> source \<noteq> [] \<and> pj_text pj (str_bytes source) = Some source)
      else (case st [''file'', f] of None \<Rightarrow> False | Some token \<Rightarrow> is_blob_token token))"

definition cone_files :: "'x project_scheme \<Rightarrow> materialized_state \<Rightarrow> string list" where
  "cone_files pj st = filter (matches_file_path (pj_cone pj)) (extract_filepaths_from_state pj st)"

definition plain_state :: "'x project_scheme \<Rightarrow> materialized_state \<Rightarrow> bool" where
  "plain_state pj st \<longleftrightarrow> list_all (plain_file pj st) (cone_files pj st) \<and> list_all plain_name (state_dirs pj st)"

definition file_content :: "'x project_scheme \<Rightarrow> blob_reader \<Rightarrow> materialized_state \<Rightarrow> string \<Rightarrow> bytes option" where
  "file_content pj blobs st f =
     (if ends_with f ''.rs'' then map_option str_bytes (pj_unparse pj st f)
      else Option.bind (st [''file'', f]) (\<lambda>token. blobs (take 32 (drop 13 token))))"

text \<open>A step that adds the files \<open>fs\<close> and the directories above \<open>ps\<close>, when it succeeds.\<close>

definition adds :: "(fs_path \<Rightarrow> bytes option) \<Rightarrow> fs_path list \<Rightarrow> tree_step \<Rightarrow> bool" where
  "adds fs ps s \<longleftrightarrow> (\<forall>es es'. s es = (None, es') \<longrightarrow>
     (\<forall>q. read_file es' q = (case fs q of None \<Rightarrow> read_file es q | Some b \<Rightarrow> Some b)) \<and>
     (\<forall>q. path_exists es' q \<longleftrightarrow> path_exists es q \<or> (\<exists>p\<in>set ps. prefix q p)))"

lemma adds_skip: "adds Map.empty [] tree_skip"
  by (simp add: adds_def tree_skip_def)

lemma adds_fail: "adds fs ps (tree_fail e)"
  by (simp add: adds_def tree_fail_def)

lemma adds_then: "adds fs ps s \<Longrightarrow> adds gs qs t \<Longrightarrow> adds (fs ++ gs) (ps @ qs) (tree_then s t)"
  unfolding adds_def
proof (intro allI impI)
  fix es es'
  assume s: "\<forall>es es'. s es = (None, es') \<longrightarrow>
     (\<forall>q. read_file es' q = (case fs q of None \<Rightarrow> read_file es q | Some b \<Rightarrow> Some b)) \<and>
     (\<forall>q. path_exists es' q \<longleftrightarrow> path_exists es q \<or> (\<exists>p\<in>set ps. prefix q p))"
    and t: "\<forall>es es'. t es = (None, es') \<longrightarrow>
     (\<forall>q. read_file es' q = (case gs q of None \<Rightarrow> read_file es q | Some b \<Rightarrow> Some b)) \<and>
     (\<forall>q. path_exists es' q \<longleftrightarrow> path_exists es q \<or> (\<exists>p\<in>set qs. prefix q p))"
    and run: "tree_then s t es = (None, es')"
  then obtain u where "s es = (None, u)" "t u = (None, es')"
    by (auto simp: tree_then_def split: prod.splits option.splits)
  with s t show "(\<forall>q. read_file es' q = (case (fs ++ gs) q of None \<Rightarrow> read_file es q | Some b \<Rightarrow> Some b)) \<and>
      (\<forall>q. path_exists es' q \<longleftrightarrow> path_exists es q \<or> (\<exists>p\<in>set (ps @ qs). prefix q p))"
    by (simp add: map_add_def Bex_def split: option.split) blast
qed

lemma adds_write_at: "adds [p \<mapsto> b] [p] (write_at p b)"
  by (auto simp: adds_def write_at_def read_put_file path_exists_put_file split: option.splits)

lemma adds_create_dir_all: "adds Map.empty [p] (create_dir_all p)"
  by (auto simp: adds_def create_dir_all_def read_make_dirs path_exists_make_dirs split: option.splits)

lemma adds_weaken: "adds fs ps s \<Longrightarrow> (\<And>q. (\<exists>p\<in>set ps. prefix q p) \<longleftrightarrow> (\<exists>p\<in>set ps'. prefix q p)) \<Longrightarrow> adds fs ps' s"
  by (simp add: adds_def)

lemma token_kind: "is_blob_token c \<Longrightarrow> take 10 c \<noteq> str_bytes ''ARC_MOUNT:''"
proof
  assume "is_blob_token c" and m: "take 10 c = str_bytes ''ARC_MOUNT:''"
  then have "take 10 (take 13 c) = take 10 (str_bytes ''ARC_BLOB_REF:'')" by (simp add: is_blob_token_def)
  with m show False by (simp add: str_bytes_def byte_of_char_def)
qed

lemma adds_write_content:
  assumes "plain_file pj st f"
  shows "\<exists>b. (file_content pj blobs st f = Some b \<or> write_content pj blobs st f = tree_fail (MissingBlob f (take 32 (drop 13 (the (st [''file'', f])))))) \<and>
    adds [path_components f \<mapsto> b] [path_components f] (write_content pj blobs st f)"
  using assms token_kind
  by (auto simp: plain_file_def write_content_def file_content_def adds_write_at adds_fail split: if_splits option.splits)

lemma write_plain_file:
  assumes "plain_file pj st f" "matches_file_path (pj_cone pj) f"
    and run: "write_filepath pj blobs st f es = (None, es')"
  shows "\<exists>b. file_content pj blobs st f = Some b \<and>
    (\<forall>q. read_file es' q = (if q = path_components f then Some b else read_file es q)) \<and>
    (\<forall>q. path_exists es' q \<longleftrightarrow> path_exists es q \<or> prefix q (path_components f))"
proof -
  let ?p = "path_components f"
  have "conflict_projection_for_file pj st f = Inr None"
  proof -
    have "List.map_filter (\<lambda>k. decode_conflict_projection pj (extract_content_at_path st k)) (node_paths_of pj st f) = []"
      using assms(1) by (auto simp: plain_file_def list_all_iff List.map_filter_def filter_empty_conv)
    then show ?thesis by (simp add: conflict_projection_for_file_def)
  qed
  then have eq: "write_filepath pj blobs st f = tree_then (create_dir_all (butlast ?p)) (write_content pj blobs st f)"
    using assms(2) by (simp add: write_filepath_def)
  obtain b where b: "file_content pj blobs st f = Some b \<or>
        write_content pj blobs st f = tree_fail (MissingBlob f (take 32 (drop 13 (the (st [''file'', f])))))"
      "adds [?p \<mapsto> b] [?p] (write_content pj blobs st f)"
    using adds_write_content [OF assms(1)] by blast
  have "file_content pj blobs st f = Some b"
    using b(1) run eq by (auto simp: tree_then_def tree_fail_def split: prod.splits option.splits)
  moreover have "adds (Map.empty ++ [?p \<mapsto> b]) ([butlast ?p] @ [?p]) (write_filepath pj blobs st f)"
    unfolding eq by (rule adds_then [OF adds_create_dir_all b(2)])
  then have "adds (Map.empty ++ [?p \<mapsto> b]) [?p] (write_filepath pj blobs st f)"
    by (rule adds_weaken) (auto intro: prefix_order.trans [OF _ prefixeq_butlast])
  then have "adds [?p \<mapsto> b] [?p] (write_filepath pj blobs st f)" by simp
  then have "(\<forall>q. read_file es' q = (case [?p \<mapsto> b] q of None \<Rightarrow> read_file es q | Some b \<Rightarrow> Some b)) \<and>
      (\<forall>q. path_exists es' q \<longleftrightarrow> path_exists es q \<or> prefix q ?p)"
    using run unfolding adds_def by fastforce
  ultimately show ?thesis by auto
qed

lemma write_plain_files:
  assumes "tree_steps (write_filepath pj blobs st) fs es = (None, es')"
    and "\<forall>f\<in>set fs. matches_file_path (pj_cone pj) f \<longrightarrow> plain_file pj st f"
  shows "(\<forall>f\<in>set fs. matches_file_path (pj_cone pj) f \<longrightarrow> file_content pj blobs st f \<noteq> None) \<and>
    (\<forall>q. read_file es' q =
      (if \<exists>f\<in>set fs. matches_file_path (pj_cone pj) f \<and> path_components f = q
       then file_content pj blobs st (path_string q) else read_file es q)) \<and>
    (\<forall>q. path_exists es' q \<longleftrightarrow> path_exists es q \<or>
      (\<exists>f\<in>set fs. matches_file_path (pj_cone pj) f \<and> prefix q (path_components f)))"
  using assms
proof (induction fs arbitrary: es)
  case Nil
  then show ?case by (simp add: tree_skip_def)
next
  case (Cons f fs)
  from Cons.prems(1) obtain u where u: "write_filepath pj blobs st f es = (None, u)"
      "tree_steps (write_filepath pj blobs st) fs u = (None, es')"
    by (auto simp: tree_then_def split: prod.splits option.splits)
  note IH = Cons.IH [OF u(2)]
  show ?case
  proof (cases "matches_file_path (pj_cone pj) f")
    case False
    then have "u = es" using u(1) by (simp add: write_filepath_def tree_skip_def)
    have none: "(\<exists>g\<in>set (f # fs). matches_file_path (pj_cone pj) g \<and> P g) \<longleftrightarrow>
        (\<exists>g\<in>set fs. matches_file_path (pj_cone pj) g \<and> P g)" for P
      using False by simp
    have "\<forall>g\<in>set fs. matches_file_path (pj_cone pj) g \<longrightarrow> plain_file pj st g" using Cons.prems(2) by simp
    from IH [OF this] show ?thesis unfolding none \<open>u = es\<close> using False by simp
  next
    case True
    with Cons.prems(2) have f: "plain_file pj st f" by simp
    then have name: "path_string (path_components f) = f" by (simp add: plain_file_def plain_name_def)
    from write_plain_file [OF f True u(1)] obtain b where b: "file_content pj blobs st f = Some b"
      "\<forall>q. read_file u q = (if q = path_components f then Some b else read_file es q)"
      "\<forall>q. path_exists u q \<longleftrightarrow> path_exists es q \<or> prefix q (path_components f)" by blast
    show ?thesis using IH Cons.prems(2) True b name by auto
  qed
qed

lemma create_dirs_adds:
  assumes "tree_steps (\<lambda>d. create_dir_all (path_components d)) ds es = (None, es')"
  shows "(\<forall>q. read_file es' q = read_file es q) \<and>
    (\<forall>q. path_exists es' q \<longleftrightarrow> path_exists es q \<or> (\<exists>d\<in>set ds. prefix q (path_components d)))"
  using assms
proof (induction ds arbitrary: es)
  case Nil
  then show ?case by (simp add: tree_skip_def)
next
  case (Cons d ds)
  from Cons.prems obtain u where u: "create_dir_all (path_components d) es = (None, u)"
      "tree_steps (\<lambda>d. create_dir_all (path_components d)) ds u = (None, es')"
    by (auto simp: tree_then_def split: prod.splits option.splits)
  have "(\<forall>q. read_file u q = read_file es q) \<and> (\<forall>q. path_exists u q \<longleftrightarrow> path_exists es q \<or> prefix q (path_components d))"
    using u(1) adds_create_dir_all [of "path_components d"] unfolding adds_def by fastforce
  then show ?case using Cons.IH [OF u(2)] by auto
qed

text \<open>Names are distinct in every directory.\<close>

fun wf_dir :: "dir \<Rightarrow> bool" where
  "wf_dir [] = True"
| "wf_dir ((n, File b) # es) = (n \<notin> fst ` set es \<and> wf_dir es)"
| "wf_dir ((n, Dir sub) # es) = (n \<notin> fst ` set es \<and> wf_dir sub \<and> wf_dir es)"

fun wf_tree :: "tree \<Rightarrow> bool" where
  "wf_tree (File b) = True"
| "wf_tree (Dir sub) = wf_dir sub"

lemma wf_dir_Cons: "wf_dir ((n, t) # es) \<longleftrightarrow> n \<notin> fst ` set es \<and> wf_tree t \<and> wf_dir es"
  by (cases t) auto

lemma wf_dir_update: "wf_dir es \<Longrightarrow> wf_tree t \<Longrightarrow> wf_dir (AList.update n t es)"
proof (induction es)
  case (Cons e es)
  obtain m u where "e = (m, u)" by (cases e)
  with Cons show ?case by (auto simp: wf_dir_Cons dom_update)
qed (simp add: wf_dir_Cons)

lemma wf_dir_lookup: "wf_dir es \<Longrightarrow> map_of es n = Some t \<Longrightarrow> wf_tree t"
  by (induction es) (auto simp: wf_dir_Cons split: if_splits)

lemma wf_put_file: "put_file es p b = Some es' \<Longrightarrow> wf_dir es \<Longrightarrow> wf_dir es'"
proof (induction es p b arbitrary: es' rule: put_file.induct)
  case (2 es n b)
  then show ?case by (auto intro!: wf_dir_update split: option.splits tree.splits)
next
  case (3 es n m p b)
  from 3(3) obtain sub sub' where s: "put_file sub (m # p) b = Some sub'" "es' = AList.update n (Dir sub') es"
      "map_of es n = Some (Dir sub) \<or> map_of es n = None \<and> sub = []"
    unfolding put_file_Cons_Some by blast
  then have "wf_dir sub'" using 3 wf_dir_lookup [of es n "Dir sub"] by auto
  with s 3(4) show ?case by (auto intro: wf_dir_update)
qed simp

lemma wf_make_dirs: "make_dirs es p = Some es' \<Longrightarrow> wf_dir es \<Longrightarrow> wf_dir es'"
proof (induction es p arbitrary: es' rule: make_dirs.induct)
  case (2 es n p)
  from 2(3) obtain sub sub' where s: "make_dirs sub p = Some sub'" "es' = AList.update n (Dir sub') es"
      "map_of es n = Some (Dir sub) \<or> map_of es n = None \<and> sub = []"
    unfolding make_dirs_Cons_Some by blast
  then have "wf_dir sub'" using 2 wf_dir_lookup [of es n "Dir sub"] by auto
  with s 2(4) show ?case by (auto intro: wf_dir_update)
qed simp

definition keeps_wf :: "tree_step \<Rightarrow> bool" where
  "keeps_wf s \<longleftrightarrow> (\<forall>es. wf_dir es \<longrightarrow> wf_dir (snd (s es)))"

lemma keeps_wf_basic [simp]:
  "keeps_wf tree_skip" "keeps_wf (tree_fail e)" "keeps_wf (write_at p b)" "keeps_wf (create_dir_all p)"
  by (auto simp: keeps_wf_def tree_skip_def tree_fail_def write_at_def create_dir_all_def
      dest: wf_put_file wf_make_dirs split: option.split)

lemma keeps_wf_then [simp]: "keeps_wf s \<Longrightarrow> keeps_wf t \<Longrightarrow> keeps_wf (tree_then s t)"
  unfolding keeps_wf_def
proof (intro allI impI)
  fix es assume st: "\<forall>es. wf_dir es \<longrightarrow> wf_dir (snd (s es))" "\<forall>es. wf_dir es \<longrightarrow> wf_dir (snd (t es))" and "wf_dir es"
  obtain r u where "s es = (r, u)" by (cases "s es")
  with st(1) [rule_format, of es] st(2) \<open>wf_dir es\<close> show "wf_dir (snd (tree_then s t es))"
    by (cases r) (simp_all add: tree_then_def)
qed

lemma keeps_wf_steps [simp]: "(\<And>x. keeps_wf (f x)) \<Longrightarrow> keeps_wf (tree_steps f xs)"
  by (induction xs) simp_all

lemma keeps_wf_write_filepath [simp]: "keeps_wf (write_filepath pj blobs st f)"
  by (auto simp: write_filepath_def write_content_def Let_def split: sum.split option.split)

lemma wf_dir_map_of: "wf_dir ((n, t) # es) \<Longrightarrow> map_of es n = None"
  by (auto simp: wf_dir_Cons map_of_eq_None_iff)

lemma read_file_later:
  assumes "wf_dir ((n, t) # es)" "read_file es p \<noteq> None"
  shows "read_file ((n, t) # es) p \<noteq> None"
  using assms wf_dir_map_of [OF assms(1)] by (cases p) (auto simp: read_file_Cons)

lemma find_node_later:
  assumes "wf_dir ((n, t) # es)" "find_node es p = Some u" "p \<noteq> []"
  shows "find_node ((n, t) # es) p = Some u"
  using assms(2,3) wf_dir_map_of [OF assms(1)] by (cases p) auto

lemma collect_all_sound:
  "p \<in> set (collect_all_recursive pj base es) \<Longrightarrow> wf_dir es \<Longrightarrow> \<exists>r. p = base @ r \<and> read_file es r \<noteq> None"
proof (induction pj base es rule: collect_all_recursive.induct)
  case (2 pj base n b es)
  show ?case
  proof (cases "p \<in> set (collect_all_recursive pj base es)")
    case True
    then obtain r where "p = base @ r" "read_file es r \<noteq> None" using 2 by auto
    then show ?thesis using read_file_later [OF 2(3)] by blast
  next
    case False
    then have "p = base @ [n]" using 2(2) by (auto split: if_splits)
    then show ?thesis by (auto simp: read_file_Cons)
  qed
next
  case (3 pj base n sub es)
  show ?case
  proof (cases "p \<in> set (collect_all_recursive pj base es)")
    case True
    then obtain r where "p = base @ r" "read_file es r \<noteq> None" using 3 by auto
    then show ?thesis using read_file_later [OF 3(4)] by blast
  next
    case False
    then have sub: "walk_enters pj (base @ [n]) True" "p \<in> set (collect_all_recursive pj (base @ [n]) sub)"
      using 3(3) by (auto split: if_splits)
    then obtain r where "p = (base @ [n]) @ r" "read_file sub r \<noteq> None" using 3(1,4) by auto
    then show ?thesis by (intro exI [of _ "n # r"]) (simp add: read_file_Cons)
  qed
qed simp

lemma collect_rs_subset: "p \<in> set (collect_rs_recursive pj base es) \<Longrightarrow> p \<in> set (collect_all_recursive pj base es)"
  by (induction pj base es rule: collect_rs_recursive.induct) (auto split: if_splits)

lemma collect_empty_sound:
  "p \<in> set (collect_empty_dirs_recursive pj base es) \<Longrightarrow> wf_dir es \<Longrightarrow>
   \<exists>r sub. p = base @ r \<and> r \<noteq> [] \<and> find_node es r = Some (Dir sub) \<and>
     \<not> list_ex is_sub_dir sub \<and> \<not> list_ex is_regular sub"
proof (induction pj base es rule: collect_empty_dirs_recursive.induct)
  case (2 pj base n b es)
  then obtain r sub where "p = base @ r" "r \<noteq> []" "find_node es r = Some (Dir sub)"
      "\<not> list_ex is_sub_dir sub \<and> \<not> list_ex is_regular sub" by auto
  then show ?case using find_node_later [OF 2(3)] by blast
next
  case (3 pj base n sub es)
  show ?case
  proof (cases "p \<in> set (collect_empty_dirs_recursive pj base es)")
    case True
    then obtain r u where "p = base @ r" "r \<noteq> []" "find_node es r = Some (Dir u)"
        "\<not> list_ex is_sub_dir u \<and> \<not> list_ex is_regular u" using 3 by auto
    then show ?thesis using find_node_later [OF 3(4)] by blast
  next
    case False
    show ?thesis
    proof (cases "list_ex is_sub_dir sub \<or> list_ex is_regular sub")
      case True
      then have "walk_enters pj (base @ [n]) True" "p \<in> set (collect_empty_dirs_recursive pj (base @ [n]) sub)"
        using False 3(3) by (auto split: if_splits)
      then obtain r u where "p = (base @ [n]) @ r" "find_node sub r = Some (Dir u)"
          "\<not> list_ex is_sub_dir u \<and> \<not> list_ex is_regular u" using 3(1,4) True by auto
      then show ?thesis by (intro exI [of _ "n # r"] exI [of _ u]) simp
    next
      case False
      with \<open>p \<notin> set (collect_empty_dirs_recursive pj base es)\<close> have "p = base @ [n]"
        using 3(3) by (auto split: if_splits)
      then show ?thesis using False by (intro exI [of _ "[n]"] exI [of _ sub]) simp
    qed
  qed
qed simp

lemma find_node_append:
  "find_node es p = Some (Dir sub) \<Longrightarrow> find_node es (p @ q) = find_node sub q"
  by (induction p arbitrary: es) (auto split: option.splits tree.splits if_splits)

text \<open>A directory that counts as empty holds hidden directories only.\<close>

lemma empty_dir_children:
  assumes "\<not> list_ex is_sub_dir sub" "\<not> list_ex is_regular sub" "find_node sub (m # r) \<noteq> None"
  shows "hidden m"
proof -
  from assms(3) obtain t where "(m, t) \<in> set sub" by (auto dest: map_of_SomeD split: option.splits)
  then show ?thesis using assms(1,2) by (cases t) (auto simp: list_ex_iff)
qed

lemma extension_suffix:
  assumes "extension n = Some e"
  shows "\<exists>x. n = x @ ''.'' @ e"
proof -
  have "n = rev (dropWhile (\<lambda>c. c \<noteq> CHR ''.'') (rev n)) @ rev (takeWhile (\<lambda>c. c \<noteq> CHR ''.'') (rev n))"
    by (metis rev_append rev_rev_ident takeWhile_dropWhile_id)
  moreover have "dropWhile (\<lambda>c. c \<noteq> CHR ''.'') (rev n) = CHR ''.'' # tl (dropWhile (\<lambda>c. c \<noteq> CHR ''.'') (rev n))"
  proof -
    have "\<not> length (dropWhile (\<lambda>c. c \<noteq> CHR ''.'') (rev n)) \<le> 1"
      using assms by (auto simp: extension_def Let_def split: if_splits)
    then have ne: "dropWhile (\<lambda>c. c \<noteq> CHR ''.'') (rev n) \<noteq> []"
      by (metis list.size(3) zero_le)
    then have "hd (dropWhile (\<lambda>c. c \<noteq> CHR ''.'') (rev n)) = CHR ''.''"
      using hd_dropWhile by fast
    with ne show ?thesis by (metis list.collapse)
  qed
  moreover have "e = rev (takeWhile (\<lambda>c. c \<noteq> CHR ''.'') (rev n))"
    using assms by (auto simp: extension_def Let_def split: if_splits)
  ultimately show ?thesis by (metis append.assoc append_Cons append_Nil rev.simps(2))
qed

lemma path_string_suffix: "p \<noteq> [] \<Longrightarrow> \<exists>x. path_string p = x @ last p"
  unfolding path_string_def
proof (induction "''/''" p rule: join.induct)
  case (3 s t ts)
  then obtain x where "join ''/'' (t # ts) = x @ last (t # ts)" by auto
  then show ?case by (intro exI [of _ "s @ ''/'' @ x"]) simp
qed auto

lemma rs_path_suffix:
  assumes "extension (last p) = Some ''rs''" "p \<noteq> []"
  shows "ends_with (path_string p) ''.rs''"
proof -
  obtain x y where "path_string p = x @ last p" "last p = y @ ''.'' @ ''rs''"
    using path_string_suffix [OF assms(2)] extension_suffix [OF assms(1)] by blast
  then show ?thesis by (simp add: ends_with_def)
qed

text \<open>The tree after a checkout of a plain state into an empty directory.\<close>

lemma checkout_tree:
  assumes run: "write_state_to_working_dir pj blobs st [] = (None, es)" and plain: "plain_state pj st"
  shows "wf_dir es"
    and "\<forall>f\<in>set (cone_files pj st). file_content pj blobs st f \<noteq> None \<and>
      read_file es (path_components f) = file_content pj blobs st f"
    and "\<forall>q. read_file es q \<noteq> None \<longrightarrow> (\<exists>f\<in>set (cone_files pj st). q = path_components f)"
    and "\<forall>q. path_exists es q \<longleftrightarrow> q = [] \<or> (\<exists>f\<in>set (cone_files pj st). prefix q (path_components f)) \<or>
      (\<exists>d\<in>set (state_dirs pj st). prefix q (path_components d))"
proof -
  have "collect_rs_files pj [] = []" by (simp add: collect_rs_files_def)
  with run have "tree_then (tree_steps (write_filepath pj blobs st) (extract_filepaths_from_state pj st))
      (tree_steps (\<lambda>d. create_dir_all (path_components d)) (state_dirs pj st)) [] = (None, es)"
    by (simp add: write_state_to_working_dir_def tree_then_def tree_skip_def)
  moreover from this obtain u where
      u: "tree_steps (write_filepath pj blobs st) (extract_filepaths_from_state pj st) [] = (None, u)"
      "tree_steps (\<lambda>d. create_dir_all (path_components d)) (state_dirs pj st) u = (None, es)"
    by (auto simp: tree_then_def split: prod.splits option.splits)
  moreover have "keeps_wf (tree_then (tree_steps (write_filepath pj blobs st) (extract_filepaths_from_state pj st))
      (tree_steps (\<lambda>d. create_dir_all (path_components d)) (state_dirs pj st)))" by simp
  ultimately show "wf_dir es" unfolding keeps_wf_def by (metis snd_conv wf_dir.simps(1))
  have "\<forall>f\<in>set (extract_filepaths_from_state pj st). matches_file_path (pj_cone pj) f \<longrightarrow> plain_file pj st f"
    using plain by (auto simp: plain_state_def cone_files_def list_all_iff)
  note files = write_plain_files [OF u(1) this]
  note dirs = create_dirs_adds [OF u(2)]
  have cone: "(\<exists>f\<in>set (cone_files pj st). P f) \<longleftrightarrow>
      (\<exists>f\<in>set (extract_filepaths_from_state pj st). matches_file_path (pj_cone pj) f \<and> P f)" for P
    by (auto simp: cone_files_def)
  show "\<forall>f\<in>set (cone_files pj st). file_content pj blobs st f \<noteq> None \<and>
      read_file es (path_components f) = file_content pj blobs st f"
  proof
    fix f assume f: "f \<in> set (cone_files pj st)"
    then have "path_string (path_components f) = f"
      using plain by (auto simp: plain_state_def list_all_iff plain_file_def plain_name_def)
    with f files dirs show "file_content pj blobs st f \<noteq> None \<and>
        read_file es (path_components f) = file_content pj blobs st f"
      by (auto simp: cone_files_def)
  qed
  show "\<forall>q. read_file es q \<noteq> None \<longrightarrow> (\<exists>f\<in>set (cone_files pj st). q = path_components f)"
    unfolding cone using files dirs by (metis read_file_empty)
  show "\<forall>q. path_exists es q \<longleftrightarrow> q = [] \<or> (\<exists>f\<in>set (cone_files pj st). prefix q (path_components f)) \<or>
      (\<exists>d\<in>set (state_dirs pj st). prefix q (path_components d))"
    unfolding cone using files dirs by simp
qed

lemma plain_file_content:
  assumes "plain_file pj st f" "file_content pj blobs st f = Some b" "ends_with f ''.rs''"
  shows "pj_text pj b = Some (unparse_or_default pj st f)"
  using assms by (auto simp: plain_file_def file_content_def unparse_or_default_def split: option.splits)

lemma traverse_const: "(\<And>x. x \<in> set xs \<Longrightarrow> f x = Inr c) \<Longrightarrow> traverse f xs = Inr (List.map (\<lambda>_. c) xs)"
  by (induction xs) simp_all

lemma checkout_sources:
  assumes run: "write_state_to_working_dir pj blobs st [] = (None, es)" and plain: "plain_state pj st"
    and p: "p \<in> set (collect_rs_files pj es)"
  shows "read_text pj es p = Inr (unparse_or_default pj st (path_string p))"
proof -
  note tree = checkout_tree [OF run plain]
  have "p \<in> set (collect_all_recursive pj [] es)" "extension (last p) = Some ''rs''"
    using p collect_rs_subset collect_rs_extension by (auto simp: collect_rs_files_def)
  then have "read_file es p \<noteq> None" using collect_all_sound [OF _ tree(1)] by fastforce
  then obtain f where f: "f \<in> set (cone_files pj st)" "p = path_components f" using tree(3) by blast
  have pf: "plain_file pj st f" using plain f(1) by (auto simp: plain_state_def list_all_iff)
  then have name: "path_string p = f" "p \<noteq> []" by (auto simp: plain_file_def plain_name_def f(2))
  obtain b where b: "file_content pj blobs st f = Some b" "read_file es p = Some b"
    using tree(2) f by auto
  have "ends_with f ''.rs''" using rs_path_suffix [OF \<open>extension (last p) = Some ''rs''\<close> name(2)] name(1) by simp
  then show ?thesis using plain_file_content [OF pf b(1)] b(2) by (simp add: read_text_def name(1))
qed

lemma checkout_blobs:
  assumes run: "write_state_to_working_dir pj blobs st [] = (None, es)" and plain: "plain_state pj st"
    and honest: "\<forall>h b. blobs h = Some b \<longrightarrow> blake3 K b = h" and p: "p \<in> set (blob_candidates pj es st)"
  shows "blob_delta K es st p = None"
proof -
  note tree = checkout_tree [OF run plain]
  have "p \<in> set (collect_all_recursive pj [] es)" "\<not> ends_with (path_string p) ''.rs''"
    using p by (auto simp: blob_candidates_def collect_all_files_def)
  then have "read_file es p \<noteq> None" using collect_all_sound [OF _ tree(1)] by fastforce
  then obtain f where f: "f \<in> set (cone_files pj st)" "p = path_components f" using tree(3) by blast
  have pf: "plain_file pj st f" using plain f(1) by (auto simp: plain_state_def list_all_iff)
  then have name: "path_string p = f" by (auto simp: plain_file_def plain_name_def f(2))
  obtain b where b: "file_content pj blobs st f = Some b" "read_file es p = Some b"
    using tree(2) f by auto
  obtain token where "st [''file'', f] = Some token" "is_blob_token token"
    using pf \<open>\<not> ends_with (path_string p) ''.rs''\<close> name by (auto simp: plain_file_def split: option.splits)
  then show ?thesis
    using b honest \<open>\<not> ends_with (path_string p) ''.rs''\<close> name by (auto simp: blob_delta_def file_content_def Let_def)
qed

lemma checkout_no_new_dirs:
  assumes run: "write_state_to_working_dir pj blobs st [] = (None, es)" and plain: "plain_state pj st"
  shows "new_dirs pj es st = []"
proof -
  note tree = checkout_tree [OF run plain]
  have "path_string p \<in> set (state_dirs pj st)" if p: "p \<in> set (collect_empty_dirs pj es)" for p
  proof -
    have "p \<in> set (collect_empty_dirs_recursive pj [] es)" using p by (simp add: collect_empty_dirs_def)
    from collect_empty_sound [OF this tree(1)] obtain sub where sub: "p \<noteq> []" "find_node es p = Some (Dir sub)" "\<not> list_ex is_sub_dir sub" "\<not> list_ex is_regular sub" by auto
    have below: "r = []" if "path_exists es (p @ r)" "list_all (\<lambda>n. \<not> hidden n) (p @ r)" for r
      using empty_dir_children [OF sub(3,4)] that
      by (cases r) (auto simp: path_exists_def find_node_append [OF sub(2)])
    have "path_exists es p" using sub(2) by (simp add: path_exists_def)
    then consider (source) f where "f \<in> set (cone_files pj st)" "prefix p (path_components f)"
      | (directory) d where "d \<in> set (state_dirs pj st)" "prefix p (path_components d)"
      using tree(4) sub(1) by blast
    then show ?thesis
    proof cases
      case source
      then have "list_all (\<lambda>n. \<not> hidden n) (path_components f)"
        using plain by (auto simp: plain_state_def list_all_iff plain_file_def plain_name_def)
      moreover have "path_exists es (path_components f)" using tree(4) source(1) by blast
      ultimately have "p = path_components f" using below source(2) by (auto elim!: prefixE)
      then have "read_file es p \<noteq> None" using tree(2) source(1) by auto
      then show ?thesis using sub(2) by (simp add: read_file_def)
    next
      case directory
      then have d: "plain_name d" using plain by (auto simp: plain_state_def list_all_iff)
      moreover have "path_exists es (path_components d)" using tree(4) directory(1) by blast
      ultimately have "p = path_components d" using below directory(2) by (auto simp: plain_name_def elim!: prefixE)
      then show ?thesis using d directory(1) by (simp add: plain_name_def)
    qed
  qed
  then show ?thesis by (auto simp: new_dirs_def filter_empty_conv)
qed

lemma checkout_delta:
  assumes "write_state_to_working_dir pj blobs st [] = (None, es)" "plain_state pj st" "project_ok pj st"
    and "\<forall>h b. blobs h = Some b \<longrightarrow> blake3 K b = h"
  shows "compute_working_directory_delta K pj es st = Inr ([], []) \<and>
    (is_full (pj_cone pj) \<longrightarrow> check_working_dir_clean pj es st = Inr ())"
proof -
  note tree = checkout_tree [OF assms(1,2)]
  have order: "set (pj_arrival pj as) = set as" "set (pj_set_order pj S) = fset S" for as S
    using assms(3) by (simp_all add: project_ok_def arrival_ok_def)
  have there: "path_exists es (path_components f)" if "f \<in> set (cone_files pj st)" for f
    using tree(4) that by blast
  have "rs_delta pj es st p = Inr ([], [])" if "p \<in> set (collect_rs_files pj es)" for p
    using checkout_sources [OF assms(1,2) that] by (simp add: rs_delta_def)
  then have sources: "traverse (rs_delta pj es st) (collect_rs_files pj es) =
      Inr (List.map (\<lambda>_. ([], [])) (collect_rs_files pj es))" by (rule traverse_const)
  have blobs: "List.map_filter (blob_delta K es st) (blob_candidates pj es st) = []"
    using checkout_blobs [OF assms(1,2,4)] by (auto simp: List.map_filter_def filter_empty_conv)
  have gone: "deleted_keys pj es st = []"
    using there by (auto simp: deleted_keys_def cone_files_def filter_empty_conv)
  have gone_dirs: "removed_dirs pj es st = []"
    using tree(4) by (auto simp: removed_dirs_def order filter_empty_conv fset_of_list.rep_eq)
  have "pj_arrival pj [] = []" using order(1) [of "[]"] by simp
  then have "compute_working_directory_delta K pj es st = Inr ([], [])"
    by (simp add: compute_working_directory_delta_def sources blobs gone gone_dirs
        checkout_no_new_dirs [OF assms(1,2)] Let_def o_def)
  moreover have "check_working_dir_clean pj es st = Inr ()" if "is_full (pj_cone pj)"
  proof -
    have "rs_clean pj es st p = Inr ()" if "p \<in> set (collect_rs_files pj es)" for p
      using checkout_sources [OF assms(1,2) that] by (simp add: rs_clean_def)
    then have "traverse (rs_clean pj es st) (collect_rs_files pj es) =
        Inr (List.map (\<lambda>_. ()) (collect_rs_files pj es))" by (rule traverse_const)
    then show ?thesis
      using there that by (auto simp: check_working_dir_clean_def cone_files_def matches_file_path_def list_ex_iff)
  qed
  ultimately show ?thesis by simp
qed


section \<open>A sample project\<close>

definition page :: "u8 \<Rightarrow> bytes" where
  "page n = replicate 32 n"

definition sample_project :: project where
  "sample_project = \<lparr>pj_ignored = (\<lambda>p d. p = ''skipped''), pj_cone = \<lparr>patterns = []\<rparr>, pj_track_all = False,
     pj_unparse = (\<lambda>st f. case st [''file'', f, ''src''] of None \<Rightarrow> Some [] | Some b \<Rightarrow> Some (bytes_str b)),
     pj_diff = (\<lambda>old new. Inr ([Insert [''src''] (str_bytes new)], [])),
     pj_text = (\<lambda>b. Some (bytes_str b)), pj_text_lossy = bytes_str, pj_decode_atom = (\<lambda>b. None),
     pj_keys = (\<lambda>st. filter (\<lambda>k. st k \<noteq> None)
       [[''file'', ''a.md''], [''file'', ''b.md''], [''file'', ''lib.rs'', ''src''], [''dir'', ''docs'']]),
     pj_set_order = sorted_list_of_fset, pj_arrival = (\<lambda>as. as)\<rparr>"

definition two_pages :: dir where
  "two_pages = [(''a.md'', File (page 2)), (''b.md'', File (page 5))]"

text \<open>Two views; the file \<^verbatim>\<open>b.md\<close> is in one of them only.\<close>

definition page_views :: workspace where
  "page_views =
     \<lparr>rp_graph = graph_new,
      rp_store = fmap_of_list [([2], (node 2 [])\<lparr>ch_atoms := [Blob ''a.md'' (page 2) 32, Blob ''b.md'' (page 5) 32]\<rparr>),
        ([3], (node 3 [])\<lparr>ch_atoms := [Blob ''a.md'' (page 3) 32]\<rparr>)],
      rp_epochs = fmempty, rp_views = fmap_of_list [(''main'', {|[2]|}), (''dev'', {|[3]|})],
      ws_blobs = fmap_of_list [(page 2, page 2), (page 3, page 3), (page 5, page 5)],
      ws_conflict = None, ws_log = [], ws_redo = [], ws_restack = None,
      ws_diffedit = None, ws_pending_ai = False\<rparr>"

lemma sample_arrival: "arrival_ok sample_project"
  by (simp add: arrival_ok_def sample_project_def)

definition sample_keys :: "node_path list" where
  "sample_keys = [[''file'', ''a.md''], [''file'', ''b.md''], [''file'', ''lib.rs'', ''src''], [''dir'', ''docs'']]"

lemma sample_ok: "dom st \<subseteq> set sample_keys \<Longrightarrow> project_ok sample_project st"
  unfolding project_ok_def
proof (intro conjI)
  assume "dom st \<subseteq> set sample_keys"
  then have "set (filter (\<lambda>k. st k \<noteq> None) sample_keys) = dom st" by auto
  then show "set (pj_keys sample_project st) = dom st" by (simp only: sample_project_def project.simps sample_keys_def)
next
  show "\<forall>S. set (pj_set_order sample_project S) = fset S" by (simp add: sample_project_def)
qed (rule sample_arrival)

lemma switch_sample:
  "case switch_view toy_crypto toy_env sample_project ''main'' ''dev'' page_views two_pages of
     Some (r, w', es', now) \<Rightarrow>
       r = Inr () \<and> now = ''dev'' \<and> es' = [(''a.md'', File (page 3)), (''b.md'', File (page 5))] \<and>
       (case state_of_view toy_crypto toy_env ''dev'' w' of
          Some (Inr st, w'') \<Rightarrow> [''b.md''] \<notin> set (written_paths sample_project st) \<and>
            snapped_next sample_project st [''b.md'']
        | _ \<Rightarrow> False)
   | _ \<Rightarrow> False"
  by code_simp

theorem switch_discards_edits_witness:
  "\<exists>w' es' out. switch_view toy_crypto toy_env sample_project ''main'' ''dev'' page_views two_pages =
       Some (Inr (), w', es', ''dev'') \<and>
     switch_view toy_crypto toy_env sample_project ''main'' ''dev'' page_views
       [(''a.md'', File [9]), (''b.md'', File (page 5))] = Some (Inr (), w', out, ''dev'') \<and>
     read_file out [''a.md''] = Some (page 3)"
proof -
  obtain w' es' where run: "switch_view toy_crypto toy_env sample_project ''main'' ''dev'' page_views two_pages =
        Some (Inr (), w', es', ''dev'')" "read_file es' [''a.md''] = Some (page 3)"
    using switch_sample by (auto simp: read_file_Cons split: option.splits sum.splits prod.splits)
  moreover have "read_file two_pages [''a.md''] = Some (page 2)" "page 3 \<noteq> page 2"
      "extension (last [''a.md'']) \<noteq> Some ''rs''"
      "put_file two_pages [''a.md''] [9] = Some [(''a.md'', File [9]), (''b.md'', File (page 5))]"
    by code_simp+
  ultimately show ?thesis
    using switch_discards_edits [OF run(1), of "[''a.md'']" "page 2" "[9]"] by fastforce
qed


theorem clean_tree_delta_witness:
  "check_working_dir_clean sample_project [(''a.md'', File [9])] [[''file'', ''a.md''] \<mapsto> blob_token (page 2)] = Inr () \<and>
   (\<exists>atoms blobs. compute_working_directory_delta toy_crypto sample_project [(''a.md'', File [9])]
       [[''file'', ''a.md''] \<mapsto> blob_token (page 2)] = Inr (atoms, blobs) \<and> (\<forall>a\<in>set atoms. unseen_atom a))"
proof -
  have check: "check_working_dir_clean sample_project [(''a.md'', File [9])]
      [[''file'', ''a.md''] \<mapsto> blob_token (page 2)] = Inr ()" by code_simp
  have "project_ok sample_project [[''file'', ''a.md''] \<mapsto> blob_token (page 2)]"
    by (rule sample_ok) (simp add: sample_keys_def)
  with check clean_tree_delta [OF check] show ?thesis by blast
qed

definition sample_change :: change where
  "sample_change = (node 2 [])\<lparr>ch_atoms := [Blob ''a.md'' (page 2) 32,
     Insert [''file'', ''lib.rs'', ''src''] (page 3), Directory [''dir'', ''docs'']]\<rparr>"

definition sample_view :: workspace where
  "sample_view = page_views\<lparr>rp_store := fmap_of_list [([2], sample_change)]\<rparr>"

definition sample_state :: materialized_state where
  "sample_state = [[''file'', ''a.md''] \<mapsto> blob_token (page 2), [''file'', ''lib.rs'', ''src''] \<mapsto> page 3,
     [''dir'', ''docs''] \<mapsto> []]"

lemma sample_loaded:
  "hydrate sample_view ''main'' = Some (Inr (sample_view\<lparr>rp_graph := add_change graph_new sample_change\<rparr>))"
  by code_simp

lemma sample_materialized:
  "P (materialize (store_env toy_crypto toy_env (ws_blobs page_views))
       (sample_view\<lparr>rp_graph := add_change graph_new sample_change\<rparr>) ''main'') \<longleftrightarrow> P (Some (Inr sample_state))"
  by code_simp


end
