(* ===== verification/Wire.thy ===== *)
theory Wire
  imports Prelude
begin

text \<open>
  Big-endian integers on the wire, as \<^verbatim>\<open>u32::from_be_bytes\<close>, \<^verbatim>\<open>u64::from_be_bytes\<close> and
  \<^verbatim>\<open>BufMut::put_u32\<close> read and write them; shared by the bitmap decoder and the frame codec.
\<close>

definition from_be :: "bytes \<Rightarrow> nat" where
  "from_be bs = foldl (\<lambda>a b. a * 256 + unat b) 0 bs"

fun be_bytes :: "nat \<Rightarrow> nat \<Rightarrow> bytes" where
  "be_bytes 0 x = []"
| "be_bytes (Suc n) x = be_bytes n (x div 256) @ [word_of_nat (x mod 256)]"

definition be_word :: "bytes \<Rightarrow> 'a::len word" where
  "be_word bs = word_of_nat (from_be bs)"

lemma from_be_simps [simp]:
  "from_be [] = 0" "from_be (bs @ [b]) = from_be bs * 256 + unat b"
  by (simp_all add: from_be_def)

lemma length_be_bytes [simp]: "length (be_bytes n x) = n"
  by (induction n arbitrary: x) simp_all

lemma from_be_less: "from_be bs < 256 ^ length bs"
proof (induction bs rule: rev_induct)
  case (snoc b bs)
  have "unat b < 256" by (rule unat_u8_less)
  with snoc have "from_be bs * 256 + unat b < (from_be bs + 1) * 256" by simp
  also have "\<dots> \<le> 256 ^ length bs * 256" using snoc by (intro mult_le_mono1) simp
  finally show ?case by (simp add: mult.commute)
qed simp

lemma from_be_be_bytes [simp]: "from_be (be_bytes n x) = x mod 256 ^ n"
proof (induction n arbitrary: x)
  case (Suc n)
  have "x mod 256 < 256" by simp
  then have "unat (word_of_nat (x mod 256) :: u8) = x mod 256" by (simp add: unat_of_nat)
  moreover have "x mod (256 * 256 ^ n) = 256 * (x div 256 mod 256 ^ n) + x mod 256"
    by (rule mod_mult2_eq)
  ultimately show ?case by (simp add: Suc.IH)
qed simp

lemma be_bytes_from_be [simp]: "be_bytes (length bs) (from_be bs) = bs"
proof (induction bs rule: rev_induct)
  case (snoc b bs)
  have "unat b < 256" by (rule unat_u8_less)
  with snoc show ?case by simp
qed simp

lemma be_word_be_bytes:
  "(256::nat) ^ n \<le> 2 ^ LENGTH('a) \<Longrightarrow> x < 256 ^ n \<Longrightarrow> be_word (be_bytes n x) = (word_of_nat x :: 'a::len word)"
  by (simp add: be_word_def)

lemma unat_be_word: "(256::nat) ^ length bs \<le> 2 ^ LENGTH('a) \<Longrightarrow> unat (be_word bs :: 'a::len word) = from_be bs"
  using from_be_less [of bs] by (simp add: be_word_def unat_of_nat)

text \<open>The two widths in use.\<close>

definition put_u32 :: "u32 \<Rightarrow> bytes" where
  "put_u32 x = be_bytes 4 (unat x)"

definition put_u64 :: "u64 \<Rightarrow> bytes" where
  "put_u64 x = be_bytes 8 (unat x)"

lemma length_put [simp]: "length (put_u32 x) = 4" "length (put_u64 y) = 8"
  by (simp_all add: put_u32_def put_u64_def)

lemma be_word_put [simp]: "be_word (put_u32 x) = x" "be_word (put_u64 y) = y"
proof -
  have "unat x < 2 ^ LENGTH(32)" "unat y < 2 ^ LENGTH(64)" by (rule unsigned_less)+
  then show "be_word (put_u32 x) = x" "be_word (put_u64 y) = y"
    unfolding put_u32_def put_u64_def by (subst be_word_be_bytes; simp)+
qed

lemma put_be_word:
  "length bs = 4 \<Longrightarrow> put_u32 (be_word bs) = bs" "length cs = 8 \<Longrightarrow> put_u64 (be_word cs) = cs"
proof -
  assume l: "length bs = 4"
  then have "unat (be_word bs :: u32) = from_be bs" by (intro unat_be_word) simp
  with l show "put_u32 (be_word bs) = bs" using be_bytes_from_be [of bs] by (simp add: put_u32_def)
next
  assume l: "length cs = 8"
  then have "unat (be_word cs :: u64) = from_be cs" by (intro unat_be_word) simp
  with l show "put_u64 (be_word cs) = cs" using be_bytes_from_be [of cs] by (simp add: put_u64_def)
qed

lemma put_u32_bytes:
  "put_u32 x = [word_of_nat (unat x div 256 div 256 div 256 mod 256), word_of_nat (unat x div 256 div 256 mod 256),
     word_of_nat (unat x div 256 mod 256), word_of_nat (unat x mod 256)]"
proof -
  have four: "(4::nat) = Suc (Suc (Suc (Suc 0)))" by simp
  show ?thesis unfolding put_u32_def four be_bytes.simps by simp
qed

end
