(* ===== verification/Ewah.thy ===== *)
theory Ewah
  imports Wire
begin

text \<open>
  EWAH-compressed bitmaps (\<^verbatim>\<open>arc-algebra/src/ewah.rs\<close>): decoding of the serialised form and
  the enumeration of the set bits, with a callback that may stop it.
\<close>

section \<open>Decoding\<close>

datatype ewah_decode_error = UnexpectedEof string | LengthOverflow

record ewah_bitmap =
  num_bits :: u32
  ewah_words :: "u64 list"
  rlw :: u32

definition read_u32_be :: "bytes \<Rightarrow> string \<Rightarrow> ewah_decode_error + u32 \<times> bytes" where
  "read_u32_be input ctx =
     (if length input < 4 then Inl (UnexpectedEof ctx)
      else Inr (be_word (take 4 input), drop 4 input))"

text \<open>\<^verbatim>\<open>chunks_exact(8)\<close> of the word payload.\<close>

fun read_words :: "nat \<Rightarrow> bytes \<Rightarrow> u64 list" where
  "read_words 0 bs = []"
| "read_words (Suc n) bs = be_word (take 8 bs) # read_words n (drop 8 bs)"

definition ewah_decode :: "bytes \<Rightarrow> ewah_decode_error + ewah_bitmap \<times> bytes" where
  "ewah_decode input =
     bind_result (read_u32_be input ''num_bits'') (\<lambda>(nb, rest).
     bind_result (read_u32_be rest ''word_len'') (\<lambda>(wl, rest).
       let word_len = unat wl; bytes_len = word_len * 8
       in if bytes_len > usize_max then Inl LengthOverflow
          else if length rest < bytes_len then Inl (UnexpectedEof ''word payload'')
          else bind_result (read_u32_be (drop bytes_len rest) ''rlw'') (\<lambda>(r, rest').
            Inr (\<lparr>num_bits = nb, ewah_words = read_words word_len (take bytes_len rest), rlw = r\<rparr>,
                 rest'))))"

section \<open>Enumerating the set bits\<close>

definition bitmap_len :: "ewah_bitmap \<Rightarrow> nat" where
  "bitmap_len bm = unat (num_bits bm)"

definition rlw_runbit_is_set :: "u64 \<Rightarrow> bool" where
  "rlw_runbit_is_set w \<longleftrightarrow> w AND 1 = 1"

definition rlw_running_len :: "u64 \<Rightarrow> u64" where
  "rlw_running_len w = drop_bit 1 w AND (push_bit 32 1 - 1)"

definition rlw_running_len_bits :: "u64 \<Rightarrow> u64" where
  "rlw_running_len_bits w = rlw_running_len w * 64"

definition rlw_literal_words :: "u64 \<Rightarrow> u64" where
  "rlw_literal_words w = drop_bit 33 w"

text \<open>
  The callback takes an index and its own state and says whether to go on.  Each loop either
  returns from the whole function or leaves an index (and the words not read) behind.
\<close>

type_synonym 's visitor = "nat \<Rightarrow> 's \<Rightarrow> bool \<times> 's"

datatype ('c, 's) flow = Return 's | Proceed 'c 's

fun run_loop :: "nat \<Rightarrow> 's visitor \<Rightarrow> nat \<Rightarrow> nat \<Rightarrow> 's \<Rightarrow> (nat, 's) flow" where
  "run_loop limit f 0 index s = Proceed index s"
| "run_loop limit f (Suc k) index s =
     (if index \<ge> limit then Return s
      else case f index s of (go, s') \<Rightarrow>
        if \<not> go then Return s' else run_loop limit f k (index + 1) s')"

text \<open>\<^verbatim>\<open>for bit_idx in 0..64\<close>, with the number of bits still to do.\<close>

fun bit_loop :: "nat \<Rightarrow> 's visitor \<Rightarrow> u64 \<Rightarrow> nat \<Rightarrow> nat \<Rightarrow> 's \<Rightarrow> (nat, 's) flow" where
  "bit_loop limit f literal 0 index s = Proceed index s"
| "bit_loop limit f literal (Suc k) index s =
     (if index \<ge> limit then Return s
      else if literal AND push_bit (63 - k) 1 \<noteq> 0
      then (case f index s of (go, s') \<Rightarrow>
        if \<not> go then Return s' else bit_loop limit f literal k (index + 1) s')
      else bit_loop limit f literal k (index + 1) s)"

fun literal_loop ::
  "nat \<Rightarrow> 's visitor \<Rightarrow> nat \<Rightarrow> u64 list \<Rightarrow> nat \<Rightarrow> 's \<Rightarrow> (u64 list \<times> nat, 's) flow" where
  "literal_loop limit f 0 ws index s = Proceed (ws, index) s"
| "literal_loop limit f (Suc n) ws index s =
     (if index \<ge> limit then Return s
      else case ws of [] \<Rightarrow> Return s
        | literal # ws' \<Rightarrow>
            (case bit_loop limit f literal 64 index s of
               Return s' \<Rightarrow> Return s'
             | Proceed index' s' \<Rightarrow> literal_loop limit f n ws' index' s'))"

lemma literal_loop_shrinks:
  "literal_loop limit f n ws index s = Proceed (ws', index') s' \<Longrightarrow> length ws' \<le> length ws"
  by (induction n arbitrary: ws index s)
    (fastforce split: if_splits list.splits flow.splits)+

definition run_or_skip :: "nat \<Rightarrow> 's visitor \<Rightarrow> u64 \<Rightarrow> nat \<Rightarrow> 's \<Rightarrow> (nat, 's) flow" where
  "run_or_skip limit f w index s =
     (if rlw_runbit_is_set w then run_loop limit f (unat (rlw_running_len_bits w)) index s
      else Proceed (saturating_add index (unat (rlw_running_len_bits w))) s)"

function word_loop :: "nat \<Rightarrow> 's visitor \<Rightarrow> u64 list \<Rightarrow> nat \<Rightarrow> 's \<Rightarrow> 's" where
  "word_loop limit f [] index s = s"
| "word_loop limit f (w # ws) index s =
     (if index \<ge> limit then s
      else case run_or_skip limit f w index s of
        Return s' \<Rightarrow> s'
      | Proceed index' s' \<Rightarrow>
          (case literal_loop limit f (unat (rlw_literal_words w)) ws index' s' of
             Return s'' \<Rightarrow> s''
           | Proceed (ws', index'') s'' \<Rightarrow> word_loop limit f ws' index'' s''))"
  by pat_completeness auto

termination word_loop
  by (relation "measure (\<lambda>(limit, f, ws, index, s). length ws)")
    (auto dest: literal_loop_shrinks simp: le_imp_less_Suc)

definition for_each_set_bit :: "ewah_bitmap \<Rightarrow> 's visitor \<Rightarrow> 's \<Rightarrow> 's" where
  "for_each_set_bit bm f s = word_loop (bitmap_len bm) f (ewah_words bm) 0 s"

section \<open>Round trip of the serialised form\<close>

definition ewah_encode :: "ewah_bitmap \<Rightarrow> bytes" where
  "ewah_encode bm = put_u32 (num_bits bm) @ put_u32 (word_of_nat (length (ewah_words bm))) @
     concat (List.map put_u64 (ewah_words bm)) @ put_u32 (rlw bm)"

lemma length_payload [simp]: "length (concat (List.map put_u64 ws)) = length ws * 8"
  by (induction ws) simp_all

lemma read_words_encode [simp]: "read_words (length ws) (concat (List.map put_u64 ws)) = ws"
  by (induction ws) simp_all

lemma encode_read_words:
  "length bs = n * 8 \<Longrightarrow> concat (List.map put_u64 (read_words n bs)) = bs"
proof (induction n arbitrary: bs)
  case (Suc n)
  then have "put_u64 (be_word (take 8 bs)) = take 8 bs" by (intro put_be_word) simp
  with Suc show ?case by simp
qed simp

lemma length_read_words [simp]: "length (read_words n bs) = n"
  by (induction n arbitrary: bs) simp_all

lemma read_u32_be_Inr_iff:
  "read_u32_be input ctx = Inr (x, rest) \<longleftrightarrow> input = put_u32 x @ rest"
proof
  assume "read_u32_be input ctx = Inr (x, rest)"
  then have "4 \<le> length input" "x = be_word (take 4 input)" "rest = drop 4 input"
    by (auto simp: read_u32_be_def split: if_splits)
  then show "input = put_u32 x @ rest" using put_be_word(1) [of "take 4 input"] by simp
qed (simp add: read_u32_be_def)

lemma payload_bound: "unat (wl :: u32) * 8 \<le> usize_max"
proof -
  have "unat wl < 2 ^ LENGTH(32)" by (rule unsigned_less)
  then show ?thesis by (simp add: usize_max_def)
qed

text \<open>
  The decoder accepts exactly the encodings: it returns a bitmap and the bytes behind it
  if and only if the input is the serialised bitmap followed by those bytes.
\<close>

theorem ewah_decode_exact:
  "ewah_decode input = Inr (bm, rest) \<longleftrightarrow>
     input = ewah_encode bm @ rest \<and> length (ewah_words bm) < 2 ^ 32"
proof
  assume "ewah_decode input = Inr (bm, rest)"
  then obtain r1 wl r2 r where h: "input = put_u32 (num_bits bm) @ r1" "r1 = put_u32 wl @ r2"
    "unat wl * 8 \<le> length r2" "drop (unat wl * 8) r2 = put_u32 (rlw bm) @ rest"
    "ewah_words bm = read_words (unat wl) (take (unat wl * 8) r2)"
    unfolding ewah_decode_def by (auto simp: result_simps Let_def read_u32_be_Inr_iff split: if_splits)
  have "r2 = take (unat wl * 8) r2 @ put_u32 (rlw bm) @ rest"
    by (metis append_take_drop_id h(4))
  moreover have "concat (List.map put_u64 (ewah_words bm)) = take (unat wl * 8) r2"
    unfolding h(5) by (rule encode_read_words) (use h(3) in simp)
  moreover have "length (ewah_words bm) = unat wl" by (simp add: h(5))
  moreover have "unat wl < 2 ^ LENGTH(32)" by (rule unsigned_less)
  ultimately show "input = ewah_encode bm @ rest \<and> length (ewah_words bm) < 2 ^ 32"
    using h(1,2) by (simp add: ewah_encode_def)
next
  assume h: "input = ewah_encode bm @ rest \<and> length (ewah_words bm) < 2 ^ 32"
  let ?n = "length (ewah_words bm)"
  have n: "unat (word_of_nat ?n :: u32) = ?n" using h by (simp add: unat_of_nat)
  have "\<not> usize_max < ?n * 8" using payload_bound [of "word_of_nat ?n"] n by simp
  moreover have "read_u32_be (put_u32 x @ u) c = Inr (x, u)" for x u c
    by (simp add: read_u32_be_Inr_iff)
  ultimately show "ewah_decode input = Inr (bm, rest)"
    unfolding ewah_decode_def using h n by (simp add: ewah_encode_def Let_def)
qed

section \<open>The bits a bitmap stands for\<close>

definition word_bits :: "u64 \<Rightarrow> bool list" where
  "word_bits w = List.map (bit w) [0..<64]"

fun expand :: "u64 list \<Rightarrow> bool list" where
  "expand [] = []"
| "expand (w # ws) =
     (let n = unat (rlw_literal_words w)
      in replicate (unat (rlw_running_len_bits w)) (rlw_runbit_is_set w) @
         concat (List.map word_bits (take n ws)) @
         (if n \<le> length ws then expand (drop n ws) else []))"

declare expand.simps [simp del]

text \<open>The indices of the true entries of a bit list that starts at \<open>i\<close>, below the limit.\<close>

fun ones :: "nat \<Rightarrow> nat \<Rightarrow> bool list \<Rightarrow> nat list" where
  "ones limit i [] = []"
| "ones limit i (b # bs) = (if b \<and> i < limit then i # ones limit (i + 1) bs else ones limit (i + 1) bs)"

text \<open>Visiting a list of indices until the callback stops.\<close>

fun visit :: "'s visitor \<Rightarrow> nat list \<Rightarrow> 's \<Rightarrow> bool \<times> 's" where
  "visit f [] s = (True, s)"
| "visit f (i # is) s = (case f i s of (go, s') \<Rightarrow> if go then visit f is s' else (False, s'))"

lemma ones_append: "ones limit i (bs @ cs) = ones limit i bs @ ones limit (i + length bs) cs"
  by (induction bs arbitrary: i) auto

lemma ones_beyond: "limit \<le> i \<Longrightarrow> ones limit i bs = []"
  by (induction bs arbitrary: i) auto

lemma ones_False [simp]: "ones limit i (replicate k False) = []"
  by (induction k arbitrary: i) auto

lemma ones_eq: "ones limit i bs = filter (\<lambda>j. bs ! (j - i)) [i..<min limit (i + length bs)]"
proof (induction bs arbitrary: i)
  case (Cons b bs)
  have *: "filter (\<lambda>j. bs ! (j - Suc i)) [Suc i..<k] = filter (\<lambda>j. (b # bs) ! (j - i)) [Suc i..<k]" for k
    by (rule filter_cong) (auto simp: nth_Cons')
  show ?case
    by (cases "i < limit") (auto simp: Cons.IH * upt_rec [of i] ones_beyond simp del: upt_Suc)
qed simp

lemma visit_append:
  "visit f (is @ js) s = (case visit f is s of (go, s') \<Rightarrow> if go then visit f js s' else (False, s'))"
  by (induction "is" arbitrary: s) (auto split: prod.splits)

text \<open>What each loop does, in terms of the bits it covers.\<close>

definition covers :: "nat \<Rightarrow> 's visitor \<Rightarrow> nat \<Rightarrow> bool list \<Rightarrow> 's \<Rightarrow> (nat, 's) flow" where
  "covers limit f index bs s =
     (case visit f (ones limit index bs) s of (go, s') \<Rightarrow>
        if go \<and> (bs = [] \<or> index + length bs \<le> limit) then Proceed (index + length bs) s' else Return s')"

lemma covers_Nil [simp]: "covers limit f index [] s = Proceed index s"
  by (simp add: covers_def)

lemma covers_Cons [simp]:
  "covers limit f index (b # bs) s =
     (if limit \<le> index then Return s
      else if b then (case f index s of (go, s') \<Rightarrow>
        if go then covers limit f (index + 1) bs s' else Return s')
      else covers limit f (index + 1) bs s)"
  by (cases bs) (auto simp: covers_def ones_beyond split: prod.splits)

lemma covers_append:
  "covers limit f index (bs @ cs) s =
     (case covers limit f index bs s of Return s' \<Rightarrow> Return s'
      | Proceed index' s' \<Rightarrow> covers limit f index' cs s')"
  by (induction bs arbitrary: index s) (auto split: prod.splits)

lemma run_loop_covers: "run_loop limit f k index s = covers limit f index (replicate k True) s"
  by (induction k arbitrary: index s) (auto split: prod.splits)

lemma bit_loop_covers:
  "k \<le> 64 \<Longrightarrow> bit_loop limit f w k index s = covers limit f index (List.map (bit w) [64 - k..<64]) s"
proof (induction k arbitrary: index s)
  case (Suc k)
  have b: "w AND push_bit (63 - k) 1 \<noteq> 0 \<longleftrightarrow> bit w (63 - k)"
    by (simp only: bit_iff_and_push_bit_not_eq_0)
  have u: "[64 - Suc k..<64] = (63 - k) # [64 - k..<64]"
  proof -
    have "64 - Suc k = 63 - k" "Suc (63 - k) = 64 - k" "63 - k < 64" using Suc.prems by simp_all
    then show ?thesis by (metis upt_conv_Cons)
  qed
  show ?case
    unfolding u using Suc.prems by (auto simp: b [simplified] Suc.IH split: prod.splits)
qed simp

lemma literal_loop_covers:
  "literal_loop limit f n ws index s =
     (case covers limit f index (concat (List.map word_bits (take n ws))) s of
        Return s' \<Rightarrow> Return s'
      | Proceed index' s' \<Rightarrow> if n \<le> length ws then Proceed (drop n ws, index') s' else Return s')"
proof (induction n arbitrary: ws index s)
  case (Suc n)
  show ?case
  proof (cases ws)
    case (Cons w ws')
    have "word_bits w = bit w 0 # List.map (bit w) [1..<64]"
      by (simp add: word_bits_def upt_rec [of 0])
    then have "covers limit f index (word_bits w @ bs) s = Return s" if "limit \<le> index" for bs
      using that by simp
    moreover have "bit_loop limit f w 64 index s = covers limit f index (word_bits w) s"
      by (simp add: bit_loop_covers word_bits_def)
    ultimately show ?thesis
      using Cons by (cases "limit \<le> index") (auto simp: covers_append Suc.IH split: flow.splits)
  qed simp
qed simp

lemma covers_state:
  "(case covers limit f index bs s of Return s' \<Rightarrow> s' | Proceed i s' \<Rightarrow> s')
     = snd (visit f (ones limit index bs) s)"
  by (induction bs arbitrary: index s) (auto simp: ones_beyond split: prod.splits)

lemma covers_Return: "covers limit f index bs s = Return s' \<Longrightarrow>
  snd (visit f (ones limit index (bs @ cs)) s) = s'"
  using covers_state [of limit f index "bs @ cs" s] by (simp add: covers_append)

lemma covers_Proceed: "covers limit f index bs s = Proceed index' s' \<Longrightarrow>
  index' = index + length bs \<and> snd (visit f (ones limit index (bs @ cs)) s) =
    snd (visit f (ones limit index' cs) s')"
proof
  assume c: "covers limit f index bs s = Proceed index' s'"
  then show "index' = index + length bs" by (auto simp: covers_def split: prod.splits if_splits)
  from c have "covers limit f index (bs @ cs) s = covers limit f index' cs s'"
    by (simp add: covers_append)
  then show "snd (visit f (ones limit index (bs @ cs)) s) = snd (visit f (ones limit index' cs) s')"
    by (metis covers_state)
qed

lemma word_loop_beyond: "limit \<le> index \<Longrightarrow> word_loop limit f ws index s = s"
  by (cases ws) simp_all

text \<open>The run length is a 32-bit field, so its length in bits does not overflow.\<close>

lemma rlw_running_len_bits_exact:
  "unat (rlw_running_len_bits w) = unat (rlw_running_len w) * 64"
proof -
  have "rlw_running_len w = take_bit 32 (drop_bit 1 w)"
    by (simp add: rlw_running_len_def take_bit_eq_mask mask_eq_exp_minus_1)
  then have "unat (rlw_running_len w) < 2 ^ 32"
    by (simp only: unsigned_take_bit_eq take_bit_nat_less_exp)
  then show ?thesis
    unfolding rlw_running_len_bits_def by (subst unat_mult_lem [THEN iffD1]) simp_all
qed

lemma word_loop_visit:
  "limit < 2 ^ 32 \<Longrightarrow> word_loop limit f ws index s = snd (visit f (ones limit index (expand ws)) s)"
proof (induction limit f ws index s rule: word_loop.induct)
  case (2 limit f w ws index s)
  let ?n = "unat (rlw_literal_words w)" and ?k = "unat (rlw_running_len_bits w)"
  let ?run = "replicate ?k (rlw_runbit_is_set w)"
  let ?lits = "concat (List.map word_bits (take ?n ws))"
  let ?rest = "if ?n \<le> length ws then expand (drop ?n ws) else []"
  have e: "expand (w # ws) = ?run @ ?lits @ ?rest" by (simp add: expand.simps Let_def)
  consider (beyond) "limit \<le> index" | (skip) "index < limit" "\<not> rlw_runbit_is_set w" "limit < index + ?k"
    | (run) "index < limit" "run_or_skip limit f w index s = covers limit f index ?run s"
  proof -
    have "run_or_skip limit f w index s = covers limit f index ?run s" if "rlw_runbit_is_set w"
      using that by (simp add: run_or_skip_def run_loop_covers)
    moreover have "run_or_skip limit f w index s = covers limit f index ?run s"
      if "\<not> rlw_runbit_is_set w" "index + ?k \<le> limit"
      using that 2(2) by (simp add: run_or_skip_def covers_def saturating_add_def usize_max_def)
    ultimately show ?thesis using that by (meson linorder_not_le)
  qed
  then show ?case
  proof cases
    case beyond
    then show ?thesis by (simp add: ones_beyond)
  next
    case skip
    have "limit \<le> saturating_add index ?k"
      using skip 2(2) by (simp add: saturating_add_def usize_max_def)
    moreover have "ones limit index (expand (w # ws)) = []"
      unfolding e using skip by (simp add: ones_append ones_beyond)
    moreover have "literal_loop limit f ?n ws i s = (if ?n = 0 then Proceed (ws, i) s else Return s)"
      if "limit \<le> i" for i using that by (cases ?n) simp_all
    ultimately show ?thesis using skip by (auto simp: run_or_skip_def word_loop_beyond)
  next
    case run
    show ?thesis
    proof (cases "covers limit f index ?run s")
      case (Return s')
      then show ?thesis using run covers_Return [OF Return] by (simp add: e)
    next
      case P: (Proceed i s1)
      note e1 = covers_Proceed [OF P, THEN conjunct2, of "?lits @ ?rest"]
      show ?thesis
      proof (cases "covers limit f i ?lits s1")
        case (Return s')
        then show ?thesis using run P covers_Return [OF Return] e1
          by (simp add: e literal_loop_covers)
      next
        case Q: (Proceed j s2)
        note e2 = covers_Proceed [OF Q, THEN conjunct2, of ?rest]
        show ?thesis
        proof (cases "?n \<le> length ws")
          case True
          have "literal_loop limit f ?n ws i s1 = Proceed (drop ?n ws, j) s2"
            using Q True by (simp add: literal_loop_covers)
          with 2(1) [OF _ _ this refl 2(2)] run P e1 e2 True show ?thesis by (simp add: e)
        next
          case False
          then show ?thesis using run P Q e1 e2 by (simp add: e literal_loop_covers)
        qed
      qed
    qed
  qed
qed (simp add: expand.simps)

lemma bitmap_len_bound: "bitmap_len bm < 2 ^ 32"
proof -
  have "unat (num_bits bm) < 2 ^ LENGTH(32)" by (rule unsigned_less)
  then show ?thesis by (simp add: bitmap_len_def)
qed

text \<open>
  C38. Enumeration: the callback sees exactly the set bits of the expanded bitmap that lie
  below its size, in ascending order, until it asks to stop; the run-length and literal words
  give the same sequence as the plain bit list.
\<close>

theorem for_each_set_bit_correct:
  "for_each_set_bit bm f s =
     snd (visit f (filter (\<lambda>i. expand (ewah_words bm) ! i)
       [0..<min (bitmap_len bm) (length (expand (ewah_words bm)))]) s)"
  unfolding for_each_set_bit_def word_loop_visit [OF bitmap_len_bound] by (simp add: ones_eq)

end
