(* ===== verification/Policy.thy ===== *)
theory Policy
  imports Prelude
begin

text \<open>
  Layered policies (\<^verbatim>\<open>arc-policy/src/lib.rs\<close>): trust levels, permissions, the lattice of policy
  atoms whose latest set value wins; and the aggregation of mapping conflicts
  (\<^verbatim>\<open>arc-policy/src/conflict.rs\<close>).  The match predicate of \<^verbatim>\<open>resolve_with\<close> and the destination
  validator are pure functions.
\<close>

section \<open>Trust\<close>

datatype 'a policy_value = Present 'a | Cleared | Unset

datatype trust_level = Untrusted | User | Repo | Trusted

text \<open>The derived order is the order of declaration.\<close>

fun trust_rank :: "trust_level \<Rightarrow> nat" where
  "trust_rank Untrusted = 0"
| "trust_rank User = 1"
| "trust_rank Repo = 2"
| "trust_rank Trusted = 3"

lemma trust_rank_inj: "trust_rank a = trust_rank b \<Longrightarrow> a = b"
  by (cases a; cases b) simp_all

instantiation trust_level :: linorder
begin

definition less_eq_trust_level :: "trust_level \<Rightarrow> trust_level \<Rightarrow> bool" where
  "less_eq_trust_level a b \<longleftrightarrow> trust_rank a \<le> trust_rank b"

definition less_trust_level :: "trust_level \<Rightarrow> trust_level \<Rightarrow> bool" where
  "less_trust_level a b \<longleftrightarrow> trust_rank a < trust_rank b"

instance
  by standard (auto simp: less_eq_trust_level_def less_trust_level_def dest: trust_rank_inj)

end

datatype permission = Forbid | Deny | Allow

definition is_allowed :: "permission \<Rightarrow> bool" where
  "is_allowed p \<longleftrightarrow> p = Allow"

record 'a trust_mapping =
  tm_trusted :: 'a
  tm_user :: 'a
  tm_repo :: 'a
  tm_untrusted :: 'a

fun by_level :: "'a trust_mapping \<Rightarrow> trust_level \<Rightarrow> 'a" where
  "by_level m Trusted = tm_trusted m"
| "by_level m User = tm_user m"
| "by_level m Repo = tm_repo m"
| "by_level m Untrusted = tm_untrusted m"

fun permission_default_for_trust :: "trust_level \<Rightarrow> permission" where
  "permission_default_for_trust Untrusted = Forbid"
| "permission_default_for_trust _ = Allow"

definition trust_mapping_default :: "(trust_level \<Rightarrow> 'a) \<Rightarrow> 'a trust_mapping" where
  "trust_mapping_default default_for_trust =
     \<lparr>tm_trusted = default_for_trust Trusted, tm_user = default_for_trust User,
      tm_repo = default_for_trust Repo, tm_untrusted = default_for_trust Untrusted\<rparr>"

lemma by_level_default [simp]: "by_level (trust_mapping_default f) l = f l"
  by (cases l) (simp_all add: trust_mapping_default_def)

section \<open>The policy lattice\<close>

datatype policy_domain = Ignore | Config

record source_trace =
  st_origin :: string
  st_depth :: u16
  st_trust :: trust_level

record 'a policy_atom =
  pa_domain :: policy_domain
  pa_key :: string
  pa_value :: "'a policy_value"
  pa_source :: source_trace

datatype trace_outcome = Winning | Overridden | SkippedUnset

record 'a policy_trace_entry =
  te_atom :: "'a policy_atom"
  te_outcome :: trace_outcome

record 'a policy_trace =
  pt_query :: string
  pt_winner :: "'a policy_atom option"
  pt_evaluated :: "'a policy_trace_entry list"

type_synonym 'a policy_lattice = "'a policy_atom list"

definition lattice_new :: "'a policy_lattice" where
  "lattice_new = []"

definition lattice_push :: "'a policy_lattice \<Rightarrow> 'a policy_atom \<Rightarrow> 'a policy_lattice" where
  "lattice_push l a = l @ [a]"

definition lattice_extend :: "'a policy_lattice \<Rightarrow> 'a policy_atom list \<Rightarrow> 'a policy_lattice" where
  "lattice_extend l as = l @ as"

text \<open>The loop of \<^verbatim>\<open>resolve_with\<close> over the matching atoms, latest first.\<close>

fun resolve_loop ::
  "'a policy_atom list \<Rightarrow> 'a policy_atom option \<Rightarrow> 'a policy_trace_entry list \<Rightarrow>
   'a policy_atom option \<times> 'a policy_trace_entry list" where
  "resolve_loop [] winner evaluated = (winner, evaluated)"
| "resolve_loop (a # as) winner evaluated =
     (case pa_value a of
        Unset \<Rightarrow> resolve_loop as winner (evaluated @ [\<lparr>te_atom = a, te_outcome = SkippedUnset\<rparr>])
      | _ \<Rightarrow>
          (case winner of
             None \<Rightarrow> resolve_loop as (Some a) (evaluated @ [\<lparr>te_atom = a, te_outcome = Winning\<rparr>])
           | Some w \<Rightarrow> resolve_loop as (Some w) (evaluated @ [\<lparr>te_atom = a, te_outcome = Overridden\<rparr>])))"

definition resolve_with ::
  "'a policy_lattice \<Rightarrow> string \<Rightarrow> ('a policy_atom \<Rightarrow> string \<Rightarrow> bool) \<Rightarrow> 'a policy_trace" where
  "resolve_with l query is_match =
     (case resolve_loop (rev (filter (\<lambda>a. is_match a query) l)) None [] of
        (winner, evaluated) \<Rightarrow> \<lparr>pt_query = query, pt_winner = winner, pt_evaluated = evaluated\<rparr>)"

definition lattice_resolve :: "'a policy_lattice \<Rightarrow> string \<Rightarrow> 'a policy_trace" where
  "lattice_resolve l query = resolve_with l query (\<lambda>a q. pa_key a = q)"

definition is_set :: "'a policy_atom \<Rightarrow> bool" where
  "is_set a \<longleftrightarrow> pa_value a \<noteq> Unset"

text \<open>The verdict on an atom, given whether a later atom has won already.\<close>

definition verdict_of :: "bool \<Rightarrow> 'a policy_atom \<Rightarrow> trace_outcome" where
  "verdict_of won a = (if \<not> is_set a then SkippedUnset else if won then Overridden else Winning)"

lemma resolve_loop_eq:
  "resolve_loop as winner evaluated =
     ((case winner of Some w \<Rightarrow> Some w | None \<Rightarrow> List.find is_set as),
      evaluated @ List.map (\<lambda>i. \<lparr>te_atom = as ! i, te_outcome =
        verdict_of (winner \<noteq> None \<or> (\<exists>j<i. is_set (as ! j))) (as ! i)\<rparr>) [0..<length as])"
proof (induction as arbitrary: winner evaluated)
  case (Cons a as)
  have ex: "(\<exists>j<Suc i. is_set ((a # as) ! j)) \<longleftrightarrow> is_set a \<or> (\<exists>j<i. is_set (as ! j))" for i
    by (simp add: Ex_less_Suc2)
  have u: "[0..<length (a # as)] = 0 # List.map Suc [0..<length as]"
    by (simp add: map_Suc_upt upt_conv_Cons del: upt_Suc)
  show ?case
    unfolding u list.map map_map comp_def
    by (cases "pa_value a"; cases winner)
      (simp_all add: Cons.IH ex is_set_def [of a] verdict_of_def)
qed (simp split: option.splits)

text \<open>
  Resolution of a policy key: the last matching atom that sets or clears the value wins,
  every matching atom is in the trace, latest first, with the reason it won, was overridden
  or was skipped.
\<close>

theorem resolve_with_correct:
  "resolve_with l query is_match =
     (let ms = rev (filter (\<lambda>a. is_match a query) l)
      in \<lparr>pt_query = query, pt_winner = List.find is_set ms,
          pt_evaluated = List.map (\<lambda>i. \<lparr>te_atom = ms ! i, te_outcome =
            verdict_of (\<exists>j<i. is_set (ms ! j)) (ms ! i)\<rparr>) [0..<length ms]\<rparr>)"
  by (simp add: resolve_with_def resolve_loop_eq Let_def)

lemma push_winner:
  "pt_winner (resolve_with (lattice_push l a) q is_match) =
     (if is_match a q \<and> is_set a then Some a else pt_winner (resolve_with l q is_match))"
  by (simp add: resolve_with_def resolve_loop_eq lattice_push_def)

end
