(* ===== verification/PolicyStore.thy ===== *)
theory PolicyStore
  imports Policy
begin

text \<open>
  Policy files (\<^verbatim>\<open>arc-store-policy/src/lib.rs\<close>, \<^verbatim>\<open>text.rs\<close>): the line iterator and the lossless
  rewriter, include directives with their depth and cycle checks, the loaders of \<^verbatim>\<open>.arcignore\<close> and of
  the configuration, and the decisions they lead to.  Paths are strings; the file system, the
  glob matcher, lossy UTF-8 decoding and the TOML parser are the fields of \<open>policy_host\<close>.
\<close>

section \<open>Lines\<close>

record line_view =
  lv_raw :: bytes
  lv_content :: bytes
  lv_no :: nat

definition line_feed :: u8 where "line_feed = 10"

definition strip_last :: "u8 \<Rightarrow> bytes \<Rightarrow> bytes" where
  "strip_last b bs = (if bs \<noteq> [] \<and> last bs = b then butlast bs else bs)"

definition line_content :: "bytes \<Rightarrow> bytes" where
  "line_content raw = strip_last 13 (strip_last line_feed raw)"

text \<open>The bytes up to and including the next line feed, and the others.\<close>

definition first_line :: "bytes \<Rightarrow> bytes" where
  "first_line bs = takeWhile (\<lambda>b. b \<noteq> line_feed) bs @ take 1 (dropWhile (\<lambda>b. b \<noteq> line_feed) bs)"

definition other_lines :: "bytes \<Rightarrow> bytes" where
  "other_lines bs = drop 1 (dropWhile (\<lambda>b. b \<noteq> line_feed) bs)"

lemma other_lines_shorter [simp]:
  assumes "bs \<noteq> []"
  shows "length (other_lines bs) < length bs"
proof -
  have "length (dropWhile (\<lambda>b. b \<noteq> line_feed) bs) \<le> length bs" by (rule length_dropWhile_le)
  moreover have "0 < length bs" using assms by simp
  ultimately show ?thesis unfolding other_lines_def length_drop by linarith
qed

function iter_lines :: "nat \<Rightarrow> bytes \<Rightarrow> line_view list" where
  "iter_lines no bs =
     (if bs = [] then []
      else \<lparr>lv_raw = first_line bs, lv_content = line_content (first_line bs), lv_no = no\<rparr> #
        iter_lines (Suc no) (other_lines bs))"
  by auto
termination by (relation "measure (length \<circ> snd)") auto

declare iter_lines.simps [simp del]

lemma first_other_lines [simp]: "first_line bs @ other_lines bs = bs"
  unfolding first_line_def other_lines_def append_assoc append_take_drop_id by (rule takeWhile_dropWhile_id)

definition rewrite_policy_text_lossless :: "(bytes \<Rightarrow> string) \<Rightarrow> (string \<Rightarrow> string option) \<Rightarrow> bytes \<Rightarrow> bytes" where
  "rewrite_policy_text_lossless lossy rewrite_line input =
     concat (List.map (\<lambda>l. case rewrite_line (lossy (lv_content l)) of
         Some replacement \<Rightarrow> str_bytes replacement @ drop (length (lv_content l)) (lv_raw l)
       | None \<Rightarrow> lv_raw l) (iter_lines 1 input))"

section \<open>The host\<close>

datatype toml_value =
    TomlString string
  | TomlInteger int
  | TomlFloat string
  | TomlBoolean bool
  | TomlDatetime string
  | TomlArray "toml_value list"
  | TomlTable "(string \<times> toml_value) list"

text \<open>
  A float and a date are represented by what they print as; a table is listed in the order of
  its iteration.  The glob matcher of a rule takes the file it is from and its pattern.
\<close>

record policy_host =
  ph_canonicalize :: "string \<Rightarrow> string option"
  ph_read :: "string \<Rightarrow> bytes option"
  ph_exists :: "string \<Rightarrow> bool"
  ph_lossy :: "bytes \<Rightarrow> string"
  ph_glob :: "string \<Rightarrow> string \<Rightarrow> (string \<Rightarrow> bool \<Rightarrow> bool) option"
  ph_toml :: "bytes \<Rightarrow> toml_value option"
  ph_toml_text :: "toml_value \<Rightarrow> string"
  ph_owned :: bool
  ph_user_config :: "string option"
  ph_root :: string

datatype policy_store_error =
    ReadFailed string
  | InvalidGlob string string
  | IncludeCycle "string list"
  | OutsideWorkspace string
  | MaxDepth string

text \<open>\<^verbatim>\<open>Path::parent\<close>, \<^verbatim>\<open>Path::join\<close> and \<^verbatim>\<open>Path::starts_with\<close> on canonical absolute paths.\<close>

definition parent :: "string \<Rightarrow> string option" where
  "parent p =
     (let to_slash = dropWhile (\<lambda>c. c \<noteq> CHR ''/'') (rev p)
      in if p = ''/'' \<or> to_slash = [] then None
         else Some (if tl to_slash = [] then ''/'' else rev (tl to_slash)))"

definition path_join :: "string \<Rightarrow> string \<Rightarrow> string" where
  "path_join d f =
     (if starts_with f ''/'' then f
      else if d \<noteq> [] \<and> last d = CHR ''/'' then d @ f else d @ ''/'' @ f)"

definition path_below :: "string \<Rightarrow> string \<Rightarrow> bool" where
  "path_below root p \<longleftrightarrow> p = root \<or> root = ''/'' \<or> starts_with p (root @ ''/'')"

definition sibling :: "'x policy_host_scheme \<Rightarrow> string \<Rightarrow> string \<Rightarrow> string" where
  "sibling H source f = path_join (case parent source of None \<Rightarrow> ph_root H | Some d \<Rightarrow> d) f"

section \<open>Includes\<close>

record include_state =
  is_max_depth :: nat
  is_visited :: "string fset"
  is_stack :: "string list"

definition include_new :: "nat \<Rightarrow> include_state" where
  "include_new n = \<lparr>is_max_depth = n, is_visited = {||}, is_stack = []\<rparr>"

definition include_enter ::
  "'x policy_host_scheme \<Rightarrow> string \<Rightarrow> nat \<Rightarrow> include_state \<Rightarrow> policy_store_error + string option \<times> include_state" where
  "include_enter H file depth s =
     (case ph_canonicalize H file of
        None \<Rightarrow> Inl (ReadFailed file)
      | Some c \<Rightarrow>
          if depth > is_max_depth s then Inl (MaxDepth c)
          else if c \<in> set (is_stack s) then Inl (IncludeCycle (dropWhile (\<lambda>p. p \<noteq> c) (is_stack s) @ [c]))
          else if c |\<in>| is_visited s then Inr (None, s)
          else Inr (Some c, s\<lparr>is_visited := finsert c (is_visited s), is_stack := is_stack s @ [c]\<rparr>))"

definition include_exit :: "include_state \<Rightarrow> include_state" where
  "include_exit s = s\<lparr>is_stack := butlast (is_stack s)\<rparr>"

definition resolve_include :: "'x policy_host_scheme \<Rightarrow> string \<Rightarrow> string \<Rightarrow> policy_store_error + string" where
  "resolve_include H source include =
     (let path = sibling H source include
      in case ph_canonicalize H path of
           None \<Rightarrow> Inl (ReadFailed path)
         | Some c \<Rightarrow> if \<not> path_below (ph_root H) c then Inl (OutsideWorkspace c) else Inr c)"

section \<open>Loading ignore rules\<close>

record ignore_rule =
  ir_pattern :: string
  ir_matcher :: "string \<Rightarrow> bool \<Rightarrow> bool"
  ir_line :: nat

record ignore_loader =
  il_state :: include_state
  il_lattice :: "bool policy_lattice"
  il_rules :: "(string, ignore_rule) fmap"

datatype ignore_line = NoRule | IncludeFile string | IncludeIfExists string | Rule bool string

definition rule_line :: "bool \<Rightarrow> string \<Rightarrow> ignore_line" where
  "rule_line ignore pattern = (if pattern = [] then NoRule else Rule ignore pattern)"

definition parse_trimmed :: "string \<Rightarrow> ignore_line" where
  "parse_trimmed line =
     (if line = [] then NoRule
      else case strip_prefix ''#include '' line of
        Some rest \<Rightarrow> IncludeFile (trim rest)
      | None \<Rightarrow>
        (case strip_prefix ''#includeIf.exists '' line of
           Some rest \<Rightarrow> IncludeIfExists (trim rest)
         | None \<Rightarrow>
           if starts_with line ''#'' then NoRule
           else (case strip_prefix ''!'' line of
                   Some rest \<Rightarrow> rule_line False (trim rest)
                 | None \<Rightarrow> rule_line True (trim line))))"

definition parse_ignore_line :: "string \<Rightarrow> ignore_line" where
  "parse_ignore_line text = parse_trimmed (trim text)"

fun decimal :: "nat \<Rightarrow> string" where
  "decimal n = (if n < 10 then [char_of (48 + n)] else decimal (n div 10) @ [char_of (48 + n mod 10)])"

declare decimal.simps [simp del]

definition rule_key :: "string \<Rightarrow> nat \<Rightarrow> string \<Rightarrow> string" where
  "rule_key file line pattern = file @ '':'' @ decimal line @ '':'' @ pattern"

definition add_rule ::
  "'x policy_host_scheme \<Rightarrow> nat \<Rightarrow> string \<Rightarrow> nat \<Rightarrow> bool \<Rightarrow> string \<Rightarrow> ignore_loader \<Rightarrow> policy_store_error + ignore_loader" where
  "add_rule H depth file line ignore pattern s =
     (case ph_glob H file pattern of
        None \<Rightarrow> Inl (InvalidGlob file pattern)
      | Some matcher \<Rightarrow>
          let key = rule_key file line pattern
          in Inr (s\<lparr>
            il_rules := fmupd key \<lparr>ir_pattern = pattern, ir_matcher = matcher, ir_line = line\<rparr> (il_rules s),
            il_lattice := lattice_push (il_lattice s) \<lparr>pa_domain = Ignore, pa_key = key, pa_value = Present ignore,
               pa_source = \<lparr>st_origin = file, st_depth = word_of_nat depth, st_trust = Repo\<rparr>\<rparr>\<rparr>))"

text \<open>One file's lines, given what an include does.\<close>

fun load_lines ::
  "(string \<Rightarrow> ignore_loader \<Rightarrow> policy_store_error + ignore_loader) \<Rightarrow> 'x policy_host_scheme \<Rightarrow> nat \<Rightarrow> string \<Rightarrow>
   line_view list \<Rightarrow> ignore_loader \<Rightarrow> policy_store_error + ignore_loader" where
  "load_lines load H depth file [] s = Inr s"
| "load_lines load H depth file (l # ls) s =
     bind_result
       (case parse_ignore_line (ph_lossy H (lv_content l)) of
          NoRule \<Rightarrow> Inr s
        | IncludeFile f \<Rightarrow> bind_result (resolve_include H file f) (\<lambda>p. load p s)
        | IncludeIfExists f \<Rightarrow>
            if ph_exists H (sibling H file f) then bind_result (resolve_include H file f) (\<lambda>p. load p s)
            else Inr s
        | Rule ignore pattern \<Rightarrow> add_rule H depth file (lv_no l) ignore pattern s)
       (load_lines load H depth file ls)"

text \<open>
  The recursion over includes; \<open>n\<close> is how many levels are left, so the depth is the limit less
  \<open>n\<close> plus one, and at no level left entering fails.
\<close>

definition include_limit :: nat where "include_limit = 32"

primrec load_ignore :: "nat \<Rightarrow> 'x policy_host_scheme \<Rightarrow> string \<Rightarrow> ignore_loader \<Rightarrow> policy_store_error + ignore_loader" where
  "load_ignore 0 H file s =
     bind_result (include_enter H file (Suc include_limit) (il_state s)) (\<lambda>_. Inr s)"
| "load_ignore (Suc n) H file s =
     bind_result (include_enter H file (include_limit - n) (il_state s)) (\<lambda>(entered, st).
       case entered of
         None \<Rightarrow> Inr (s\<lparr>il_state := st\<rparr>)
       | Some c \<Rightarrow>
           (case ph_read H c of
              None \<Rightarrow> Inl (ReadFailed c)
            | Some bytes \<Rightarrow>
                map_result (\<lambda>s'. s'\<lparr>il_state := include_exit (il_state s')\<rparr>)
                  (load_lines (load_ignore n H) H (include_limit - n) c (iter_lines 1 bytes) (s\<lparr>il_state := st\<rparr>))))"

definition loader_new :: ignore_loader where
  "loader_new = \<lparr>il_state = include_new include_limit, il_lattice = lattice_new, il_rules = fmempty\<rparr>"

definition arcignore_load :: "'x policy_host_scheme \<Rightarrow> policy_store_error + ignore_loader" where
  "arcignore_load H =
     (let file = path_join (ph_root H) ''.arcignore''
      in if \<not> ph_exists H file then Inr loader_new else load_ignore (Suc include_limit) H file loader_new)"

section \<open>Decisions\<close>

datatype path_policy_decision = Ignored | Included | Undecided

record ignore_trace_entry =
  it_pattern :: string
  it_source :: source_trace
  it_outcome :: trace_outcome
  it_line :: nat
  it_value :: "bool policy_value"

record ignore_policy_trace =
  ip_query_path :: string
  ip_decision :: path_policy_decision
  ip_entries :: "ignore_trace_entry list"

definition rule_matches :: "ignore_loader \<Rightarrow> bool \<Rightarrow> bool policy_atom \<Rightarrow> string \<Rightarrow> bool" where
  "rule_matches m is_dir a query =
     (case fmlookup (il_rules m) (pa_key a) of None \<Rightarrow> False | Some rule \<Rightarrow> ir_matcher rule query is_dir)"

definition decision_of :: "bool policy_atom option \<Rightarrow> path_policy_decision" where
  "decision_of winner =
     (case map_option pa_value winner of
        Some (Present True) \<Rightarrow> Ignored
      | Some (Present False) \<Rightarrow> Included
      | _ \<Rightarrow> Undecided)"

definition trace_entry :: "ignore_loader \<Rightarrow> bool policy_trace_entry \<Rightarrow> ignore_trace_entry" where
  "trace_entry m e =
     (let a = te_atom e;
          (line, pattern) = (case fmlookup (il_rules m) (pa_key a) of
              Some rule \<Rightarrow> (ir_line rule, ir_pattern rule) | None \<Rightarrow> (0, pa_key a))
      in \<lparr>it_pattern = pattern, it_source = pa_source a, it_outcome = te_outcome e, it_line = line,
          it_value = pa_value a\<rparr>)"

definition explain_path_kind :: "ignore_loader \<Rightarrow> string \<Rightarrow> bool \<Rightarrow> ignore_policy_trace" where
  "explain_path_kind m path is_dir =
     (let query = replace_char (CHR 0x5C) (CHR ''/'') path;
          trace = resolve_with (il_lattice m) query (rule_matches m is_dir)
      in \<lparr>ip_query_path = query, ip_decision = decision_of (pt_winner trace),
          ip_entries = List.map (trace_entry m) (pt_evaluated trace)\<rparr>)"

definition matched_path_or_any_parents :: "ignore_loader \<Rightarrow> string \<Rightarrow> bool \<Rightarrow> bool" where
  "matched_path_or_any_parents m path is_dir = (ip_decision (explain_path_kind m path is_dir) = Ignored)"

section \<open>Configuration\<close>

definition trim_quotes :: "string \<Rightarrow> string" where
  "trim_quotes s = trim_end_char (CHR 0x22) (trim_start_char (CHR 0x22) s)"

text \<open>\<^verbatim>\<open>splitn(2, '=')\<close>, each part trimmed.\<close>

definition split_assignment :: "string \<Rightarrow> string \<times> string" where
  "split_assignment s = (case split_once (CHR ''='') s of None \<Rightarrow> (trim s, []) | Some (a, b) \<Rightarrow> (trim a, trim b))"

definition config_directive ::
  "'x policy_host_scheme \<Rightarrow> string \<Rightarrow> string \<Rightarrow> (policy_store_error + string) list" where
  "config_directive H source line =
     (if line = [] \<or> starts_with line ''#'' then []
      else case strip_prefix ''include ='' line of
        Some rest \<Rightarrow> [resolve_include H source (trim_quotes (trim rest))]
      | None \<Rightarrow>
        (case strip_prefix ''includeIf.gitdir:'' line of
           Some rest \<Rightarrow>
             (case split_assignment rest of (before_eq, f) \<Rightarrow>
                if before_eq \<noteq> [] \<and> starts_with (replace_char (CHR 0x5C) (CHR ''/'') (ph_root H)) before_eq
                then [resolve_include H source (trim_quotes f)] else [])
         | None \<Rightarrow>
           (case strip_prefix ''includeIf.exists ='' line of
              Some rest \<Rightarrow>
                (if ph_exists H (sibling H source (trim_quotes (trim rest)))
                 then [resolve_include H source (trim_quotes (trim rest))] else [])
            | None \<Rightarrow> [])))"

definition config_include ::
  "'x policy_host_scheme \<Rightarrow> string \<Rightarrow> string \<Rightarrow> (policy_store_error + string) list" where
  "config_include H source text = config_directive H source (trim text)"

definition parse_config_includes ::
  "'x policy_host_scheme \<Rightarrow> bytes \<Rightarrow> string \<Rightarrow> (policy_store_error + string) list" where
  "parse_config_includes H content source =
     concat (List.map (\<lambda>l. config_include H source (ph_lossy H (lv_content l))) (iter_lines 1 content))"

fun int_text :: "int \<Rightarrow> string" where
  "int_text i = (if i < 0 then ''-'' @ decimal (nat (- i)) else decimal (nat i))"

fun toml_scalar_to_string :: "(toml_value \<Rightarrow> string) \<Rightarrow> toml_value \<Rightarrow> string" where
  "toml_scalar_to_string render (TomlString s) = s"
| "toml_scalar_to_string render (TomlInteger i) = int_text i"
| "toml_scalar_to_string render (TomlFloat s) = s"
| "toml_scalar_to_string render (TomlBoolean b) = (if b then ''true'' else ''false'')"
| "toml_scalar_to_string render (TomlDatetime s) = s"
| "toml_scalar_to_string render v = render v"

definition config_atom :: "string \<Rightarrow> string \<Rightarrow> source_trace \<Rightarrow> string policy_atom" where
  "config_atom key text source =
     \<lparr>pa_domain = Config, pa_key = key, pa_value = Present text, pa_source = source\<rparr>"

fun flatten_config_value ::
  "(toml_value \<Rightarrow> string) \<Rightarrow> source_trace \<Rightarrow> string \<Rightarrow> toml_value \<Rightarrow> string policy_atom list"
and flatten_config_entries ::
  "(toml_value \<Rightarrow> string) \<Rightarrow> source_trace \<Rightarrow> string \<Rightarrow> (string \<times> toml_value) list \<Rightarrow> string policy_atom list" where
  "flatten_config_value render source key (TomlTable entries) = flatten_config_entries render source key entries"
| "flatten_config_value render source key (TomlArray vs) =
     [config_atom key (join '','' (List.map (toml_scalar_to_string render) vs)) source]"
| "flatten_config_value render source key v = [config_atom key (toml_scalar_to_string render v) source]"
| "flatten_config_entries render source key [] = []"
| "flatten_config_entries render source key ((k, v) # entries) =
     flatten_config_value render source (if key = [] then k else key @ ''.'' @ k) v @
     flatten_config_entries render source key entries"

record config_loader =
  cl_state :: include_state
  cl_lattice :: "string policy_lattice"

fun load_includes ::
  "(string \<Rightarrow> config_loader \<Rightarrow> policy_store_error + config_loader) \<Rightarrow> 'x policy_host_scheme \<Rightarrow>
   (policy_store_error + string) list \<Rightarrow> config_loader \<Rightarrow> policy_store_error + config_loader" where
  "load_includes load H [] s = Inr s"
| "load_includes load H (i # is) s =
     bind_result i (\<lambda>p.
       if \<not> path_below (ph_root H) p then Inl (OutsideWorkspace p)
       else bind_result (load p s) (load_includes load H is))"

definition own_atoms :: "'x policy_host_scheme \<Rightarrow> trust_level \<Rightarrow> nat \<Rightarrow> string \<Rightarrow> bytes \<Rightarrow> string policy_atom list" where
  "own_atoms H trust depth file content =
     flatten_config_value (ph_toml_text H) \<lparr>st_origin = file, st_depth = word_of_nat depth, st_trust = trust\<rparr> []
       (case ph_toml H content of None \<Rightarrow> TomlTable [] | Some v \<Rightarrow> v)"

primrec load_config ::
  "nat \<Rightarrow> 'x policy_host_scheme \<Rightarrow> trust_level \<Rightarrow> string \<Rightarrow> config_loader \<Rightarrow> policy_store_error + config_loader" where
  "load_config 0 H trust file s =
     bind_result (include_enter H file (Suc include_limit) (cl_state s)) (\<lambda>_. Inr s)"
| "load_config (Suc n) H trust file s =
     bind_result (include_enter H file (include_limit - n) (cl_state s)) (\<lambda>(entered, st).
       case entered of
         None \<Rightarrow> Inr (s\<lparr>cl_state := st\<rparr>)
       | Some c \<Rightarrow>
           (case ph_read H c of
              None \<Rightarrow> Inl (ReadFailed c)
            | Some content \<Rightarrow>
                map_result (\<lambda>s'. s'\<lparr>cl_lattice := lattice_extend (cl_lattice s') (own_atoms H trust (include_limit - n) c content),
                    cl_state := include_exit (cl_state s')\<rparr>)
                  (load_includes (load_config n H trust) H (parse_config_includes H content c) (s\<lparr>cl_state := st\<rparr>))))"

definition repo_trust_level :: "'x policy_host_scheme \<Rightarrow> trust_level" where
  "repo_trust_level H = (if ph_owned H then Repo else Untrusted)"

definition config_candidates :: "'x policy_host_scheme \<Rightarrow> (string \<times> trust_level) list" where
  "config_candidates H =
     (case ph_user_config H of None \<Rightarrow> [] | Some d \<Rightarrow> [(path_join d ''config.toml'', User)]) @
     [(path_join (path_join (ph_root H) ''.arc'') ''config.toml'', repo_trust_level H)]"

fun load_candidates ::
  "'x policy_host_scheme \<Rightarrow> (string \<times> trust_level) list \<Rightarrow> config_loader \<Rightarrow> policy_store_error + config_loader" where
  "load_candidates H [] s = Inr s"
| "load_candidates H ((file, trust) # rest) s =
     bind_result (if ph_exists H file then load_config (Suc include_limit) H trust file s else Inr s)
       (load_candidates H rest)"

definition load_config_lattice :: "'x policy_host_scheme \<Rightarrow> policy_store_error + string policy_lattice" where
  "load_config_lattice H =
     map_result cl_lattice
       (load_candidates H (config_candidates H) \<lparr>cl_state = include_new include_limit, cl_lattice = lattice_new\<rparr>)"

definition explain_config_key :: "'x policy_host_scheme \<Rightarrow> string \<Rightarrow> policy_store_error + string policy_trace" where
  "explain_config_key H key = map_result (\<lambda>l. lattice_resolve l key) (load_config_lattice H)"

section \<open>Lines, losslessly\<close>

lemma iter_lines_concat: "concat (List.map lv_raw (iter_lines no bs)) = bs"
proof (induction no bs rule: iter_lines.induct)
  case (1 no bs)
  then show ?case by (subst iter_lines.simps) simp
qed

lemma iter_lines_Nil [simp]: "iter_lines no [] = []"
  by (subst iter_lines.simps) simp

text \<open>A byte string that is one line: not empty, with a line feed at its end at most.\<close>

definition one_line :: "bytes \<Rightarrow> bool" where
  "one_line raw \<longleftrightarrow> raw \<noteq> [] \<and> line_feed \<notin> set (butlast raw)"

lemma one_line_first: "bs \<noteq> [] \<Longrightarrow> one_line (first_line bs)"
proof -
  assume bs: "bs \<noteq> []"
  have none: "line_feed \<notin> set (takeWhile (\<lambda>b. b \<noteq> line_feed) bs)" by (auto dest: set_takeWhileD)
  show ?thesis
  proof (cases "dropWhile (\<lambda>b. b \<noteq> line_feed) bs")
    case Nil
    then have "first_line bs = takeWhile (\<lambda>b. b \<noteq> line_feed) bs" "first_line bs = bs"
      using first_other_lines [of bs] by (simp_all only: first_line_def other_lines_def Nil drop_Nil take_Nil append_Nil2)
    then show ?thesis using bs none by (auto simp: one_line_def dest: in_set_butlastD)
  next
    case (Cons c cs)
    then have "first_line bs = takeWhile (\<lambda>b. b \<noteq> line_feed) bs @ [c]" by (simp only: first_line_def) simp
    then show ?thesis using none by (simp add: one_line_def)
  qed
qed

lemma until_append:
  "d \<notin> set b \<Longrightarrow> takeWhile (\<lambda>x. x \<noteq> d) (b @ xs) = b @ takeWhile (\<lambda>x. x \<noteq> d) xs"
  "d \<notin> set b \<Longrightarrow> dropWhile (\<lambda>x. x \<noteq> d) (b @ xs) = dropWhile (\<lambda>x. x \<noteq> d) xs"
  by (induction b) auto

lemma first_line_append:
  assumes "one_line raw" "last raw = line_feed \<or> rest = []"
  shows "first_line (raw @ rest) = raw \<and> other_lines (raw @ rest) = rest"
proof -
  obtain b c where raw: "raw = b @ [c]" "line_feed \<notin> set b"
    using assms(1) by (metis one_line_def append_butlast_last_id)
  note until_append [OF raw(2)]
  then show ?thesis using assms(2) raw(1) by (cases "c = line_feed") (auto simp: first_line_def other_lines_def)
qed

definition lines_ok :: "bytes list \<Rightarrow> bool" where
  "lines_ok rs \<longleftrightarrow> (\<forall>r\<in>set rs. one_line r) \<and> (\<forall>r\<in>set (butlast rs). last r = line_feed)"

lemma lines_ok_Cons:
  "lines_ok (r # rs) \<longleftrightarrow> one_line r \<and> (rs = [] \<or> last r = line_feed) \<and> lines_ok rs"
  by (auto simp: lines_ok_def)

lemma iter_lines_concat_lines:
  "lines_ok rs \<Longrightarrow> List.map lv_raw (iter_lines no (concat rs)) = rs \<and>
     List.map lv_no (iter_lines no (concat rs)) = [no..<no + length rs]"
proof (induction rs arbitrary: no)
  case (Cons r rs)
  have r: "one_line r" "last r = line_feed \<or> concat rs = []" "lines_ok rs"
    using Cons.prems by (auto simp: lines_ok_Cons)
  have "concat (r # rs) \<noteq> []" using r(1) by (simp add: one_line_def)
  then have "iter_lines no (concat (r # rs)) =
      \<lparr>lv_raw = r, lv_content = line_content r, lv_no = no\<rparr> # iter_lines (Suc no) (concat rs)"
    using first_line_append [OF r(1,2)] by (subst iter_lines.simps) simp
  moreover have "[no..<no + length (r # rs)] = no # [Suc no..<Suc no + length rs]"
    by (simp add: upt_conv_Cons del: upt_Suc)
  ultimately show ?case using Cons.IH [OF r(3), of "Suc no"] by (simp del: upt_Suc)
qed (simp add: lines_ok_def)

lemma last_first_line: "other_lines bs \<noteq> [] \<Longrightarrow> last (first_line bs) = line_feed"
proof -
  assume "other_lines bs \<noteq> []"
  then obtain c cs where d: "dropWhile (\<lambda>b. b \<noteq> line_feed) bs = c # cs"
    by (cases "dropWhile (\<lambda>b. b \<noteq> line_feed) bs") (simp_all only: other_lines_def drop_Nil)
  then have "c = line_feed" by (simp add: dropWhile_eq_Cons_conv)
  then show ?thesis using d by (simp only: first_line_def) simp
qed

lemma iter_lines_props:
  "lines_ok (List.map lv_raw (iter_lines no bs)) \<and> (\<forall>l\<in>set (iter_lines no bs). lv_content l = line_content (lv_raw l))"
proof (induction no bs rule: iter_lines.induct)
  case (1 no bs)
  show ?case
  proof (cases "bs = []")
    case False
    have "iter_lines (Suc no) (other_lines bs) = [] \<longleftrightarrow> other_lines bs = []"
      by (subst iter_lines.simps) simp
    then show ?thesis
      using 1 False one_line_first last_first_line by (subst (1 2) iter_lines.simps) (auto simp: lines_ok_Cons)
  qed (simp add: lines_ok_def)
qed

text \<open>A line is its content and a line ending, of which the last byte decides.\<close>

definition line_ending :: "bytes \<Rightarrow> bytes" where
  "line_ending raw = drop (length (line_content raw)) raw"

lemma line_parts: "raw = line_content raw @ line_ending raw \<and> line_ending raw \<in> {[], [13], [line_feed], [13, line_feed]}"
proof -
  have strip: "\<exists>e. bs = strip_last b bs @ e \<and> (e = [] \<or> e = [b])" for b and bs :: bytes
    by (cases "bs \<noteq> [] \<and> last bs = b")
      (auto simp: strip_last_def intro: exI [of _ "[b]"] simp flip: append_butlast_last_id)
  obtain e1 where e1: "raw = strip_last line_feed raw @ e1" "e1 = [] \<or> e1 = [line_feed]" using strip by blast
  obtain e2 where e2: "strip_last line_feed raw = line_content raw @ e2" "e2 = [] \<or> e2 = [13]"
    using strip unfolding line_content_def by blast
  have raw: "raw = line_content raw @ e2 @ e1" using e1(1) e2(1) by simp
  then have "line_ending raw = e2 @ e1" unfolding line_ending_def by (metis append_eq_conv_conj)
  with raw e1(2) e2(2) show ?thesis by auto
qed

lemma one_line_replaced:
  assumes "one_line raw" "text \<noteq> []" "line_feed \<notin> set text"
  shows "one_line (text @ line_ending raw) \<and> (last raw = line_feed \<longrightarrow> last (text @ line_ending raw) = line_feed)"
proof -
  have "line_ending raw = [] \<Longrightarrow> last raw \<noteq> line_feed"
  proof
    assume "line_ending raw = []" and l: "last raw = line_feed"
    then have "raw = line_content raw" using line_parts [of raw] by simp
    moreover have "length (line_content raw) < length raw"
      using l assms(1) by (cases raw rule: rev_cases) (auto simp: line_content_def strip_last_def one_line_def)
    ultimately show False by simp
  qed
  moreover have "13 \<noteq> line_feed" by (simp add: line_feed_def)
  then have "line_ending raw = [13] \<Longrightarrow> last raw \<noteq> line_feed"
    using line_parts [of raw] by (metis last_snoc)
  moreover have "butlast (text @ line_ending raw) = (if line_ending raw = [] then butlast text else text @ butlast (line_ending raw))"
    by (auto simp: butlast_append)
  ultimately show ?thesis
    using line_parts [of raw] assms(2,3) by (auto simp: one_line_def line_feed_def dest: in_set_butlastD)
qed

lemma lines_ok_map:
  assumes "lines_ok (List.map f ls)"
    and "\<And>l. l \<in> set ls \<Longrightarrow> one_line (f l) \<Longrightarrow> one_line (g l) \<and> (last (f l) = line_feed \<longrightarrow> last (g l) = line_feed)"
  shows "lines_ok (List.map g ls)"
  using assms by (auto simp: lines_ok_def simp flip: map_butlast dest: in_set_butlastD)

definition rewritten_line :: "(bytes \<Rightarrow> string) \<Rightarrow> (string \<Rightarrow> string option) \<Rightarrow> line_view \<Rightarrow> bytes" where
  "rewritten_line lossy rewrite_line l =
     (case rewrite_line (lossy (lv_content l)) of
        Some replacement \<Rightarrow> str_bytes replacement @ line_ending (lv_raw l)
      | None \<Rightarrow> lv_raw l)"

text \<open>
  C24.
  The rewriter changes what it is asked to change and no other byte: a replacement that is not
  empty and has no line feed takes the place of the text of its line and keeps the line ending,
  every other line stays as it was, and no line is added, lost or renumbered.
\<close>

theorem rewrite_keeps_lines:
  assumes "\<And>t r. rewrite_line t = Some r \<Longrightarrow> r \<noteq> [] \<and> line_feed \<notin> set (str_bytes r)"
  shows "List.map lv_raw (iter_lines 1 (rewrite_policy_text_lossless lossy rewrite_line input)) =
      List.map (rewritten_line lossy rewrite_line) (iter_lines 1 input) \<and>
    List.map lv_no (iter_lines 1 (rewrite_policy_text_lossless lossy rewrite_line input)) =
      List.map lv_no (iter_lines 1 input)"
proof -
  let ?ls = "iter_lines 1 input" and ?new = "rewritten_line lossy rewrite_line"
  have content: "lv_content l = line_content (lv_raw l)" if "l \<in> set ?ls" for l
    using iter_lines_props that by blast
  have "rewrite_policy_text_lossless lossy rewrite_line input = concat (List.map ?new ?ls)"
    unfolding rewrite_policy_text_lossless_def
    by (rule arg_cong [where f = concat], rule map_cong [OF refl])
      (simp add: rewritten_line_def content line_ending_def split: option.split)
  moreover have ok: "lines_ok (List.map lv_raw ?ls)" using iter_lines_props by blast
  moreover have "one_line (?new l) \<and> (last (lv_raw l) = line_feed \<longrightarrow> last (?new l) = line_feed)"
    if "one_line (lv_raw l)" for l
  proof (cases "rewrite_line (lossy (lv_content l))")
    case (Some r)
    then have "str_bytes r \<noteq> []" "line_feed \<notin> set (str_bytes r)" using assms by (auto simp: str_bytes_def)
    then show ?thesis using one_line_replaced [OF that] Some by (simp add: rewritten_line_def)
  qed (use that in \<open>simp add: rewritten_line_def\<close>)
  then have "lines_ok (List.map ?new ?ls)" using lines_ok_map [OF ok] by blast
  moreover have "List.map lv_no ?ls = [1..<1 + length ?ls]"
    using iter_lines_concat_lines [OF ok, of 1] by (simp add: iter_lines_concat del: upt_Suc)
  ultimately show ?thesis using iter_lines_concat_lines [of "List.map ?new ?ls" 1] by simp
qed

section \<open>Includes\<close>

text \<open>Which file a file includes, by an active directive on one of its lines.\<close>

definition line_include :: "'x policy_host_scheme \<Rightarrow> string \<Rightarrow> line_view \<Rightarrow> string option" where
  "line_include H file l =
     (case parse_ignore_line (ph_lossy H (lv_content l)) of
        IncludeFile f \<Rightarrow> Some f
      | IncludeIfExists f \<Rightarrow> if ph_exists H (sibling H file f) then Some f else None
      | _ \<Rightarrow> None)"

definition include_edges :: "'x policy_host_scheme \<Rightarrow> (string \<times> string) set" where
  "include_edges H = {(c, d). \<exists>bytes l f p. ph_read H c = Some bytes \<and> l \<in> set (iter_lines 1 bytes) \<and>
     line_include H c l = Some f \<and> resolve_include H c f = Inr p \<and> ph_canonicalize H p = Some d}"

definition finished :: "include_state \<Rightarrow> string set" where
  "finished s = fset (is_visited s) - set (is_stack s)"

text \<open>Finished files include finished files only, without a cycle.\<close>

definition include_inv :: "'x policy_host_scheme \<Rightarrow> include_state \<Rightarrow> bool" where
  "include_inv H s \<longleftrightarrow> distinct (is_stack s) \<and> set (is_stack s) \<subseteq> fset (is_visited s) \<and>
     include_edges H `` finished s \<subseteq> finished s \<and> acyclic (include_edges H \<inter> (finished s \<times> UNIV)) \<and>
     is_max_depth s = include_limit"

text \<open>What loading one file does to the state of the includes.\<close>

definition entered_file :: "'x policy_host_scheme \<Rightarrow> string \<Rightarrow> include_state \<Rightarrow> include_state \<Rightarrow> bool" where
  "entered_file H file s s' \<longleftrightarrow> include_inv H s' \<and> is_stack s' = is_stack s \<and> is_visited s |\<subseteq>| is_visited s' \<and>
     (\<exists>c. ph_canonicalize H file = Some c \<and> c \<in> finished s' \<and>
        fset (is_visited s') \<subseteq> fset (is_visited s) \<union> (include_edges H)\<^sup>* `` {c})"

text \<open>The part of it that holds while the lines of a file are read.\<close>

definition lines_read :: "'x policy_host_scheme \<Rightarrow> string \<Rightarrow> include_state \<Rightarrow> include_state \<Rightarrow> bool" where
  "lines_read H file s s' \<longleftrightarrow> include_inv H s' \<and> is_stack s' = is_stack s \<and> is_visited s |\<subseteq>| is_visited s' \<and>
     fset (is_visited s') \<subseteq> fset (is_visited s) \<union> (include_edges H)\<^sup>* `` {file}"

lemma lines_read_refl: "include_inv H s \<Longrightarrow> lines_read H file s s"
  by (simp add: lines_read_def)

lemma lines_read_trans: "lines_read H file s t \<Longrightarrow> lines_read H file t u \<Longrightarrow> lines_read H file s u"
  by (auto simp: lines_read_def)

lemma lines_read_finished: "lines_read H file s t \<Longrightarrow> finished s \<subseteq> finished t"
  by (auto simp: lines_read_def finished_def)

lemma entered_lines_read:
  assumes "entered_file H p s t" "ph_canonicalize H p = Some d" "(file, d) \<in> include_edges H"
  shows "lines_read H file s t \<and> d \<in> finished t"
  using assms by (auto simp: entered_file_def lines_read_def intro: converse_rtrancl_into_rtrancl)

lemma include_step:
  assumes "bind_result (resolve_include H file f) (\<lambda>p. load p s) = Inr s1" "include_inv H (il_state s)"
    and "\<And>p s s'. load p s = Inr s' \<Longrightarrow> include_inv H (il_state s) \<Longrightarrow> entered_file H p (il_state s) (il_state s')"
    and "ph_read H file = Some bytes" "l \<in> set (iter_lines 1 bytes)" "line_include H file l = Some f"
  shows "lines_read H file (il_state s) (il_state s1) \<and>
    (\<forall>p d. resolve_include H file f = Inr p \<longrightarrow> ph_canonicalize H p = Some d \<longrightarrow> d \<in> finished (il_state s1))"
proof -
  from assms(1) obtain p where p: "resolve_include H file f = Inr p" "load p s = Inr s1"
    by (auto simp: bind_result_Inr_iff)
  have e: "entered_file H p (il_state s) (il_state s1)" by (rule assms(3) [OF p(2) assms(2)])
  then obtain d where d: "ph_canonicalize H p = Some d" by (auto simp: entered_file_def)
  have "(file, d) \<in> include_edges H" using p(1) d assms(4-6) by (auto simp: include_edges_def)
  from entered_lines_read [OF e d this] p(1) d show ?thesis by auto
qed

lemma load_lines_includes:
  assumes "load_lines load H depth file ls s = Inr s'" "include_inv H (il_state s)"
    and load: "\<And>p s s'. load p s = Inr s' \<Longrightarrow> include_inv H (il_state s) \<Longrightarrow> entered_file H p (il_state s) (il_state s')"
    and bytes: "ph_read H file = Some bytes" "set ls \<subseteq> set (iter_lines 1 bytes)"
  shows "lines_read H file (il_state s) (il_state s') \<and>
    (\<forall>l\<in>set ls. \<forall>f p d. line_include H file l = Some f \<longrightarrow> resolve_include H file f = Inr p \<longrightarrow>
       ph_canonicalize H p = Some d \<longrightarrow> d \<in> finished (il_state s'))"
  using assms(1,2) bytes(2)
proof (induction ls arbitrary: s)
  case Nil
  then show ?case by (simp add: lines_read_refl)
next
  case (Cons l ls)
  have l: "l \<in> set (iter_lines 1 bytes)" using Cons.prems(3) by simp
  obtain s1 where s1: "load_lines load H depth file ls s1 = Inr s'"
    and one: "(case parse_ignore_line (ph_lossy H (lv_content l)) of
          NoRule \<Rightarrow> Inr s
        | IncludeFile f \<Rightarrow> bind_result (resolve_include H file f) (\<lambda>p. load p s)
        | IncludeIfExists f \<Rightarrow>
            if ph_exists H (sibling H file f) then bind_result (resolve_include H file f) (\<lambda>p. load p s)
            else Inr s
        | Rule ignore pattern \<Rightarrow> add_rule H depth file (lv_no l) ignore pattern s) = Inr s1"
    using Cons.prems(1) by (auto simp: bind_result_Inr_iff)
  have step: "lines_read H file (il_state s) (il_state s1) \<and>
      (\<forall>f p d. line_include H file l = Some f \<longrightarrow> resolve_include H file f = Inr p \<longrightarrow>
         ph_canonicalize H p = Some d \<longrightarrow> d \<in> finished (il_state s1))"
  proof (cases "line_include H file l")
    case None
    then have "il_state s1 = il_state s"
      using one by (auto simp: line_include_def add_rule_def Let_def split: ignore_line.splits option.splits if_splits)
    with None Cons.prems(2) show ?thesis by (simp add: lines_read_refl)
  next
    case (Some f)
    then have "bind_result (resolve_include H file f) (\<lambda>p. load p s) = Inr s1"
      using one by (auto simp: line_include_def split: ignore_line.splits if_splits)
    from include_step [where load = load, OF this Cons.prems(2) load bytes(1) l Some] show ?thesis using Some by auto
  qed
  then have "include_inv H (il_state s1)" by (simp add: lines_read_def)
  from Cons.IH [OF s1 this] Cons.prems(3) have IH: "lines_read H file (il_state s1) (il_state s')"
    "\<forall>l\<in>set ls. \<forall>f p d. line_include H file l = Some f \<longrightarrow> resolve_include H file f = Inr p \<longrightarrow>
       ph_canonicalize H p = Some d \<longrightarrow> d \<in> finished (il_state s')" by simp_all
  have "finished (il_state s1) \<subseteq> finished (il_state s')" by (rule lines_read_finished [OF IH(1)])
  then show ?case using IH step lines_read_trans by (auto simp: subset_iff)
qed

lemma acyclic_extend:
  assumes "acyclic (r \<inter> F \<times> UNIV)" "r `` F \<subseteq> F" "c \<notin> F" "r `` {c} \<subseteq> F"
  shows "acyclic (r \<inter> insert c F \<times> UNIV)"
proof (rule acyclicI, intro allI notI)
  let ?r = "r \<inter> insert c F \<times> UNIV" and ?q = "r \<inter> F \<times> UNIV"
  fix x assume x: "(x, x) \<in> ?r\<^sup>+"
  have inside: "z \<in> F \<and> (y, z) \<in> ?q\<^sup>+" if "(y, z) \<in> ?r\<^sup>+" "y \<in> F" for y z
    using that
  proof (induction rule: trancl_induct)
    case (base z)
    with assms(2,3) show ?case by auto
  next
    case (step z u)
    then have "(z, u) \<in> ?q" "u \<in> F" using assms(2) by auto
    then show ?case using step by (meson trancl_into_trancl)
  qed
  have "x \<in> insert c F" using x by (auto dest: tranclD)
  moreover have "x \<notin> F" using inside [OF x] assms(1) by (auto simp: acyclic_def)
  moreover have "x \<noteq> c"
  proof
    assume "x = c"
    from tranclD [OF x] obtain d where "(x, d) \<in> ?r" "(d, x) \<in> ?r\<^sup>*" by blast
    then have "d \<in> F" "(d, x) \<in> ?r\<^sup>*" using assms(4) \<open>x = c\<close> by auto
    then have "x \<in> F" using inside [of d x] by (auto simp: rtrancl_eq_or_trancl)
    with \<open>x = c\<close> assms(3) show False by simp
  qed
  ultimately show False by simp
qed

lemma include_enter_cases:
  assumes "include_enter H file depth s = Inr (entered, st)"
  shows "\<exists>c. ph_canonicalize H file = Some c \<and> depth \<le> is_max_depth s \<and> c \<notin> set (is_stack s) \<and>
    (entered = None \<and> st = s \<and> c |\<in>| is_visited s \<or>
     entered = Some c \<and> c |\<notin>| is_visited s \<and>
       st = s\<lparr>is_visited := finsert c (is_visited s), is_stack := is_stack s @ [c]\<rparr>)"
  using assms by (auto simp: include_enter_def split: option.splits if_splits)

lemma load_ignore_includes:
  "load_ignore n H src s = Inr s' \<Longrightarrow> include_inv H (il_state s) \<Longrightarrow> entered_file H src (il_state s) (il_state s')"
proof (induction n arbitrary: src s s')
  case 0
  then show ?case
    by (auto simp: bind_result_Inr_iff include_inv_def dest!: include_enter_cases)
next
  case (Suc n)
  note inv = Suc.prems(2)
  from Suc.prems(1) obtain entered st where enter: "include_enter H src (include_limit - n) (il_state s) = Inr (entered, st)"
    and go: "(case entered of
         None \<Rightarrow> Inr (s\<lparr>il_state := st\<rparr>)
       | Some c \<Rightarrow>
           (case ph_read H c of
              None \<Rightarrow> Inl (ReadFailed c)
            | Some bytes \<Rightarrow>
                map_result (\<lambda>s'. s'\<lparr>il_state := include_exit (il_state s')\<rparr>)
                  (load_lines (load_ignore n H) H (include_limit - n) c (iter_lines 1 bytes) (s\<lparr>il_state := st\<rparr>)))) = Inr s'"
    by (auto simp: bind_result_Inr_iff)
  obtain c where c: "ph_canonicalize H src = Some c" "c \<notin> set (is_stack (il_state s))"
    and cases: "entered = None \<and> st = il_state s \<and> c |\<in>| is_visited (il_state s) \<or>
      entered = Some c \<and> c |\<notin>| is_visited (il_state s) \<and>
        st = (il_state s)\<lparr>is_visited := finsert c (is_visited (il_state s)), is_stack := is_stack (il_state s) @ [c]\<rparr>"
    using include_enter_cases [OF enter] by blast
  from cases show ?case
  proof
    assume "entered = None \<and> st = il_state s \<and> c |\<in>| is_visited (il_state s)"
    with go c inv show ?thesis by (auto simp: entered_file_def finished_def)
  next
    assume new: "entered = Some c \<and> c |\<notin>| is_visited (il_state s) \<and>
        st = (il_state s)\<lparr>is_visited := finsert c (is_visited (il_state s)), is_stack := is_stack (il_state s) @ [c]\<rparr>"
    with go obtain bytes s2 where s2: "ph_read H c = Some bytes"
        "load_lines (load_ignore n H) H (include_limit - n) c (iter_lines 1 bytes) (s\<lparr>il_state := st\<rparr>) = Inr s2"
        "s' = s2\<lparr>il_state := include_exit (il_state s2)\<rparr>"
      by (auto simp: map_result_Inr_iff split: option.splits)
    have same: "finished st = finished (il_state s)" using new c(2) by (auto simp: finished_def)
    have "include_inv H st" using inv new c(2) same by (auto simp: include_inv_def)
    then have lines: "lines_read H c st (il_state s2)"
      and incs: "\<forall>l\<in>set (iter_lines 1 bytes). \<forall>f p d. line_include H c l = Some f \<longrightarrow> resolve_include H c f = Inr p \<longrightarrow>
         ph_canonicalize H p = Some d \<longrightarrow> d \<in> finished (il_state s2)"
      using load_lines_includes [OF s2(2) _ Suc.IH s2(1)] by auto
    have inv2: "include_inv H (il_state s2)" and stack2: "is_stack (il_state s2) = is_stack (il_state s) @ [c]"
      and vis2: "finsert c (is_visited (il_state s)) |\<subseteq>| is_visited (il_state s2)"
      and reach: "fset (is_visited (il_state s2)) \<subseteq> insert c (fset (is_visited (il_state s))) \<union> (include_edges H)\<^sup>* `` {c}"
      using lines new by (auto simp: lines_read_def)
    have F: "finished (il_state s') = insert c (finished (il_state s2))"
      using c(2) vis2 by (auto simp: s2(3) finished_def include_exit_def stack2)
    have "c \<notin> finished (il_state s2)" by (simp add: finished_def stack2)
    moreover have edges: "include_edges H `` {c} \<subseteq> finished (il_state s2)"
      using incs s2(1) by (auto simp: include_edges_def)
    ultimately have "acyclic (include_edges H \<inter> finished (il_state s') \<times> UNIV)"
      unfolding F using inv2 by (intro acyclic_extend) (auto simp: include_inv_def)
    moreover have "include_edges H `` finished (il_state s') \<subseteq> finished (il_state s')"
      using edges inv2 unfolding F by (auto simp: include_inv_def)
    ultimately have "include_inv H (il_state s')"
      using inv2 c(2) by (auto simp: include_inv_def s2(3) include_exit_def stack2)
    moreover have "is_stack (il_state s') = is_stack (il_state s)" "is_visited (il_state s') = is_visited (il_state s2)"
      by (simp_all add: s2(3) include_exit_def stack2)
    ultimately show ?thesis using vis2 reach c(1) F by (auto simp: entered_file_def)
  qed
qed


section \<open>Configuration\<close>

text \<open>
  The configuration of the user may include files of the workspace only: with one that is
  elsewhere, beside the user's own file say, no key can be explained any more.
\<close>

theorem user_include_fails:
  assumes "ph_user_config H = Some d" "ph_exists H (path_join d ''config.toml'')"
    and "ph_canonicalize H (path_join d ''config.toml'') = Some c" "ph_read H c = Some content"
    and "parse_config_includes H content c = Inl (OutsideWorkspace p) # rest"
  shows "explain_config_key H key = Inl (OutsideWorkspace p)"
proof -
  have "load_config (Suc include_limit) H User (path_join d ''config.toml'')
      \<lparr>cl_state = include_new include_limit, cl_lattice = lattice_new\<rparr> = Inl (OutsideWorkspace p)"
    using assms(3-5) by (simp add: include_enter_def include_new_def)
  then show ?thesis
    using assms(1,2)
    by (simp add: explain_config_key_def load_config_lattice_def config_candidates_def del: load_config.simps)
qed

section \<open>A sample host\<close>

text \<open>The white space of \<^const>\<open>trim\<close>, evaluated.\<close>

lemma utf8_ws_strings_code [code]:
  "utf8_ws_strings =
     [[CHR 9], [CHR 10], [CHR 11], [CHR 12], [CHR 13], [CHR 32], [CHR 0xC2, CHR 0x85], [CHR 0xC2, CHR 0xA0],
      [CHR 0xE1, CHR 0x9A, CHR 0x80],
      [CHR 0xE2, CHR 0x80, CHR 0x80], [CHR 0xE2, CHR 0x80, CHR 0x81], [CHR 0xE2, CHR 0x80, CHR 0x82],
      [CHR 0xE2, CHR 0x80, CHR 0x83], [CHR 0xE2, CHR 0x80, CHR 0x84], [CHR 0xE2, CHR 0x80, CHR 0x85],
      [CHR 0xE2, CHR 0x80, CHR 0x86], [CHR 0xE2, CHR 0x80, CHR 0x87], [CHR 0xE2, CHR 0x80, CHR 0x88],
      [CHR 0xE2, CHR 0x80, CHR 0x89], [CHR 0xE2, CHR 0x80, CHR 0x8A], [CHR 0xE2, CHR 0x80, CHR 0xA8],
      [CHR 0xE2, CHR 0x80, CHR 0xA9], [CHR 0xE2, CHR 0x80, CHR 0xAF], [CHR 0xE2, CHR 0x81, CHR 0x9F],
      [CHR 0xE3, CHR 0x80, CHR 0x80]]"
  by code_simp

definition sample_host :: policy_host where
  "sample_host =
     \<lparr>ph_canonicalize = (\<lambda>p. if p \<in> {''/w/.arcignore'', ''/w/more''} then Some p else None),
      ph_read = (\<lambda>p. if p = ''/w/.arcignore'' then Some (str_bytes ''#include more'' @ [10] @ str_bytes ''*.o'')
        else if p = ''/w/more'' then Some (str_bytes ''tmp'' @ [13, 10] @ str_bytes ''!tmp/keep'') else None),
      ph_exists = (\<lambda>p. p \<in> {''/w/.arcignore'', ''/w/more''}), ph_lossy = bytes_str,
      ph_glob = (\<lambda>f pattern. Some (\<lambda>path is_dir. path = pattern)), ph_toml = (\<lambda>b. None),
      ph_toml_text = (\<lambda>v. []), ph_owned = True, ph_user_config = None, ph_root = ''/w''\<rparr>"

lemma sample_host_loads:
  "case arcignore_load sample_host of
     Inr m \<Rightarrow> is_visited (il_state m) = {|''/w/.arcignore'', ''/w/more''|} \<and> length (il_lattice m) = 3 \<and>
       matched_path_or_any_parents m ''tmp'' False \<and> \<not> matched_path_or_any_parents m ''tmp/keep'' False
   | Inl e \<Rightarrow> False"
  by code_simp


definition uncomment :: "string \<Rightarrow> string option" where
  "uncomment t = (case t of c # cs \<Rightarrow> if c = CHR ''#'' then Some ''x'' else None | [] \<Rightarrow> None)"

theorem rewrite_keeps_lines_witness:
  "List.map lv_raw (iter_lines 1 (rewrite_policy_text_lossless bytes_str uncomment [35, 97, 13, 10, 98])) = [[120, 13, 10], [98]]"
proof -
  have "r \<noteq> [] \<and> line_feed \<notin> set (str_bytes r)" if "uncomment t = Some r" for t r
    using that by (auto simp: uncomment_def str_bytes_def line_feed_def byte_of_char_def split: list.splits if_splits)
  from rewrite_keeps_lines [of uncomment bytes_str "[35, 97, 13, 10, 98]", OF this]
  have "List.map lv_raw (iter_lines 1 (rewrite_policy_text_lossless bytes_str uncomment [35, 97, 13, 10, 98])) =
      List.map (rewritten_line bytes_str uncomment) (iter_lines 1 [35, 97, 13, 10, 98])" by simp
  also have "\<dots> = [[120, 13, 10], [98]]" by code_simp
  finally show ?thesis .
qed

theorem user_include_fails_witness:
  "explain_config_key (sample_host\<lparr>ph_user_config := Some ''/home'', ph_exists := (\<lambda>p. True), ph_canonicalize := Some,
     ph_read := (\<lambda>p. Some (str_bytes ''include = colours''))\<rparr>) ''ui.color'' = Inl (OutsideWorkspace ''/home/colours'')"
  (is "explain_config_key ?H _ = _")
proof -
  have "parse_config_includes ?H (str_bytes ''include = colours'') ''/home/config.toml'' = [Inl (OutsideWorkspace ''/home/colours'')]"
    by code_simp
  moreover have "path_join ''/home'' ''config.toml'' = ''/home/config.toml''" by code_simp
  ultimately show ?thesis
    by (intro user_include_fails [of _ "''/home''" "''/home/config.toml''" "str_bytes ''include = colours''"]) simp_all
qed

end
