(* ===== verification/Mappings.thy ===== *)
theory Mappings
  imports Prelude
begin

text \<open>
  Conflict aggregation for mapping-style policy outputs (\<^verbatim>\<open>arc-policy/src/conflict.rs\<close>).
  The two-level \<^verbatim>\<open>BTreeMap\<close> is a finite map, iterated in the order of its keys; the caller's
  destination validator is a pure function.
\<close>

record mapping_record =
  mr_source :: string
  mr_destination :: "string option"
  mr_rule_index :: nat

datatype validation_issue = MappingConflict (destination: string) "string list" "nat list"

datatype validation_fix = InvalidDestinationDropped string nat

type_synonym validation_error = "validation_issue list"

record validated_mappings =
  vm_accepted :: "mapping_record list"
  vm_fixes :: "validation_fix list"

text \<open>The \<^verbatim>\<open>Display\<close> of the error.\<close>

definition validation_error_display :: "validation_error \<Rightarrow> string" where
  "validation_error_display issues = ''Found '' @ nat_dec (length issues) @ '' mapping issue(s): '' @
     join '', '' (List.map destination issues)"

text \<open>The first loop: drop the records whose destination is invalid, with a fix each.\<close>

fun split_records ::
  "(string \<Rightarrow> bool) \<Rightarrow> mapping_record list \<Rightarrow> mapping_record list \<Rightarrow> validation_fix list \<Rightarrow>
   mapping_record list \<times> validation_fix list" where
  "split_records ok [] accepted fixes = (accepted, fixes)"
| "split_records ok (r # rs) accepted fixes =
     (case mr_destination r of
        Some d \<Rightarrow>
          if \<not> ok d
          then split_records ok rs accepted (fixes @ [InvalidDestinationDropped d (mr_rule_index r)])
          else split_records ok rs (accepted @ [r]) fixes
      | None \<Rightarrow> split_records ok rs (accepted @ [r]) fixes)"

type_synonym contributors = "(string, nat fset) fmap"

text \<open>The second loop: \<^verbatim>\<open>entry(destination).or_default().entry(source).or_default().insert(index)\<close>.\<close>

definition add_record :: "mapping_record \<Rightarrow> (string, contributors) fmap \<Rightarrow> (string, contributors) fmap" where
  "add_record r m =
     (case mr_destination r of
        None \<Rightarrow> m
      | Some d \<Rightarrow>
          let c = (case fmlookup m d of None \<Rightarrow> fmempty | Some c \<Rightarrow> c);
              s = (case fmlookup c (mr_source r) of None \<Rightarrow> {||} | Some s \<Rightarrow> s)
          in fmupd d (fmupd (mr_source r) (finsert (mr_rule_index r) s) c) m)"

definition by_destination :: "mapping_record list \<Rightarrow> (string, contributors) fmap" where
  "by_destination rs = fold add_record rs fmempty"

text \<open>The third loop: an issue for every destination with more than one source.\<close>

definition conflict_issue :: "string \<Rightarrow> contributors \<Rightarrow> validation_issue" where
  "conflict_issue d c =
     (let sources = sorted_list_of_fset (fmdom c)
      in MappingConflict d sources
           (List.map (\<lambda>s. hd (sorted_list_of_fset (the (fmlookup c s)))) sources))"

definition collect_issues :: "(string, contributors) fmap \<Rightarrow> validation_issue list" where
  "collect_issues m =
     concat (List.map (\<lambda>d. let c = the (fmlookup m d) in
       if fcard (fmdom c) > 1 then [conflict_issue d c] else []) (sorted_list_of_fset (fmdom m)))"

definition validate_mappings_with ::
  "mapping_record list \<Rightarrow> (string \<Rightarrow> bool) \<Rightarrow> validation_error + validated_mappings" where
  "validate_mappings_with records ok =
     (case split_records ok records [] [] of (accepted, fixes) \<Rightarrow>
        let issues = collect_issues (by_destination accepted)
        in if issues \<noteq> [] then Inl issues
           else Inr \<lparr>vm_accepted = accepted, vm_fixes = fixes\<rparr>)"

definition validate_mappings :: "mapping_record list \<Rightarrow> validation_error + validated_mappings" where
  "validate_mappings records = validate_mappings_with records (\<lambda>d. d \<noteq> [])"

section \<open>The specification\<close>

definition valid_record :: "(string \<Rightarrow> bool) \<Rightarrow> mapping_record \<Rightarrow> bool" where
  "valid_record ok r = (case mr_destination r of None \<Rightarrow> True | Some d \<Rightarrow> ok d)"

definition fix_of :: "mapping_record \<Rightarrow> validation_fix" where
  "fix_of r = InvalidDestinationDropped (the (mr_destination r)) (mr_rule_index r)"

definition sources_of :: "mapping_record set \<Rightarrow> string \<Rightarrow> string set" where
  "sources_of R d = mr_source ` {r \<in> R. mr_destination r = Some d}"

definition rules_of :: "mapping_record set \<Rightarrow> string \<Rightarrow> string \<Rightarrow> nat set" where
  "rules_of R d s = mr_rule_index ` {r \<in> R. mr_destination r = Some d \<and> mr_source r = s}"

definition contested :: "mapping_record set \<Rightarrow> string set" where
  "contested R = {d. \<exists>r r'. r \<in> R \<and> r' \<in> R \<and> mr_destination r = Some d \<and>
     mr_destination r' = Some d \<and> mr_source r \<noteq> mr_source r'}"

definition issue_of :: "mapping_record set \<Rightarrow> string \<Rightarrow> validation_issue" where
  "issue_of R d = (let sources = sorted_list_of_set (sources_of R d)
     in MappingConflict d sources (List.map (\<lambda>s. Min (rules_of R d s)) sources))"

lemma split_records_eq:
  "split_records ok rs accepted fxs =
     (accepted @ filter (valid_record ok) rs, fxs @ List.map fix_of (filter (\<lambda>r. \<not> valid_record ok r) rs))"
  by (induction rs arbitrary: accepted fxs)
    (auto simp: valid_record_def fix_of_def split: option.splits)

text \<open>What the nested map holds after some records.\<close>

definition table_of :: "mapping_record set \<Rightarrow> (string, contributors) fmap \<Rightarrow> bool" where
  "table_of R m \<longleftrightarrow>
     (\<forall>d. case fmlookup m d of
        None \<Rightarrow> sources_of R d = {}
      | Some c \<Rightarrow> sources_of R d \<noteq> {} \<and> fset (fmdom c) = sources_of R d \<and>
          (\<forall>s S. fmlookup c s = Some S \<longrightarrow> fset S = rules_of R d s))"

lemma spec_insert:
  "sources_of (insert r R) d = (if mr_destination r = Some d then insert (mr_source r) (sources_of R d)
     else sources_of R d)"
  "rules_of (insert r R) d s = (if mr_destination r = Some d \<and> mr_source r = s
     then insert (mr_rule_index r) (rules_of R d s) else rules_of R d s)"
  by (auto simp: sources_of_def rules_of_def)

lemma rules_empty: "s \<notin> sources_of R d \<Longrightarrow> rules_of R d s = {}"
  by (auto simp: sources_of_def rules_of_def)

lemma rules_nonempty: "s \<in> sources_of R d \<Longrightarrow> rules_of R d s \<noteq> {}"
  by (auto simp: sources_of_def rules_of_def)

lemma add_record_table: "table_of R m \<Longrightarrow> table_of (insert r R) (add_record r m)"
proof (cases "mr_destination r")
  case (Some d)
  assume t: "table_of R m"
  define c where "c = (case fmlookup m d of None \<Rightarrow> fmempty | Some c \<Rightarrow> c)"
  define S where "S = (case fmlookup c (mr_source r) of None \<Rightarrow> {||} | Some s \<Rightarrow> s)"
  have c: "fset (fmdom c) = sources_of R d"
    "\<And>s S. fmlookup c s = Some S \<Longrightarrow> fset S = rules_of R d s"
    using t [unfolded table_of_def, THEN spec, of d] by (auto simp: c_def split: option.splits)
  have S: "fset S = rules_of R d (mr_source r)"
  proof (cases "fmlookup c (mr_source r)")
    case None
    then have "mr_source r |\<notin>| fmdom c" by (simp add: fmdom_notI)
    with c(1) have "mr_source r \<notin> sources_of R d" by auto
    with None show ?thesis by (simp add: S_def rules_empty)
  qed (simp add: S_def c(2))
  have m': "add_record r m = fmupd d (fmupd (mr_source r) (finsert (mr_rule_index r) S) c) m"
    by (simp add: add_record_def Some c_def S_def Let_def)
  show ?thesis unfolding table_of_def
  proof
    fix d'
    show "case fmlookup (add_record r m) d' of
        None \<Rightarrow> sources_of (insert r R) d' = {}
      | Some c \<Rightarrow> sources_of (insert r R) d' \<noteq> {} \<and> fset (fmdom c) = sources_of (insert r R) d' \<and>
          (\<forall>s S. fmlookup c s = Some S \<longrightarrow> fset S = rules_of (insert r R) d' s)"
    proof (cases "d' = d")
      case True
      then show ?thesis using c S Some by (auto simp: m' spec_insert)
    next
      case False
      then have "sources_of (insert r R) d' = sources_of R d'" "rules_of (insert r R) d' s = rules_of R d' s" for s
        using Some by (auto simp: spec_insert)
      with False show ?thesis
        using t [unfolded table_of_def, THEN spec, of d'] by (auto simp: m' split: option.splits)
    qed
  qed
next
  case None
  then have "sources_of (insert r R) = sources_of R" "rules_of (insert r R) = rules_of R"
    by (simp_all add: fun_eq_iff spec_insert)
  then have "table_of (insert r R) m = table_of R m" by (simp only: table_of_def)
  then show "table_of R m \<Longrightarrow> table_of (insert r R) (add_record r m)"
    using None by (simp add: add_record_def)
qed

lemma fold_table: "table_of R m \<Longrightarrow> table_of (R \<union> set rs) (fold add_record rs m)"
proof (induction rs arbitrary: R m)
  case (Cons r rs)
  from Cons.IH [OF add_record_table [OF Cons.prems, of r]] show ?case by simp
qed simp

lemma by_destination_table: "table_of (set rs) (by_destination rs)"
  using fold_table [of "{}" fmempty rs]
  by (simp add: by_destination_def table_of_def sources_of_def)

lemma contested_iff: "d \<in> contested R \<longleftrightarrow> (\<exists>s s'. s \<in> sources_of R d \<and> s' \<in> sources_of R d \<and> s \<noteq> s')"
  unfolding contested_def sources_of_def by blast

lemma many_sources: "finite (sources_of R d) \<Longrightarrow> 1 < card (sources_of R d) \<longleftrightarrow> d \<in> contested R"
  unfolding contested_iff by (metis One_nat_def card_le_Suc0_iff_eq not_le)

lemma sources_of_finite [simp]: "finite R \<Longrightarrow> finite (sources_of R d)"
  "finite R \<Longrightarrow> finite (rules_of R d s)" "finite R \<Longrightarrow> finite (contested R)"
proof -
  assume "finite R"
  then show "finite (sources_of R d)" "finite (rules_of R d s)"
    by (simp_all add: sources_of_def rules_of_def)
  have "contested R \<subseteq> (\<lambda>r. the (mr_destination r)) ` R" by (force simp: contested_def)
  with \<open>finite R\<close> show "finite (contested R)" by (rule rev_finite_subset [OF finite_imageI])
qed

lemma hd_sorted_list_of_fset: "fset S \<noteq> {} \<Longrightarrow> hd (sorted_list_of_fset S) = Min (fset S)"
  by (simp add: sorted_list_of_fset.rep_eq sorted_list_of_set_nonempty)

lemma conflict_issue_eq:
  assumes "table_of R m" "fmlookup m d = Some c"
  shows "conflict_issue d c = issue_of R d"
proof -
  have c: "fset (fmdom c) = sources_of R d" "\<And>s S. fmlookup c s = Some S \<Longrightarrow> fset S = rules_of R d s"
    using assms(1) [unfolded table_of_def, THEN spec, of d] assms(2) by auto
  have "hd (sorted_list_of_fset (the (fmlookup c s))) = Min (rules_of R d s)" if "s |\<in>| fmdom c" for s
  proof -
    from that obtain S where S: "fmlookup c s = Some S" by auto
    have "s \<in> sources_of R d" using that c(1) by auto
    with c(2) [OF S] S rules_nonempty [of s R d] show ?thesis by (simp add: hd_sorted_list_of_fset)
  qed
  then show ?thesis
    by (simp add: conflict_issue_def issue_of_def Let_def sorted_list_of_fset.rep_eq flip: c(1))
qed

lemma concat_if: "concat (List.map (\<lambda>x. if P x then [f x] else []) xs) = List.map f (filter P xs)"
  by (induction xs) auto

lemma collect_issues_eq:
  assumes "finite R" "table_of R m"
  shows "collect_issues m = List.map (issue_of R) (sorted_list_of_set (contested R))"
proof -
  have dom: "sources_of R d \<noteq> {} \<and> fset (fmdom (the (fmlookup m d))) = sources_of R d \<and>
      conflict_issue d (the (fmlookup m d)) = issue_of R d" if "d |\<in>| fmdom m" for d
  proof -
    from that obtain c where "fmlookup m d = Some c" by auto
    with assms(2) [unfolded table_of_def, THEN spec, of d] conflict_issue_eq [OF assms(2)]
    show ?thesis by auto
  qed
  have many: "1 < fcard (fmdom (the (fmlookup m d))) \<longleftrightarrow> d \<in> contested R" if "d |\<in>| fmdom m" for d
    using dom [OF that] many_sources [of R d] assms(1) by (simp add: fcard.rep_eq)
  have "collect_issues m = List.map (issue_of R)
      (filter (\<lambda>d. d \<in> contested R) (sorted_list_of_fset (fmdom m)))"
    unfolding collect_issues_def Let_def
    using dom many by (subst concat_if [symmetric]) (auto intro!: arg_cong [where f = concat] map_cong)
  moreover have "filter (\<lambda>d. d \<in> contested R) (sorted_list_of_fset (fmdom m))
      = sorted_list_of_set (contested R)"
  proof (rule sorted_distinct_eqI)
    have "d |\<in>| fmdom m" if "d \<in> contested R" for d
    proof (rule ccontr)
      assume "d |\<notin>| fmdom m"
      then have "sources_of R d = {}"
        using assms(2) [unfolded table_of_def, THEN spec, of d] by (simp add: fmdom_notD)
      with that show False by (simp add: contested_iff)
    qed
    then show "set (filter (\<lambda>d. d \<in> contested R) (sorted_list_of_fset (fmdom m)))
        = set (sorted_list_of_set (contested R))" using assms(1) by auto
  qed (simp_all add: assms(1) sorted_wrt_filter)
  ultimately show ?thesis by simp
qed

text \<open>
  Aggregated conflicts: records with an invalid destination are dropped with a fix each;
  the rest is accepted unless some destination is claimed by two different sources, and then
  the error lists every contested destination in order, with all its sources in order and the
  first rule of each.  The verdict depends on the set of records only, not on their order.
\<close>

theorem validate_mappings_exact:
  "validate_mappings_with records ok =
     (let accepted = filter (valid_record ok) records
      in if contested (set accepted) = {}
         then Inr \<lparr>vm_accepted = accepted,
                   vm_fixes = List.map fix_of (filter (\<lambda>r. \<not> valid_record ok r) records)\<rparr>
         else Inl (List.map (issue_of (set accepted)) (sorted_list_of_set (contested (set accepted)))))"
  unfolding validate_mappings_with_def split_records_eq
  using collect_issues_eq [OF finite_set by_destination_table, of "filter (valid_record ok) records"]
  by (simp add: Let_def)

end
