(* ===== verification/Net.thy ===== *)
theory Net
  imports Wire
begin

text \<open>
  Transport of the native sync protocol: the frame codec (\<^verbatim>\<open>arc-net/src/sync/codec.rs\<close>), the
  adaptive batch window (\<^verbatim>\<open>window.rs\<close>) and the phases of a session (\<^verbatim>\<open>session.rs\<close>).
\<close>

section \<open>Frames\<close>

datatype message_type = Handshake | HaveWant | PayloadStream | KeepAlive | Progress

record sync_frame =
  sf_type :: message_type
  sf_payload :: bytes

datatype io_error =
    UnknownMessageType u8
  | FrameTooLong nat
  | FrameLengthOverflow
  | PayloadExceedsU32
  | PayloadTooLong nat

definition max_frame_len :: nat where
  "max_frame_len = 16 * 1024 * 1024"

text \<open>\<^verbatim>\<open>item.message_type as u8\<close> and \<^verbatim>\<open>TryFrom<u8>\<close>.\<close>

fun message_type_byte :: "message_type \<Rightarrow> u8" where
  "message_type_byte Handshake = 1"
| "message_type_byte HaveWant = 2"
| "message_type_byte PayloadStream = 3"
| "message_type_byte KeepAlive = 4"
| "message_type_byte Progress = 5"

definition message_type_try_from :: "u8 \<Rightarrow> io_error + message_type" where
  "message_type_try_from v =
     (if v = 1 then Inr Handshake
      else if v = 2 then Inr HaveWant
      else if v = 3 then Inr PayloadStream
      else if v = 4 then Inr KeepAlive
      else if v = 5 then Inr Progress
      else Inl (UnknownMessageType v))"

lemma message_type_roundtrip [simp]: "message_type_try_from (message_type_byte t) = Inr t"
  by (cases t) (simp_all add: message_type_try_from_def)

definition frame_new :: "message_type \<Rightarrow> bytes \<Rightarrow> sync_frame" where
  "frame_new t payload = \<lparr>sf_type = t, sf_payload = payload\<rparr>"

text \<open>Decoding leaves the buffer alone unless it returns a frame, whose bytes it consumes.\<close>

definition codec_decode :: "bytes \<Rightarrow> io_error + sync_frame option \<times> bytes" where
  "codec_decode src =
     (if length src < 5 then Inr (None, src)
      else bind_result (message_type_try_from (hd src)) (\<lambda>t.
        let len = unat (be_word (take 4 (drop 1 src)) :: u32)
        in if len > max_frame_len then Inl (FrameTooLong len)
           else if 5 + len > usize_max then Inl FrameLengthOverflow
           else if length src < 5 + len then Inr (None, src)
           else Inr (Some (frame_new t (take len (drop 5 src))), drop len (drop 5 src))))"

definition codec_encode :: "sync_frame \<Rightarrow> bytes \<Rightarrow> io_error + bytes" where
  "codec_encode item dst =
     (let payload_len = length (sf_payload item)
      in if payload_len > 2 ^ 32 - 1 then Inl PayloadExceedsU32
         else if payload_len > max_frame_len then Inl (PayloadTooLong payload_len)
         else Inr (dst @ [message_type_byte (sf_type item)] @ put_u32 (word_of_nat payload_len) @
                   sf_payload item))"

text \<open>The bytes of one frame.\<close>

definition frame_bytes :: "sync_frame \<Rightarrow> bytes" where
  "frame_bytes f = message_type_byte (sf_type f) # put_u32 (word_of_nat (length (sf_payload f))) @ sf_payload f"

lemma codec_encode_Inr_iff:
  "codec_encode f dst = Inr out \<longleftrightarrow> length (sf_payload f) \<le> max_frame_len \<and> out = dst @ frame_bytes f"
  by (auto simp: codec_encode_def frame_bytes_def Let_def max_frame_len_def)

lemma length_frame_bytes [simp]: "length (frame_bytes f) = 5 + length (sf_payload f)"
  by (simp add: frame_bytes_def)

lemma frame_length_field:
  "length (sf_payload f) \<le> max_frame_len \<Longrightarrow>
   unat (be_word (take 4 (drop 1 (frame_bytes f @ rest))) :: u32) = length (sf_payload f)"
  by (simp add: frame_bytes_def max_frame_len_def unat_of_nat)

lemma frame_new_eta [simp]: "frame_new (sf_type f) (sf_payload f) = f"
  by (simp add: frame_new_def)

lemma decode_frame:
  "length (sf_payload f) \<le> max_frame_len \<Longrightarrow> codec_decode (frame_bytes f @ rest) = Inr (Some f, rest)"
  using frame_length_field [of f rest]
  by (simp add: codec_decode_def Let_def max_frame_len_def usize_max_def)
    (simp add: frame_bytes_def)

lemma decode_partial_frame:
  assumes "length (sf_payload f) \<le> max_frame_len" "frame_bytes f = src @ rest" "rest \<noteq> []"
  shows "codec_decode src = Inr (None, src)"
proof (cases "length src < 5")
  case False
  have "length src < 5 + length (sf_payload f)"
    using assms(2,3) length_frame_bytes [of f] by (metis length_append length_greater_0_conv less_add_same_cancel1)
  moreover have "hd src = message_type_byte (sf_type f)"
    using False assms(2) by (cases src) (auto simp: frame_bytes_def)
  moreover have "take 4 (drop 1 src) = take 4 (drop 1 (frame_bytes f @ []))"
    using False assms(2) by simp
  then have "unat (be_word (take 4 (drop 1 src)) :: u32) = length (sf_payload f)"
    using frame_length_field [OF assms(1), of "[]"] by simp
  ultimately show ?thesis
    using False assms(1) by (simp add: codec_decode_def Let_def max_frame_len_def usize_max_def)
qed (simp add: codec_decode_def)

text \<open>
  How a framed reader uses the decoder: whenever bytes arrive it appends them to its buffer
  and decodes until no complete frame is left.
\<close>

lemma codec_decode_shrinks: "codec_decode src = Inr (Some f, rest) \<Longrightarrow> length rest < length src"
  by (auto simp: codec_decode_def result_simps Let_def split: if_splits)

function drain :: "bytes \<Rightarrow> io_error + sync_frame list \<times> bytes" where
  "drain src =
     (case codec_decode src of
        Inl e \<Rightarrow> Inl e
      | Inr (None, rest) \<Rightarrow> Inr ([], rest)
      | Inr (Some f, rest) \<Rightarrow> map_result (\<lambda>(fs, r). (f # fs, r)) (drain rest))"
  by pat_completeness auto

termination drain
  by (relation "measure length") (auto dest: codec_decode_shrinks)

declare drain.simps [simp del]

fun feed :: "bytes list \<Rightarrow> bytes \<Rightarrow> io_error + sync_frame list \<times> bytes" where
  "feed [] buffer = Inr ([], buffer)"
| "feed (c # cs) buffer =
     bind_result (drain (buffer @ c)) (\<lambda>(fs, rest).
       map_result (\<lambda>(gs, r). (fs @ gs, r)) (feed cs rest))"

fun encode_all :: "sync_frame list \<Rightarrow> bytes \<Rightarrow> io_error + bytes" where
  "encode_all [] dst = Inr dst"
| "encode_all (f # fs) dst = bind_result (codec_encode f dst) (encode_all fs)"

lemma encode_all_Inr_iff:
  "encode_all fs dst = Inr out \<longleftrightarrow>
     (\<forall>f \<in> set fs. length (sf_payload f) \<le> max_frame_len) \<and> out = dst @ concat (List.map frame_bytes fs)"
  by (induction fs arbitrary: dst) (auto simp: result_simps codec_encode_Inr_iff)

text \<open>What draining leaves behind holds no complete frame.\<close>

lemma drain_stops: "drain src = Inr (fs, rest) \<Longrightarrow> drain rest = Inr ([], rest)"
proof (induction src arbitrary: fs rule: drain.induct)
  case (1 src)
  show ?case
  proof (cases "codec_decode src")
    case (Inr r)
    obtain fo r' where r: "r = (fo, r')" by force
    show ?thesis
    proof (cases fo)
      case None
      have "r' = src"
        using Inr r None by (auto simp: codec_decode_def result_simps Let_def split: if_splits)
      with 1(2) Inr r None show ?thesis by (auto simp: drain.simps [of src] drain.simps [of rest])
    next
      case (Some f)
      from 1(2) Inr r Some obtain gs where "drain r' = Inr (gs, rest)"
        by (subst (asm) drain.simps) (auto simp: map_result_Inr_iff)
      from 1(1) [OF Inr r [symmetric] Some this] show ?thesis .
    qed
  qed (use 1(2) in \<open>simp add: drain.simps [of src]\<close>)
qed

text \<open>Draining a prefix of a stream of frames gives the complete ones and the bytes behind.\<close>

lemma drain_prefix:
  assumes "\<forall>f \<in> set fs. length (sf_payload f) \<le> max_frame_len"
    and "concat (List.map frame_bytes fs) = src @ rest"
  shows "\<exists>gs hs src'. fs = gs @ hs \<and> drain src = Inr (gs, src') \<and>
    concat (List.map frame_bytes hs) = src' @ rest"
  using assms
proof (induction fs arbitrary: src)
  case Nil
  then show ?case by (simp add: drain.simps [of "[]"] codec_decode_def)
next
  case (Cons f fs)
  have ok: "length (sf_payload f) \<le> max_frame_len" using Cons.prems(1) by simp
  consider (whole) src' where "src = frame_bytes f @ src'" "concat (List.map frame_bytes fs) = src' @ rest"
    | (part) r where "frame_bytes f = src @ r" "r \<noteq> []"
  proof -
    from Cons.prems(2) obtain us where "frame_bytes f = src @ us \<and> us @ concat (List.map frame_bytes fs) = rest
        \<or> frame_bytes f @ us = src \<and> concat (List.map frame_bytes fs) = us @ rest"
      by (auto simp: append_eq_append_conv2)
    then show ?thesis using whole [of us] whole [of "[]"] part [of us] by (cases "us = []") auto
  qed
  then show ?case
  proof cases
    case whole
    with Cons.IH [of src'] Cons.prems(1) obtain gs hs src'' where
      "fs = gs @ hs" "drain src' = Inr (gs, src'')" "concat (List.map frame_bytes hs) = src'' @ rest" by auto
    moreover have "drain src = map_result (\<lambda>(fs, r). (f # fs, r)) (drain src')"
      by (subst drain.simps) (simp add: whole(1) decode_frame [OF ok])
    ultimately show ?thesis by (intro exI [of _ "f # gs"] exI [of _ hs] exI [of _ src'']) simp
  next
    case part
    have "drain src = Inr ([], src)"
      by (subst drain.simps) (simp add: decode_partial_frame [OF ok part])
    with Cons.prems(2) show ?thesis by (intro exI [of _ "[]"] exI [of _ "f # fs"] exI [of _ src]) simp
  qed
qed

text \<open>
  C37. Framing survives the network: however the bytes of encoded frames are cut into chunks,
  feeding the chunks to the decoder gives back exactly the frames, in order, with nothing left.
\<close>

theorem frame_stream_roundtrip:
  assumes "encode_all fs [] = Inr stream" and "concat chunks = stream"
  shows "feed chunks [] = Inr (fs, [])"
proof -
  have "feed chunks buffer = Inr (fs, [])"
    if "\<forall>f \<in> set fs. length (sf_payload f) \<le> max_frame_len"
      "concat (List.map frame_bytes fs) = buffer @ concat chunks" "drain buffer = Inr ([], buffer)"
    for fs buffer
    using that
  proof (induction chunks arbitrary: fs buffer)
    case Nil
    have "fs = []"
    proof (cases fs)
      case (Cons f fs')
      then have "drain buffer \<noteq> Inr ([], buffer)"
        using Nil decode_frame [of f "concat (List.map frame_bytes fs')"]
        by (subst drain.simps) (auto simp: map_result_Inr_iff)
      with Nil(3) show ?thesis by simp
    qed
    with Nil show ?case by simp
  next
    case (Cons c cs)
    obtain gs hs src where g: "fs = gs @ hs" "drain (buffer @ c) = Inr (gs, src)"
      "concat (List.map frame_bytes hs) = src @ concat cs"
      using drain_prefix [OF Cons.prems(1), of "buffer @ c" "concat cs"] Cons.prems(2) by auto
    have "drain src = Inr ([], src)"
      by (rule drain_stops [OF g(2)])
    from Cons.IH [of hs src] this g Cons.prems(1) show ?case by simp
  qed
  moreover have "drain [] = Inr ([], [])" by (simp add: drain.simps codec_decode_def)
  ultimately show ?thesis using assms by (simp add: encode_all_Inr_iff)
qed

definition two_frames :: "sync_frame list" where
  "two_frames = [frame_new KeepAlive [], frame_new Progress [104, 105]]"

lemma put_u32_small: "put_u32 0 = [0, 0, 0, 0]" "put_u32 2 = [0, 0, 0, 2]"
  by (simp_all add: put_u32_bytes)

theorem frame_stream_roundtrip_witness:
  "feed [[4, 0], [0, 0, 0, 5, 0, 0], [0, 2, 104], [105]] [] = Inr (two_frames, [])"
proof (rule frame_stream_roundtrip)
  show "encode_all two_frames [] = Inr [4, 0, 0, 0, 0, 5, 0, 0, 0, 2, 104, 105]"
    unfolding encode_all_Inr_iff
    by (simp add: two_frames_def frame_bytes_def frame_new_def put_u32_small
        max_frame_len_def)
qed simp

section \<open>The adaptive window\<close>

record window_policy =
  min_window :: nat
  large_flush :: nat
  pipesafe_flush :: nat

definition default_initial_window :: nat where
  "default_initial_window = 16"

definition window_policy_default :: window_policy where
  "window_policy_default = \<lparr>min_window = 16, large_flush = 16384, pipesafe_flush = 32\<rparr>"

definition next_window_size :: "bool \<Rightarrow> nat option \<Rightarrow> window_policy \<Rightarrow> nat" where
  "next_window_size stateless cur policy =
     (case cur of
        None \<Rightarrow> min_window policy
      | Some sz \<Rightarrow>
          let current_size = max sz (min_window policy)
          in if stateless
             then (if current_size < large_flush policy then saturating_mul current_size 2
                   else saturating_mul current_size 11 div 10)
             else if current_size < pipesafe_flush policy then saturating_mul current_size 2
             else saturating_add current_size (pipesafe_flush policy))"

record adaptive_window =
  aw_stateless :: bool
  aw_policy :: window_policy
  aw_current :: nat

definition window_new :: "bool \<Rightarrow> adaptive_window" where
  "window_new stateless =
     \<lparr>aw_stateless = stateless, aw_policy = window_policy_default,
      aw_current = max default_initial_window (min_window window_policy_default)\<rparr>"

definition window_with_policy :: "bool \<Rightarrow> nat \<Rightarrow> window_policy \<Rightarrow> adaptive_window" where
  "window_with_policy stateless initial policy =
     \<lparr>aw_stateless = stateless, aw_policy = policy, aw_current = max initial (min_window policy)\<rparr>"

definition on_success :: "adaptive_window \<Rightarrow> adaptive_window" where
  "on_success w = w\<lparr>aw_current := next_window_size (aw_stateless w) (Some (aw_current w)) (aw_policy w)\<rparr>"

definition on_backpressure :: "adaptive_window \<Rightarrow> adaptive_window" where
  "on_backpressure w = w\<lparr>aw_current := max (aw_current w div 2) (min_window (aw_policy w))\<rparr>"

text \<open>The windows a controller goes through, in any sequence of rounds.\<close>

inductive window_run :: "adaptive_window \<Rightarrow> adaptive_window \<Rightarrow> bool" where
  start: "window_run w w"
| success: "window_run w v \<Longrightarrow> window_run w (on_success v)"
| backpressure: "window_run w v \<Longrightarrow> window_run w (on_backpressure v)"

definition window_ok :: "adaptive_window \<Rightarrow> bool" where
  "window_ok w \<longleftrightarrow> min_window (aw_policy w) \<le> aw_current w \<and> aw_current w \<le> usize_max"

lemma ten_percent: "min c (m div 10) \<le> min m (c * 11) div 10" for c m :: nat
proof (cases "c * 11 \<le> m")
  case True
  have "c \<le> c * 11 div 10" by simp
  with True show ?thesis by (simp add: min_def)
qed (simp add: min_def)

lemma growth:
  assumes "c \<le> usize_max"
  shows "min c (usize_max div 10) \<le> saturating_mul c 2"
    "min c (usize_max div 10) \<le> saturating_mul c 11 div 10"
    "min c (usize_max div 10) \<le> saturating_add c p"
proof -
  have "min c (usize_max div 10) \<le> c" by simp
  then show "min c (usize_max div 10) \<le> saturating_mul c 2"
    "min c (usize_max div 10) \<le> saturating_add c p"
    using assms by (auto simp only: saturating_mul_def saturating_add_def min.bounded_iff intro: le_trans)
  show "min c (usize_max div 10) \<le> saturating_mul c 11 div 10"
    using ten_percent [of c usize_max] by (simp only: saturating_mul_def)
qed

lemma on_success_ok:
  assumes "window_ok w" "min_window (aw_policy w) \<le> usize_max div 10"
  shows "window_ok (on_success w)"
proof -
  have "min_window (aw_policy w) \<le> saturating_mul (aw_current w) 11 div 10"
    unfolding saturating_mul_def
    by (rule le_trans [OF _ ten_percent]) (use assms in \<open>simp add: window_ok_def\<close>)
  moreover have "saturating_mul (aw_current w) 11 div 10 \<le> usize_max"
    by (rule le_trans [OF div_le_dividend]) (simp add: saturating_mul_def)
  ultimately show ?thesis
    using assms by (auto simp: window_ok_def on_success_def next_window_size_def Let_def max_def
        saturating_mul_def saturating_add_def)
qed

lemma on_backpressure_ok: "window_ok w \<Longrightarrow> window_ok (on_backpressure w)"
  by (auto simp: window_ok_def on_backpressure_def intro: le_trans [OF div_le_dividend])

lemma window_run_ok:
  "window_run w v \<Longrightarrow> window_ok w \<Longrightarrow> min_window (aw_policy w) \<le> usize_max div 10 \<Longrightarrow>
   window_ok v \<and> aw_policy v = aw_policy w"
proof (induction rule: window_run.induct)
  case (success w v)
  then show ?case using on_success_ok [of v] by (simp add: on_success_def)
next
  case (backpressure w v)
  then show ?case using on_backpressure_ok [of v] by (simp add: on_backpressure_def)
qed simp



text \<open>At the end of the range the additive ten percent saturates before the division.\<close>

lemma window_shrinks_at_saturation:
  "aw_current (on_success (window_with_policy True usize_max window_policy_default)) < usize_max"
  by (simp add: on_success_def window_with_policy_def window_policy_default_def
      next_window_size_def saturating_mul_def usize_max_def)

section \<open>The session pipeline\<close>

record discover =
  local_frontier :: "blake3_hash list"
  remote_frontier :: "blake3_hash list"

record negotiate =
  missing :: "blake3_hash list"
  needed_by_peer :: "blake3_hash list"

record transfer =
  received :: "bytes list"
  tr_total :: nat

record materialize =
  applied :: nat
  ma_total :: nat

record finalize =
  merged_frontier :: "blake3_hash list"

datatype sync_session =
    Discover discover
  | Negotiate negotiate
  | Transfer transfer
  | Materialize materialize
  | Finalize finalize

definition session_new :: "blake3_hash list \<Rightarrow> blake3_hash list \<Rightarrow> sync_session" where
  "session_new l r = Discover \<lparr>local_frontier = l, remote_frontier = r\<rparr>"

fun session_phase :: "sync_session \<Rightarrow> string" where
  "session_phase (Discover d) = ''discover''"
| "session_phase (Negotiate n) = ''negotiate''"
| "session_phase (Transfer t) = ''transfer''"
| "session_phase (Materialize m) = ''materialize''"
| "session_phase (Finalize f) = ''finalize''"

fun session_is_complete :: "sync_session \<Rightarrow> bool" where
  "session_is_complete (Finalize f) = True"
| "session_is_complete _ = False"

definition negotiate_from :: "discover \<Rightarrow> negotiate" where
  "negotiate_from d = \<lparr>missing = remote_frontier d, needed_by_peer = local_frontier d\<rparr>"

definition transfer_from :: "negotiate \<Rightarrow> transfer" where
  "transfer_from n = \<lparr>received = [], tr_total = length (missing n)\<rparr>"

definition materialize_from :: "transfer \<Rightarrow> materialize" where
  "materialize_from t = \<lparr>applied = 0, ma_total = length (received t)\<rparr>"

definition finalize_from :: "materialize \<Rightarrow> finalize" where
  "finalize_from m = \<lparr>merged_frontier = []\<rparr>"

fun session_display :: "sync_session \<Rightarrow> string" where
  "session_display (Discover d) = ''Discover(local='' @ nat_dec (length (local_frontier d)) @
     '', remote='' @ nat_dec (length (remote_frontier d)) @ '')''"
| "session_display (Negotiate n) = ''Negotiate(missing='' @ nat_dec (length (missing n)) @
     '', needed='' @ nat_dec (length (needed_by_peer n)) @ '')''"
| "session_display (Transfer t) = ''Transfer(received='' @ nat_dec (length (received t)) @ ''/'' @
     nat_dec (tr_total t) @ '')''"
| "session_display (Materialize m) = ''Materialize(applied='' @ nat_dec (applied m) @ ''/'' @
     nat_dec (ma_total m) @ '')''"
| "session_display (Finalize f) = ''Finalize(frontier='' @ nat_dec (length (merged_frontier f)) @ '')''"

text \<open>
  The conversions alone do not compute the difference of the frontiers: a peer with the same
  frontier is asked for all of it, and the merged frontier of a session is empty.
\<close>

lemma session_negotiates_everything:
  "missing (negotiate_from \<lparr>local_frontier = l, remote_frontier = l\<rparr>) = l"
  "merged_frontier (finalize_from m) = []"
  by (simp_all add: negotiate_from_def finalize_from_def)

end
