(* ===== verification/Protocol.thy ===== *)
theory Protocol
  imports Changes
begin

text \<open>
  The sync protocol surface (\<^verbatim>\<open>arc-net/src/sync/protocol.rs\<close>): handshake messages, capability
  negotiation and the closure computation that decides which changes a peer needs.

  The object store is the finite map from change ids to the bytes \<^verbatim>\<open>read_change_bytes\<close> returns
  (no entry: the read fails); \<^verbatim>\<open>bincode::deserialize\<close> is the parameter \<open>dec\<close> and the iteration
  order of a \<^verbatim>\<open>HashSet\<close> the parameter \<open>iter\<close>.
\<close>

section \<open>Handshake and capabilities\<close>

datatype sync_capability = PayloadStreamV1 | KeepAliveCap | ProgressSideband | TypedChangeId

fun capability_rank :: "sync_capability \<Rightarrow> nat" where
  "capability_rank PayloadStreamV1 = 1"
| "capability_rank KeepAliveCap = 2"
| "capability_rank ProgressSideband = 3"
| "capability_rank TypedChangeId = 4"

lemma capability_rank_inj: "capability_rank a = capability_rank b \<Longrightarrow> a = b"
  by (cases a; cases b) simp_all

instantiation sync_capability :: linorder
begin

definition less_eq_sync_capability :: "sync_capability \<Rightarrow> sync_capability \<Rightarrow> bool" where
  "less_eq_sync_capability a b \<longleftrightarrow> capability_rank a \<le> capability_rank b"

definition less_sync_capability :: "sync_capability \<Rightarrow> sync_capability \<Rightarrow> bool" where
  "less_sync_capability a b \<longleftrightarrow> capability_rank a < capability_rank b"

instance
  by standard (auto simp: less_eq_sync_capability_def less_sync_capability_def dest: capability_rank_inj)

end

definition server_capabilities :: "sync_capability list" where
  "server_capabilities = [PayloadStreamV1, KeepAliveCap, TypedChangeId]"

record handshake_request =
  hq_version :: u32
  hq_min_version :: u32
  hq_auth_token :: "string option"
  hq_view_heads :: "(string, change_id) fmap"
  hq_required_capabilities :: "sync_capability list"
  hq_optional_capabilities :: "sync_capability list"
  hq_frontier :: "blake3_hash list"

record handshake_response =
  hr_status :: u8
  hr_negotiated_version :: u32
  hr_negotiated_capabilities :: "sync_capability list"
  hr_rejected_required_capabilities :: "sync_capability list"
  hr_required_changes :: "change_id list"
  hr_remote_frontier :: "blake3_hash list"

definition negotiate_capabilities ::
  "handshake_request \<Rightarrow> sync_capability list \<Rightarrow> sync_capability list \<times> sync_capability list" where
  "negotiate_capabilities request server =
     (sort_dedup (filter (\<lambda>cap. cap \<in> set server)
        (hq_required_capabilities request @ hq_optional_capabilities request)),
      sort_dedup (filter (\<lambda>cap. cap \<notin> set server) (hq_required_capabilities request)))"

section \<open>Closures over the object store\<close>

datatype net_error =
    NetIo string
  | NetCas string
  | NetSerialization
  | HashVerification string
  | NetProtocol change_id change_id

type_synonym object_store = "(change_id, bytes) fmap"
type_synonym change_decoder = "bytes \<Rightarrow> change option"
type_synonym set_order = "blake3_hash fset \<Rightarrow> blake3_hash list"

text \<open>The stack has its top at the head, so \<^verbatim>\<open>extend\<close> pushes the new elements in reverse.\<close>

function reach_loop ::
  "object_store \<Rightarrow> change_decoder \<Rightarrow> set_order \<Rightarrow> blake3_hash fset \<Rightarrow> blake3_hash list \<Rightarrow>
   net_error + blake3_hash fset" where
  "reach_loop store dec iter seen [] = Inr seen"
| "reach_loop store dec iter seen (cur # stack) =
     (if cur |\<in>| seen then reach_loop store dec iter seen stack
      else case fmlookup store cur of
        None \<Rightarrow> reach_loop store dec iter (finsert cur seen) stack
      | Some raw \<Rightarrow>
          (case dec raw of
             None \<Rightarrow> Inl NetSerialization
           | Some change \<Rightarrow>
               if ch_id change \<noteq> cur then Inl (NetProtocol cur (ch_id change))
               else reach_loop store dec iter (finsert cur seen) (rev (iter (ch_deps change)) @ stack)))"
  by pat_completeness auto

lemma unseen_shrinks:
  "c |\<in>| D \<Longrightarrow> c |\<notin>| seen \<Longrightarrow> fcard (D |-| finsert c seen) < fcard (D |-| seen)"
  by (rule pfsubset_fcard_mono) auto

lemma unseen_same: "c |\<notin>| D \<Longrightarrow> D |-| finsert c seen = D |-| seen"
  by auto

termination reach_loop
  by (relation "measures [\<lambda>(store, dec, iter, seen, stack). fcard (fmdom store |-| seen),
      \<lambda>(store, dec, iter, seen, stack). length stack]")
    (auto simp: unseen_same fmdom_notI intro: unseen_shrinks fmdomI)

definition reachable_set ::
  "object_store \<Rightarrow> change_decoder \<Rightarrow> set_order \<Rightarrow> blake3_hash list \<Rightarrow> net_error + blake3_hash fset" where
  "reachable_set store dec iter frontier = reach_loop store dec iter {||} (rev frontier)"

function missing_loop ::
  "object_store \<Rightarrow> change_decoder \<Rightarrow> set_order \<Rightarrow> blake3_hash fset \<Rightarrow> blake3_hash fset \<Rightarrow>
   blake3_hash list \<Rightarrow> blake3_hash list \<Rightarrow> net_error + blake3_hash list" where
  "missing_loop store dec iter local queued missing [] = Inr missing"
| "missing_loop store dec iter local queued missing (cur # stack) =
     (if cur |\<in>| queued then missing_loop store dec iter local queued missing stack
      else if cur |\<in>| local then missing_loop store dec iter local (finsert cur queued) missing stack
      else case fmlookup store cur of
        None \<Rightarrow> missing_loop store dec iter local (finsert cur queued) (missing @ [cur]) stack
      | Some raw \<Rightarrow>
          (case dec raw of
             None \<Rightarrow> Inl NetSerialization
           | Some change \<Rightarrow>
               if ch_id change \<noteq> cur then Inl (NetProtocol cur (ch_id change))
               else missing_loop store dec iter local (finsert cur queued) (missing @ [cur])
                      (rev (iter (ch_deps change)) @ stack)))"
  by pat_completeness auto

lemma unseen_mono: "fcard (D |-| finsert c seen) \<le> fcard (D |-| seen)"
  by (rule fcard_mono) auto

termination missing_loop
proof (relation "measures [\<lambda>(store, dec, iter, local, queued, missing, stack). fcard (fmdom store |-| queued),
      \<lambda>(store, dec, iter, local, queued, missing, stack). length stack]", goal_cases)
  case (3 store dec iter local queued missing cur stack)
  show ?case using unseen_mono [of "fmdom store" cur queued] by (auto simp: le_less)
qed (auto simp: unseen_same fmdom_notI intro: unseen_shrinks fmdomI)

definition compute_missing_hashes ::
  "object_store \<Rightarrow> change_decoder \<Rightarrow> set_order \<Rightarrow> blake3_hash list \<Rightarrow> blake3_hash list \<Rightarrow>
   net_error + blake3_hash list" where
  "compute_missing_hashes store dec iter local_frontier remote_frontier =
     bind_result (reachable_set store dec iter local_frontier) (\<lambda>local.
       map_result rev (missing_loop store dec iter local {||} [] (rev remote_frontier)))"

section \<open>What the closures are\<close>

definition store_deps :: "object_store \<Rightarrow> change_decoder \<Rightarrow> (blake3_hash \<times> blake3_hash) set" where
  "store_deps store dec = {(c, d). \<exists>raw change. fmlookup store c = Some raw \<and>
     dec raw = Some change \<and> d |\<in>| ch_deps change}"

definition closure_of :: "object_store \<Rightarrow> change_decoder \<Rightarrow> blake3_hash set \<Rightarrow> blake3_hash set" where
  "closure_of store dec F = (store_deps store dec)\<^sup>* `` F"

text \<open>Every stored record is the change of its id.\<close>

definition store_sound :: "object_store \<Rightarrow> change_decoder \<Rightarrow> bool" where
  "store_sound store dec \<longleftrightarrow>
     (\<forall>c raw. fmlookup store c = Some raw \<longrightarrow> (\<exists>change. dec raw = Some change \<and> ch_id change = c))"

definition set_order_ok :: "set_order \<Rightarrow> bool" where
  "set_order_ok iter \<longleftrightarrow> (\<forall>S. set (iter S) = fset S)"

lemma reach_loop_total: "store_sound store dec \<Longrightarrow> \<exists>S. reach_loop store dec iter seen stack = Inr S"
proof (induction store dec iter seen stack rule: reach_loop.induct)
  case (2 store dec iter seen cur stack)
  show ?case
  proof (cases "fmlookup store cur")
    case (Some raw)
    with 2(4) obtain change where "dec raw = Some change" "ch_id change = cur"
      unfolding store_sound_def by blast
    with 2 Some show ?thesis by auto
  qed (use 2 in auto)
qed simp

lemma missing_loop_total:
  "store_sound store dec \<Longrightarrow> \<exists>ms. missing_loop store dec iter local queued missing stack = Inr ms"
proof (induction store dec iter local queued missing stack rule: missing_loop.induct)
  case (2 store dec iter local queued missing cur stack)
  show ?case
  proof (cases "fmlookup store cur")
    case (Some raw)
    with 2(5) obtain change where "dec raw = Some change" "ch_id change = cur"
      unfolding store_sound_def by blast
    with 2 Some show ?thesis by auto
  qed (use 2 in auto)
qed simp

lemma store_deps_of:
  "fmlookup store c = Some raw \<Longrightarrow> dec raw = Some change \<Longrightarrow> store_deps store dec `` {c} = fset (ch_deps change)"
  by (auto simp: store_deps_def)

lemma store_deps_absent: "fmlookup store c = None \<Longrightarrow> store_deps store dec `` {c} = {}"
  by (auto simp: store_deps_def)

lemma reach_loop_closes:
  assumes "reach_loop store dec iter seen stack = Inr S" "set_order_ok iter"
    and "expanded (store_deps store dec) (fset seen) (set stack)"
  shows "expanded (store_deps store dec) (fset S) {} \<and> fset seen \<union> set stack \<subseteq> fset S \<and>
    fset S \<subseteq> fset seen \<union> (store_deps store dec)\<^sup>* `` set stack"
  using assms
proof (induction store dec iter seen stack rule: reach_loop.induct)
  case (2 store dec iter seen cur stack)
  let ?r = "store_deps store dec"
  show ?case
  proof (cases "cur |\<in>| seen")
    case True
    with 2(6) have "expanded ?r (fset seen) (set stack)" by (auto simp: expanded_def)
    with 2(1) [OF True _ 2(5)] 2(4) True
    have "expanded ?r (fset S) {} \<and> fset seen \<union> set stack \<subseteq> fset S \<and>
        fset S \<subseteq> fset seen \<union> ?r\<^sup>* `` set stack" by simp
    with True show ?thesis by auto
  next
    case new: False
    show ?thesis
    proof (cases "fmlookup store cur")
      case None
      with 2(6) store_deps_absent [OF None, of dec]
      have "expanded ?r (fset (finsert cur seen)) (set stack)" by (auto simp: expanded_def)
      with 2(2) [OF new None] 2(4,5) new None show ?thesis by auto
    next
      case (Some raw)
      with 2(4) new obtain change where ch: "dec raw = Some change" "ch_id change = cur"
        "reach_loop store dec iter (finsert cur seen) (rev (iter (ch_deps change)) @ stack) = Inr S"
        by (auto split: option.splits if_splits)
      have deps: "set (iter (ch_deps change)) = ?r `` {cur}"
        using 2(5) store_deps_of [of store cur raw dec change, OF Some ch(1)] by (simp add: set_order_ok_def)
      have "expanded ?r (fset (finsert cur seen)) (set (rev (iter (ch_deps change)) @ stack))"
        using 2(6) by (auto simp: expanded_def deps)
      with 2(3) [OF new Some ch(1) _ ch(3) 2(5)] ch(2)
      have "expanded ?r (fset S) {}" "fset (finsert cur seen) \<union> set (rev (iter (ch_deps change)) @ stack) \<subseteq> fset S"
        "fset S \<subseteq> fset (finsert cur seen) \<union> ?r\<^sup>* `` set (rev (iter (ch_deps change)) @ stack)" by blast+
      moreover have "?r\<^sup>* `` (?r `` {cur}) \<subseteq> ?r\<^sup>* `` {cur}" by (auto intro: converse_rtrancl_into_rtrancl)
      ultimately show ?thesis by (auto simp: deps)
    qed
  qed
qed auto

lemma reachable_set_closure:
  assumes "reachable_set store dec iter F = Inr S" "set_order_ok iter"
  shows "fset S = closure_of store dec (set F)"
proof -
  have "expanded (store_deps store dec) (fset {||}) (set (rev F))" by (simp add: expanded_def)
  from reach_loop_closes [OF assms(1) [unfolded reachable_set_def] assms(2) this]
  show ?thesis unfolding closure_of_def by (intro expanded_closed) auto
qed

text \<open>The second traversal does not look behind the changes the peer has.\<close>

lemma missing_loop_closes:
  assumes "missing_loop store dec iter local queued missing stack = Inr ms" "set_order_ok iter"
    and "expanded (store_deps store dec) (fset queued - fset local) (set stack \<union> fset local)"
    and "set missing = fset queued - fset local" "distinct missing"
  shows "distinct ms \<and> expanded (store_deps store dec) (set ms) (fset local) \<and>
    set missing \<union> (set stack - fset local) \<subseteq> set ms \<and>
    set ms \<subseteq> set missing \<union> (store_deps store dec)\<^sup>* `` set stack - fset local"
  using assms
proof (induction store dec iter local queued missing stack rule: missing_loop.induct)
  case (1 store dec iter local queued missing)
  then show ?case by auto
next
  case (2 store dec iter local queued missing cur stack)
  let ?r = "store_deps store dec"
  show ?case
  proof (cases "cur |\<in>| queued \<or> cur |\<in>| local")
    case True
    then have e: "expanded ?r (fset (finsert cur queued) - fset local) (set stack \<union> fset local)"
      "expanded ?r (fset queued - fset local) (set stack \<union> fset local)" if "cur |\<in>| queued"
      using 2(7) that by (auto simp: expanded_def)
    show ?thesis
    proof (cases "cur |\<in>| queued")
      case True
      with 2(1) [OF True _ 2(6) e(2) 2(8,9)] 2(5,8) show ?thesis by auto
    next
      case False
      with True have l: "cur |\<in>| local" by blast
      with 2(7) have "expanded ?r (fset (finsert cur queued) - fset local) (set stack \<union> fset local)"
        by (auto simp: expanded_def)
      with 2(2) [OF False l _ 2(6)] 2(5,8,9) False l show ?thesis by auto
    qed
  next
    case False
    then have new: "cur |\<notin>| queued" "cur |\<notin>| local" by auto
    have m: "set (missing @ [cur]) = fset (finsert cur queued) - fset local" "distinct (missing @ [cur])"
      using 2(8,9) new by auto
    show ?thesis
    proof (cases "fmlookup store cur")
      case None
      with 2(7) store_deps_absent [OF None, of dec]
      have "expanded ?r (fset (finsert cur queued) - fset local) (set stack \<union> fset local)"
        by (auto simp: expanded_def)
      with 2(3) [OF new None _ 2(6) _ m] 2(5) new None show ?thesis by auto
    next
      case (Some raw)
      with 2(5) new obtain change where ch: "dec raw = Some change" "ch_id change = cur"
        "missing_loop store dec iter local (finsert cur queued) (missing @ [cur])
           (rev (iter (ch_deps change)) @ stack) = Inr ms"
        by (auto split: option.splits if_splits)
      have deps: "set (iter (ch_deps change)) = ?r `` {cur}"
        using 2(6) store_deps_of [of store cur raw dec change, OF Some ch(1)] by (simp add: set_order_ok_def)
      have "expanded ?r (fset (finsert cur queued) - fset local)
          (set (rev (iter (ch_deps change)) @ stack) \<union> fset local)"
        using 2(7) by (auto simp: expanded_def deps)
      from 2(4) [OF new Some ch(1) _ ch(3) 2(6) this m] ch(2)
      have "distinct ms" "expanded ?r (set ms) (fset local)"
        "set (missing @ [cur]) \<union> (set (rev (iter (ch_deps change)) @ stack) - fset local) \<subseteq> set ms"
        "set ms \<subseteq> set (missing @ [cur]) \<union> ?r\<^sup>* `` set (rev (iter (ch_deps change)) @ stack) - fset local"
        by blast+
      moreover have "?r\<^sup>* `` (?r `` {cur} \<union> set stack) \<subseteq> ?r\<^sup>* `` set (cur # stack)"
        by (auto intro: converse_rtrancl_into_rtrancl)
      ultimately show ?thesis using new by (auto simp: deps)
    qed
  qed
qed

lemma difference_of_closures:
  assumes "expanded r M L" "r `` L \<subseteq> L" "F - L \<subseteq> M" "M \<subseteq> r\<^sup>* `` F - L"
  shows "M = r\<^sup>* `` F - L"
proof
  show "r\<^sup>* `` F - L \<subseteq> M"
  proof
    fix y assume y: "y \<in> r\<^sup>* `` F - L"
    then obtain x where "(x, y) \<in> r\<^sup>*" "x \<in> F" by blast
    then have "y \<in> M \<union> L"
    proof (induction rule: rtrancl_induct)
      case (step y z)
      with assms(1,2) show ?case by (auto simp: expanded_def)
    qed (use assms(3) in blast)
    with y show "y \<in> M" by blast
  qed
qed (rule assms(4))

text \<open>
  C36. What a peer is sent: on a sound store the computation succeeds and lists, each once,
  exactly the changes reachable from the remote frontier that are not reachable from the local
  one, changes the store does not have included; with them the receiver's history is closed.
\<close>

theorem compute_missing_exact:
  assumes "store_sound store dec" and "set_order_ok iter"
  shows "\<exists>ms. compute_missing_hashes store dec iter local_frontier remote_frontier = Inr ms \<and> distinct ms \<and>
    set ms = closure_of store dec (set remote_frontier) - closure_of store dec (set local_frontier)"
proof -
  obtain L where L: "reachable_set store dec iter local_frontier = Inr L"
    using reach_loop_total [OF assms(1)] unfolding reachable_set_def by blast
  obtain ms where ms: "missing_loop store dec iter L {||} [] (rev remote_frontier) = Inr ms"
    using missing_loop_total [OF assms(1)] by blast
  note L' = reachable_set_closure [OF L assms(2)]
  have "expanded (store_deps store dec) (fset {||} - fset L) (set (rev remote_frontier) \<union> fset L)"
    by (simp add: expanded_def)
  from missing_loop_closes [OF ms assms(2) this]
  have d: "distinct ms" and "expanded (store_deps store dec) (set ms) (fset L)"
    "set remote_frontier - fset L \<subseteq> set ms"
    "set ms \<subseteq> (store_deps store dec)\<^sup>* `` set remote_frontier - fset L" by simp_all
  moreover have "store_deps store dec `` fset L \<subseteq> fset L"
    unfolding L' closure_of_def by (auto intro: rtrancl_into_rtrancl)
  ultimately have "set ms = (store_deps store dec)\<^sup>* `` set remote_frontier - fset L"
    by (intro difference_of_closures) simp_all
  with d L ms show ?thesis
    by (simp add: compute_missing_hashes_def L' closure_of_def)
qed

definition toy_change :: "u8 \<Rightarrow> u8 list \<Rightarrow> change" where
  "toy_change i deps =
     \<lparr>ch_id = [i], ch_deps = fset_of_list (List.map (\<lambda>d. [d]) deps), ch_atoms = [], ch_intent = [],
      ch_author = Human [] [] [], ch_signature = [], ch_collapsed_from = None,
      ch_author_type = HumanType, ch_is_ghost = False\<rparr>"

definition toy_store :: object_store where
  "toy_store = fmap_of_list [([1], [1]), ([2], [2, 1]), ([3], [3, 2, 9])]"

fun toy_decode :: change_decoder where
  "toy_decode [] = None"
| "toy_decode (i # deps) = Some (toy_change i deps)"

theorem compute_missing_exact_witness:
  "compute_missing_hashes toy_store toy_decode sorted_list_of_fset [[1]] [[3]] = Inr [[2], [9], [3]] \<and>
   (\<exists>ms. compute_missing_hashes toy_store toy_decode sorted_list_of_fset [[1]] [[3]] = Inr ms \<and> distinct ms \<and>
    set ms = closure_of toy_store toy_decode (set [[3]]) - closure_of toy_store toy_decode (set [[1]]))"
proof
  show "compute_missing_hashes toy_store toy_decode sorted_list_of_fset [[1]] [[3]] = Inr [[2], [9], [3]]"
    by (simp add: compute_missing_hashes_def reachable_set_def toy_store_def toy_change_def
        fmlookup_of_list)
  show "\<exists>ms. compute_missing_hashes toy_store toy_decode sorted_list_of_fset [[1]] [[3]] = Inr ms \<and> distinct ms \<and>
    set ms = closure_of toy_store toy_decode (set [[3]]) - closure_of toy_store toy_decode (set [[1]])"
  proof (rule compute_missing_exact)
    show "store_sound toy_store toy_decode"
      by (auto simp: store_sound_def toy_store_def fmlookup_of_list toy_change_def split: if_splits)
    show "set_order_ok sorted_list_of_fset" by (simp add: set_order_ok_def)
  qed
qed

text \<open>Negotiation: what both sides have, and what the client insists on and the server lacks.\<close>

lemma negotiate_capabilities_sets:
  assumes "negotiate_capabilities request server = (negotiated, rejected)"
  shows "set negotiated = (set (hq_required_capabilities request) \<union> set (hq_optional_capabilities request)) \<inter> set server"
    and "set rejected = set (hq_required_capabilities request) - set server"
    and "sorted negotiated" "distinct negotiated" "sorted rejected" "distinct rejected"
  using assms by (auto simp: negotiate_capabilities_def)

end
