(* ===== verification/Oplog.thy ===== *)
theory Oplog
  imports Ids Wire "HOL-Library.Product_Lexorder" "HOL-Library.Countable"
begin

text \<open>
  The operation log (\<^verbatim>\<open>arc-store-view/src/oplog.rs\<close>): operations and their rendering, the
  content-addressed operation nodes, optimistic publication of the head set, reading, popping
  and the migration of the old JSON file.

  A directory is the record \<open>oplog_disk\<close> of the files the log keeps, each holding the value that
  was serialised into it; every write is atomic (the lock-file protocol of \<^verbatim>\<open>arc-fs-ops\<close>) and
  I/O failures other than a missing node file are not modelled.  BLAKE3 and bincode are
  parameters.
\<close>

section \<open>Operations\<close>

datatype op_causality = Local | NetworkStable

datatype op_action = Snap | Revert | Merge | Squash

record op_record =
  or_id :: string
  or_action :: op_action
  or_causality :: op_causality
  or_timestamp :: int
  or_target_oid :: bytes
  or_intent_summary :: "string option"

definition auto_intent_summary :: "string list \<Rightarrow> string" where
  "auto_intent_summary symbols =
     (let descriptor = if symbols = [] then ''workspace'' else join '', '' symbols
      in ''[auto-snap] Structural changes to '' @ descriptor @ '' detected via tree-sitter.'')"

datatype operation_agent = AgentHuman | AgentAi

fun agent_label :: "operation_agent \<Rightarrow> string" where
  "agent_label AgentHuman = ''Human''"
| "agent_label AgentAi = ''AI''"

datatype operation_kind = Generic | Rewrite

record rewrite_transaction =
  rt_tx_id :: mutation_id
  rt_command :: string
  rt_view :: string
  rt_before_heads :: "change_id fset"
  rt_after_heads :: "change_id fset"
  rt_rewrite_map :: "(change_id, change_id) fmap"
  rt_agent :: operation_agent

record operation =
  op_id :: string
  op_timestamp :: u64
  op_command :: string
  op_kind :: operation_kind
  op_view :: string
  op_agent :: operation_agent
  op_before_heads :: "change_id fset"
  op_after_heads :: "change_id fset"
  op_tx_id :: "mutation_id option"
  op_rewrite_map :: "(change_id, change_id) fmap"
  op_parents :: "snapshot_id fset"
  op_snapshot :: "snapshot_id option"

record operation_node =
  on_id :: snapshot_id
  on_operation :: operation

record heads_state =
  hs_epoch :: u64
  hs_heads :: "snapshot_id fset"

text \<open>What is hashed into a node id: everything but the short id and the snapshot itself.\<close>

type_synonym op_payload =
  "u64 \<times> string \<times> operation_kind \<times> string \<times> operation_agent \<times> change_id fset \<times> change_id fset \<times>
   mutation_id option \<times> (change_id, change_id) fmap \<times> snapshot_id fset"

record op_crypto =
  op_blake3 :: "bytes \<Rightarrow> blake3_hash"
  bincode_payload :: "op_payload \<Rightarrow> bytes"
  bincode_heads :: "heads_state \<Rightarrow> bytes"

definition new_with_timestamp ::
  "op_crypto \<Rightarrow> string \<Rightarrow> string \<Rightarrow> change_id fset \<Rightarrow> change_id fset \<Rightarrow> u64 \<Rightarrow> operation" where
  "new_with_timestamp K command view before_heads after_heads timestamp =
     (let short = hash_to_hex (op_blake3 K (rev (put_u64 timestamp) @ str_bytes command @ str_bytes view))
      in \<lparr>op_id = take 8 short, op_timestamp = timestamp, op_command = command, op_kind = Generic,
          op_view = view, op_agent = AgentHuman, op_before_heads = before_heads,
          op_after_heads = after_heads, op_tx_id = None, op_rewrite_map = fmempty,
          op_parents = {||}, op_snapshot = None\<rparr>)"

text \<open>The clock reading of \<^verbatim>\<open>SystemTime::now()\<close> is an argument.\<close>

definition operation_new ::
  "op_crypto \<Rightarrow> u64 \<Rightarrow> string \<Rightarrow> string \<Rightarrow> change_id fset \<Rightarrow> change_id fset \<Rightarrow> operation" where
  "operation_new K now command view before_heads after_heads =
     new_with_timestamp K command view before_heads after_heads now"

definition new_with_agent ::
  "op_crypto \<Rightarrow> u64 \<Rightarrow> string \<Rightarrow> string \<Rightarrow> change_id fset \<Rightarrow> change_id fset \<Rightarrow> operation_agent \<Rightarrow> operation"
where
  "new_with_agent K now command view before_heads after_heads agent =
     (operation_new K now command view before_heads after_heads)\<lparr>op_agent := agent\<rparr>"

definition heads_short :: "change_id fset \<Rightarrow> string" where
  "heads_short hs =
     (case sorted_list_of_fset hs of [] \<Rightarrow> ''(empty)'' | h # _ \<Rightarrow> take 8 (change_id_to_hex h))"

definition before_short :: "operation \<Rightarrow> string" where
  "before_short op = heads_short (op_before_heads op)"

definition after_short :: "operation \<Rightarrow> string" where
  "after_short op = heads_short (op_after_heads op)"

section \<open>Dates\<close>

definition leap_year :: "nat \<Rightarrow> bool" where
  "leap_year y \<longleftrightarrow> y mod 4 = 0 \<and> y mod 100 \<noteq> 0 \<or> y mod 400 = 0"

definition month_lengths :: "nat \<Rightarrow> nat list" where
  "month_lengths y = [31, if leap_year y then 29 else 28, 31, 30, 31, 30, 31, 31, 30, 31, 30, 31]"

fun month_loop :: "nat list \<Rightarrow> nat \<Rightarrow> nat \<Rightarrow> nat \<times> nat" where
  "month_loop [] days month = (month, days)"
| "month_loop (d # ds) days month =
     (if days < d then (month, days) else month_loop ds (days - d) (month + 1))"

definition days_to_ymd :: "nat \<Rightarrow> nat \<times> nat \<times> nat" where
  "days_to_ymd days =
     (let year400 = days div 146097; days = days mod 146097;
          year100 = min (days div 36524) 3; days = days - year100 * 36524;
          year4 = days div 1461; days = days mod 1461;
          year1 = min (days div 365) 3; days = days - year1 * 365;
          year = year400 * 400 + year100 * 100 + year4 * 4 + year1 + 1970;
          (month, rest) = month_loop (month_lengths year) days 1
      in (year, month, rest + 1))"

definition formatted_time :: "operation \<Rightarrow> string" where
  "formatted_time op =
     (let secs = unat (op_timestamp op); second = secs mod 60;
          secs = secs div 60; minute = secs mod 60;
          secs = secs div 60; hour = secs mod 24;
          secs = secs div 24
      in case days_to_ymd secs of (year, month, day) \<Rightarrow>
        pad_dec 4 year @ ''-'' @ pad_dec 2 month @ ''-'' @ pad_dec 2 day @ '' '' @
        pad_dec 2 hour @ '':'' @ pad_dec 2 minute @ '':'' @ pad_dec 2 second)"

text \<open>The number of a civil date, counted from 1970-01-01.\<close>

fun days_before_year :: "nat \<Rightarrow> nat" where
  "days_before_year 0 = 0"
| "days_before_year (Suc n) = days_before_year n + (if leap_year (1970 + n) then 366 else 365)"

definition day_number :: "nat \<times> nat \<times> nat \<Rightarrow> nat" where
  "day_number date = (case date of (y, m, d) \<Rightarrow>
     days_before_year (y - 1970) + sum_list (take (m - 1) (month_lengths y)) + (d - 1))"

lemma month_loop_sum:
  "month_loop ds days k = (m, r) \<Longrightarrow> k \<le> m \<and> sum_list (take (m - k) ds) + r = days"
proof (induction ds days k rule: month_loop.induct)
  case (2 d ds days k)
  show ?case
  proof (cases "days < d")
    case False
    with 2 have "Suc k \<le> m" "sum_list (take (m - Suc k) ds) + r = days - d" by auto
    moreover from this have "m - k = Suc (m - Suc k)" by simp
    ultimately show ?thesis using False by (simp add: take_Suc_Cons)
  qed (use 2 in auto)
qed simp

lemma leap_year_century: "n < 100 \<Longrightarrow> leap_year (1970 + n) \<longleftrightarrow> n mod 4 = 2"
proof -
  assume n: "n < 100"
  have m4: "(1970 + n) mod 4 = 0 \<longleftrightarrow> n mod 4 = 2" by presburger
  show ?thesis
  proof (cases "n < 30")
    case True
    have "1970 + n = 70 + n + 19 * 100" "1970 + n = 370 + n + 4 * 400" by simp_all
    then have "(1970 + n) mod 100 = (70 + n) mod 100" "(1970 + n) mod 400 = (370 + n) mod 400"
      by (metis mod_mult_self1)+
    with True m4 show ?thesis by (simp add: leap_year_def)
  next
    case False
    then have "1970 + n = n - 30 + 20 * 100" "1970 + n = n - 30 + 5 * 400" by simp_all
    then have "(1970 + n) mod 100 = (n - 30) mod 100" "(1970 + n) mod 400 = (n - 30) mod 400"
      by (metis mod_mult_self1)+
    with False n m4 show ?thesis by (cases "n = 30") (simp_all add: leap_year_def)
  qed
qed

lemma days_before_year_4:
  "k < 25 \<Longrightarrow> days_before_year (4 * k) = 1461 * k"
proof (induction k)
  case (Suc k)
  have e: "4 * Suc k = Suc (Suc (Suc (Suc (4 * k))))" by simp
  have l: "leap_year (1970 + (4 * k + j)) \<longleftrightarrow> j = 2" if "j < 4" for j
    using that Suc.prems by (subst leap_year_century) auto
  show ?case
    unfolding e days_before_year.simps
    using Suc l [of 0] l [of 1] l [of 2] l [of 3] by simp
qed simp

lemma days_before_year_any:
  "k < 25 \<Longrightarrow> j < 4 \<Longrightarrow> days_before_year (4 * k + j) = 1461 * k + 365 * j + (if j = 3 then 1 else 0)"
proof -
  assume k: "k < 25" "j < 4"
  have l: "leap_year (1970 + (4 * k + i)) \<longleftrightarrow> i = 2" if "i < 4" for i
    using that k by (subst leap_year_century) auto
  consider "j = 0" | "j = 1" | "j = 2" | "j = 3" using k(2) by linarith
  then show ?thesis
    using days_before_year_4 [OF k(1)] l [of 0] l [of 1] l [of 2]
    by cases (simp_all add: numeral_2_eq_2 numeral_3_eq_3)
qed

text \<open>
  Dates drift: the year cycle of \<^verbatim>\<open>days_to_ymd\<close> starts in 1970, so the leap day comes at
  its end instead of in its third year.  In every four-year cycle up to 2069 the printed date
  is right on the first 1095 days and one day late from the last day of the leap year to the
  end of the year after it (all of 2025, for example).
\<close>

theorem dates_drift:
  assumes "days < 36524"
  shows "day_number (days_to_ymd days) = (if days mod 1461 < 1095 then days else days + 1)"
proof -
  define k where "k = days div 1461"
  define d where "d = days mod 1461"
  define j where "j = min (d div 365) 3"
  define y where "y = k * 4 + j + 1970"
  have days: "days = 1461 * k + d" "d < 1461" by (simp_all add: k_def d_def)
  have k: "k < 25" using assms days by simp
  have j: "j < 4" "365 * j \<le> d" by (auto simp: j_def min_def)
  obtain m r where mr: "month_loop (month_lengths y) (d - j * 365) 1 = (m, r)" by force
  have ymd: "days_to_ymd days = (y, m, r + 1)"
    using assms mr by (simp add: days_to_ymd_def Let_def y_def j_def d_def k_def)
  have "sum_list (take (m - 1) (month_lengths y)) + r = d - 365 * j"
    using month_loop_sum [OF mr] by (simp add: mult.commute)
  moreover have "days_before_year (y - 1970) = 1461 * k + 365 * j + (if j = 3 then 1 else 0)"
    using days_before_year_any [OF k j(1)] by (simp add: y_def mult.commute)
  moreover have "j = 3 \<longleftrightarrow> 1095 \<le> d" by (auto simp: j_def min_def)
  ultimately have "day_number (days_to_ymd days) = 1461 * k + d + (if 1095 \<le> d then 1 else 0)"
    using j(2) by (simp add: day_number_def ymd)
  then show ?thesis unfolding d_def [symmetric] using days(1) by simp
qed

theorem dates_drift_witness:
  "day_number (days_to_ymd 20253) = 20254 \<and> days_to_ymd 20253 = (2025, 6, 15) \<and> day_number (2025, 6, 14) = 20253"
proof (intro conjI)
  show "day_number (days_to_ymd 20253) = 20254" using dates_drift [of 20253] by simp
  show "days_to_ymd 20253 = (2025, 6, 15)"
    by (simp add: days_to_ymd_def month_lengths_def leap_year_def)
  have y: "days_before_year 55 = 20089"
    using days_before_year_any [of 13 3] by simp
  show "day_number (2025, 6, 14) = 20253"
    by (simp add: day_number_def month_lengths_def leap_year_def y)
qed

end
