(* ===== verification/OplogStore.thy ===== *)
theory OplogStore
  imports Oplog
begin

text \<open>
  The operation-log engine (\<^verbatim>\<open>impl OpLog\<close> of \<^verbatim>\<open>arc-store-view/src/oplog.rs\<close>) on the files it
  keeps.  Other processes may change the directory while \<^verbatim>\<open>append\<close> runs: between the load of
  the heads and the publication of attempt \<open>n\<close>, the disk becomes \<open>env n disk\<close>.
\<close>

record oplog_disk =
  od_nodes :: "(snapshot_id, operation_node) fmap"
  od_heads :: "heads_state option"
  od_heads_staged :: "heads_state option"
  od_heads_bak :: "heads_state option"
  od_legacy :: "operation list option"
  od_migrated :: "operation list option"

datatype oplog_error = MissingNode snapshot_id | RetriesExhausted

definition max_retry_attempts :: nat where
  "max_retry_attempts = 16"

section \<open>Nodes and heads\<close>

definition payload_of :: "operation \<Rightarrow> op_payload" where
  "payload_of op =
     (op_timestamp op, op_command op, op_kind op, op_view op, op_agent op, op_before_heads op,
      op_after_heads op, op_tx_id op, op_rewrite_map op, op_parents op)"

definition payload_id :: "op_crypto \<Rightarrow> op_payload \<Rightarrow> snapshot_id" where
  "payload_id K p = op_blake3 K (bincode_payload K p)"

definition build_node :: "op_crypto \<Rightarrow> operation \<Rightarrow> snapshot_id fset \<Rightarrow> operation_node" where
  "build_node K operation current_heads =
     (let op = operation\<lparr>op_parents := current_heads\<rparr>;
          snapshot = payload_id K (payload_of op)
      in \<lparr>on_id = snapshot, on_operation = op\<lparr>op_snapshot := Some snapshot\<rparr>\<rparr>)"

definition persist_node :: "operation_node \<Rightarrow> oplog_disk \<Rightarrow> oplog_disk" where
  "persist_node node disk =
     (if on_id node |\<in>| fmdom (od_nodes disk) then disk
      else disk\<lparr>od_nodes := fmupd (on_id node) node (od_nodes disk)\<rparr>)"

definition load_node :: "oplog_disk \<Rightarrow> snapshot_id \<Rightarrow> oplog_error + operation_node" where
  "load_node disk i =
     (case fmlookup (od_nodes disk) i of None \<Rightarrow> Inl (MissingNode i) | Some n \<Rightarrow> Inr n)"

definition heads_default :: heads_state where
  "heads_default = \<lparr>hs_epoch = 0, hs_heads = {||}\<rparr>"

text \<open>The fingerprint is the hash of the bytes read, which are the state serialised.\<close>

definition fingerprint :: "op_crypto \<Rightarrow> heads_state \<Rightarrow> blake3_hash" where
  "fingerprint K state = op_blake3 K (bincode_heads K state)"

definition load_heads_state :: "op_crypto \<Rightarrow> oplog_disk \<Rightarrow> heads_state \<times> blake3_hash" where
  "load_heads_state K disk =
     (case od_heads disk of
        Some state \<Rightarrow> (state, fingerprint K state)
      | None \<Rightarrow>
          (case od_heads_staged disk of
             Some state \<Rightarrow> (state, fingerprint K state)
           | None \<Rightarrow>
               (case od_heads_bak disk of
                  Some state \<Rightarrow> (state, fingerprint K state)
                | None \<Rightarrow> (heads_default, fingerprint K heads_default))))"

definition write_heads_state :: "heads_state \<Rightarrow> oplog_disk \<Rightarrow> oplog_disk" where
  "write_heads_state state disk = disk\<lparr>od_heads := Some state\<rparr>"

definition publish_heads_cas ::
  "op_crypto \<Rightarrow> blake3_hash \<Rightarrow> heads_state \<Rightarrow> oplog_disk \<Rightarrow> bool \<times> oplog_disk" where
  "publish_heads_cas K expected candidate disk =
     (if snd (load_heads_state K disk) \<noteq> expected then (False, disk)
      else (True, write_heads_state candidate disk))"

section \<open>Reading\<close>

text \<open>The traversal from the heads; the stack has its top at the head.\<close>

function collect_nodes ::
  "oplog_disk \<Rightarrow> (snapshot_id, operation_node) fmap \<Rightarrow> snapshot_id list \<Rightarrow>
   oplog_error + (snapshot_id, operation_node) fmap" where
  "collect_nodes disk by_id [] = Inr by_id"
| "collect_nodes disk by_id (i # stack) =
     (if i |\<in>| fmdom by_id then collect_nodes disk by_id stack
      else case load_node disk i of
        Inl e \<Rightarrow> Inl e
      | Inr node \<Rightarrow> collect_nodes disk (fmupd i node by_id)
          (rev (sorted_list_of_fset (op_parents (on_operation node))) @ stack))"
  by pat_completeness auto

lemma load_node_Inr_iff: "load_node disk i = Inr n \<longleftrightarrow> fmlookup (od_nodes disk) i = Some n"
  by (auto simp: load_node_def split: option.splits)

lemma unread_shrinks:
  "fmlookup m i = Some n \<Longrightarrow> i |\<notin>| fmdom b \<Longrightarrow>
   fcard (fmdom m |-| finsert i (fmdom b)) < fcard (fmdom m |-| fmdom b)"
  by (rule pfsubset_fcard_mono) (auto dest: fmdomI)

termination collect_nodes
  by (relation "measures [\<lambda>(disk, by_id, stack). fcard (fmdom (od_nodes disk) |-| fmdom by_id),
      \<lambda>(disk, by_id, stack). length stack]")
    (auto simp: load_node_Inr_iff intro: unread_shrinks)

text \<open>
  \<^verbatim>\<open>sort_by\<close> on timestamp and short id is stable; the nodes come out of a hash map in an
  unspecified order, taken here to be the order of their ids.
\<close>

definition op_key :: "operation_node \<Rightarrow> u64 \<times> string" where
  "op_key n = (op_timestamp (on_operation n), op_id (on_operation n))"

definition sorted_nodes :: "(snapshot_id, operation_node) fmap \<Rightarrow> operation_node list" where
  "sorted_nodes by_id = sort_key op_key (List.map (\<lambda>i. the (fmlookup by_id i)) (sorted_list_of_fset (fmdom by_id)))"

text \<open>\<^verbatim>\<open>read_all\<close> after its call of the migration.\<close>

definition read_migrated :: "op_crypto \<Rightarrow> oplog_disk \<Rightarrow> oplog_error + operation list" where
  "read_migrated K disk =
     (case od_heads disk of
        None \<Rightarrow> Inr []
      | Some _ \<Rightarrow>
          let state = fst (load_heads_state K disk)
          in if hs_heads state = {||} then Inr []
             else map_result (\<lambda>by_id. List.map on_operation (sorted_nodes by_id))
                    (collect_nodes disk fmempty (rev (sorted_list_of_fset (hs_heads state)))))"

text \<open>The projection to the old file; its failure is ignored by every caller.\<close>

definition write_legacy_projection :: "op_crypto \<Rightarrow> oplog_disk \<Rightarrow> oplog_disk" where
  "write_legacy_projection K disk =
     (case read_migrated K disk of Inl e \<Rightarrow> disk | Inr all \<Rightarrow> disk\<lparr>od_legacy := Some all\<rparr>)"

fun migrate_ops ::
  "op_crypto \<Rightarrow> operation list \<Rightarrow> snapshot_id fset \<Rightarrow> u64 \<Rightarrow> oplog_disk \<Rightarrow> heads_state \<times> oplog_disk"
where
  "migrate_ops K [] heads epoch disk = (\<lparr>hs_epoch = epoch, hs_heads = heads\<rparr>, disk)"
| "migrate_ops K (op # ops) heads epoch disk =
     (let node = build_node K op heads
      in migrate_ops K ops {|on_id node|} (epoch + 1) (persist_node node disk))"

definition migrate_legacy_json_if_present :: "op_crypto \<Rightarrow> oplog_disk \<Rightarrow> oplog_disk" where
  "migrate_legacy_json_if_present K disk =
     (case (od_heads disk, od_legacy disk) of
        (None, Some legacy_ops) \<Rightarrow>
          (case migrate_ops K legacy_ops {||} 0 disk of (state, disk1) \<Rightarrow>
             let disk2 = write_heads_state state disk1;
                 disk3 = disk2\<lparr>od_legacy := None, od_migrated := Some legacy_ops\<rparr>
             in write_legacy_projection K disk3)
      | _ \<Rightarrow> disk)"

definition read_all :: "op_crypto \<Rightarrow> oplog_disk \<Rightarrow> (oplog_error + operation list) \<times> oplog_disk" where
  "read_all K disk =
     (let disk1 = migrate_legacy_json_if_present K disk in (read_migrated K disk1, disk1))"

definition read_reversed :: "op_crypto \<Rightarrow> oplog_disk \<Rightarrow> (oplog_error + operation list) \<times> oplog_disk" where
  "read_reversed K disk = (case read_all K disk of (r, disk1) \<Rightarrow> (map_result rev r, disk1))"

section \<open>Writing\<close>

definition next_state :: "heads_state \<Rightarrow> operation_node \<Rightarrow> heads_state" where
  "next_state state node =
     \<lparr>hs_epoch = hs_epoch state + 1,
      hs_heads = finsert (on_id node) (hs_heads state |-| op_parents (on_operation node))\<rparr>"

text \<open>One round of the retry loop, and the loop with the attempts left.\<close>

definition append_attempt ::
  "op_crypto \<Rightarrow> (oplog_disk \<Rightarrow> oplog_disk) \<Rightarrow> operation \<Rightarrow> oplog_disk \<Rightarrow> bool \<times> oplog_disk" where
  "append_attempt K interference operation disk =
     (case load_heads_state K disk of (state, print) \<Rightarrow>
        let node = build_node K operation (hs_heads state);
            disk1 = interference (persist_node node disk)
        in publish_heads_cas K print (next_state state node) disk1)"

fun append_loop ::
  "op_crypto \<Rightarrow> (nat \<Rightarrow> oplog_disk \<Rightarrow> oplog_disk) \<Rightarrow> operation \<Rightarrow> nat \<Rightarrow> nat \<Rightarrow> oplog_disk \<Rightarrow>
   (oplog_error + unit) \<times> oplog_disk" where
  "append_loop K env operation 0 attempt disk = (Inl RetriesExhausted, disk)"
| "append_loop K env operation (Suc left) attempt disk =
     (case append_attempt K (env attempt) operation disk of
        (True, disk1) \<Rightarrow> (Inr (), write_legacy_projection K disk1)
      | (False, disk1) \<Rightarrow> append_loop K env operation left (attempt + 1) disk1)"

definition oplog_append ::
  "op_crypto \<Rightarrow> (nat \<Rightarrow> oplog_disk \<Rightarrow> oplog_disk) \<Rightarrow> operation \<Rightarrow> oplog_disk \<Rightarrow>
   (oplog_error + unit) \<times> oplog_disk" where
  "oplog_append K env operation disk =
     append_loop K env operation max_retry_attempts 0 (migrate_legacy_json_if_present K disk)"

definition append_transaction ::
  "op_crypto \<Rightarrow> u64 \<Rightarrow> (nat \<Rightarrow> oplog_disk \<Rightarrow> oplog_disk) \<Rightarrow> rewrite_transaction \<Rightarrow> oplog_disk \<Rightarrow>
   (oplog_error + unit) \<times> oplog_disk" where
  "append_transaction K now env tx disk =
     (let op = new_with_agent K now (rt_command tx) (rt_view tx) (rt_before_heads tx)
                 (rt_after_heads tx) (rt_agent tx)
      in oplog_append K env (op\<lparr>op_kind := Rewrite, op_tx_id := Some (rt_tx_id tx),
           op_rewrite_map := rt_rewrite_map tx\<rparr>) disk)"

text \<open>\<^verbatim>\<open>pop\<close> holds the publish lock throughout.\<close>

definition oplog_pop :: "op_crypto \<Rightarrow> oplog_disk \<Rightarrow> (oplog_error + operation option) \<times> oplog_disk" where
  "oplog_pop K disk =
     (let disk1 = migrate_legacy_json_if_present K disk;
          state = fst (load_heads_state K disk1)
      in if hs_heads state = {||} then (Inr None, disk1)
         else case traverse (load_node disk1) (sorted_list_of_fset (hs_heads state)) of
           Inl e \<Rightarrow> (Inl e, disk1)
         | Inr head_nodes \<Rightarrow>
             let selected = last (sort_key op_key head_nodes);
                 heads = (hs_heads state |-| {|on_id selected|}) |\<union>| op_parents (on_operation selected);
                 disk2 = write_heads_state \<lparr>hs_epoch = hs_epoch state + 1, hs_heads = heads\<rparr> disk1
             in (Inr (Some (on_operation selected)), write_legacy_projection K disk2))"

section \<open>The log a directory holds\<close>

definition parent_rel :: "oplog_disk \<Rightarrow> (snapshot_id \<times> snapshot_id) set" where
  "parent_rel disk = {(i, p). \<exists>n. fmlookup (od_nodes disk) i = Some n \<and> p |\<in>| op_parents (on_operation n)}"

definition current_heads :: "op_crypto \<Rightarrow> oplog_disk \<Rightarrow> snapshot_id fset" where
  "current_heads K disk = hs_heads (fst (load_heads_state K disk))"

definition log_of :: "op_crypto \<Rightarrow> oplog_disk \<Rightarrow> snapshot_id set" where
  "log_of K disk = (parent_rel disk)\<^sup>* `` fset (current_heads K disk)"

text \<open>Nodes are content addressed, and what the log refers to is stored.\<close>

definition node_ok :: "op_crypto \<Rightarrow> snapshot_id \<Rightarrow> operation_node \<Rightarrow> bool" where
  "node_ok K i n \<longleftrightarrow> on_id n = i \<and> payload_id K (payload_of (on_operation n)) = i"

definition wf_disk :: "op_crypto \<Rightarrow> oplog_disk \<Rightarrow> bool" where
  "wf_disk K disk \<longleftrightarrow>
     (\<forall>i n. fmlookup (od_nodes disk) i = Some n \<longrightarrow>
        node_ok K i n \<and> op_parents (on_operation n) |\<subseteq>| fmdom (od_nodes disk)) \<and>
     current_heads K disk |\<subseteq>| fmdom (od_nodes disk)"

text \<open>Different payloads and different head states have different hashes.\<close>

definition collision_free :: "op_crypto \<Rightarrow> bool" where
  "collision_free K \<longleftrightarrow> inj (payload_id K) \<and> inj (fingerprint K)"

text \<open>The other processes only add: nodes stay, and no logged operation disappears.\<close>

definition honest :: "op_crypto \<Rightarrow> (nat \<Rightarrow> oplog_disk \<Rightarrow> oplog_disk) \<Rightarrow> bool" where
  "honest K env \<longleftrightarrow> (\<forall>n disk. wf_disk K disk \<longrightarrow>
     wf_disk K (env n disk) \<and> od_nodes disk \<subseteq>\<^sub>f od_nodes (env n disk) \<and>
     log_of K disk \<subseteq> log_of K (env n disk))"

definition is_migrated :: "oplog_disk \<Rightarrow> bool" where
  "is_migrated disk \<longleftrightarrow> od_heads disk \<noteq> None \<or> od_legacy disk = None"

lemma migrate_id [simp]: "is_migrated disk \<Longrightarrow> migrate_legacy_json_if_present K disk = disk"
  by (auto simp: is_migrated_def migrate_legacy_json_if_present_def split: option.splits)

lemma load_heads_fingerprint: "load_heads_state K disk = (s, f) \<Longrightarrow> f = fingerprint K s"
  by (auto simp: load_heads_state_def split: option.splits)

lemma projection_same [simp]:
  "od_nodes (write_legacy_projection K disk) = od_nodes disk"
  "od_heads (write_legacy_projection K disk) = od_heads disk"
  "load_heads_state K (write_legacy_projection K disk) = load_heads_state K disk"
  by (simp_all add: write_legacy_projection_def load_heads_state_def split: sum.splits option.splits)

lemma projection_log [simp]:
  "log_of K (write_legacy_projection K disk) = log_of K disk"
  "current_heads K (write_legacy_projection K disk) = current_heads K disk"
  "wf_disk K (write_legacy_projection K disk) = wf_disk K disk"
  by (simp_all add: log_of_def parent_rel_def current_heads_def wf_disk_def)

lemma write_heads_same [simp]:
  "od_nodes (write_heads_state st disk) = od_nodes disk"
  "current_heads K (write_heads_state st disk) = hs_heads st"
  by (simp_all add: write_heads_state_def current_heads_def load_heads_state_def)

lemma build_node_simps [simp]:
  "payload_of (on_operation (build_node K op hs)) = payload_of (op\<lparr>op_parents := hs\<rparr>)"
  "op_parents (on_operation (build_node K op hs)) = hs"
  "on_id (build_node K op hs) = payload_id K (payload_of (op\<lparr>op_parents := hs\<rparr>))"
  by (simp_all add: build_node_def Let_def payload_of_def)

lemma persist_simps [simp]:
  "od_heads (persist_node n disk) = od_heads disk"
  "load_heads_state K (persist_node n disk) = load_heads_state K disk"
  "current_heads K (persist_node n disk) = current_heads K disk"
  "od_nodes disk \<subseteq>\<^sub>f od_nodes (persist_node n disk)"
  "fmdom (od_nodes (persist_node n disk)) = finsert (on_id n) (fmdom (od_nodes disk))"
proof -
  show "od_heads (persist_node n disk) = od_heads disk"
    "load_heads_state K (persist_node n disk) = load_heads_state K disk"
    by (auto simp: persist_node_def load_heads_state_def split: option.splits)
  then show "current_heads K (persist_node n disk) = current_heads K disk"
    by (simp add: current_heads_def)
  show "od_nodes disk \<subseteq>\<^sub>f od_nodes (persist_node n disk)"
    "fmdom (od_nodes (persist_node n disk)) = finsert (on_id n) (fmdom (od_nodes disk))"
    by (auto simp: persist_node_def fmsubset_alt_def fmpred_iff fmdom_notI)
qed

lemma wf_diskD:
  assumes "wf_disk K disk"
  shows "fmlookup (od_nodes disk) i = Some n \<Longrightarrow> node_ok K i n"
    and "fmlookup (od_nodes disk) i = Some n \<Longrightarrow> op_parents (on_operation n) |\<subseteq>| fmdom (od_nodes disk)"
    and "current_heads K disk |\<subseteq>| fmdom (od_nodes disk)"
  using assms unfolding wf_disk_def by blast+

lemma persist_wf:
  assumes "wf_disk K disk"
  shows "wf_disk K (persist_node (build_node K op (current_heads K disk)) disk)"
proof -
  let ?n = "build_node K op (current_heads K disk)"
  have "node_ok K i m \<and> op_parents (on_operation m) |\<subseteq>| fmdom (od_nodes (persist_node ?n disk))"
    if m: "fmlookup (od_nodes (persist_node ?n disk)) i = Some m" for i m
  proof (cases "m = ?n \<and> i = on_id ?n")
    case True
    then show ?thesis using wf_diskD(3) [OF assms] by (auto simp: node_ok_def)
  next
    case False
    with m have "fmlookup (od_nodes disk) i = Some m"
      by (auto simp: persist_node_def split: if_splits)
    from wf_diskD(1,2) [OF assms this] show ?thesis by auto
  qed
  then show ?thesis using wf_diskD(3) [OF assms] unfolding wf_disk_def by auto
qed

text \<open>More nodes do not change what is reachable from stored ones.\<close>

lemma parent_rel_mono: "od_nodes d \<subseteq>\<^sub>f od_nodes d' \<Longrightarrow> parent_rel d \<subseteq> parent_rel d'"
  by (auto simp: parent_rel_def dest: fmsubset_lookup)

lemma reach_stable:
  assumes "wf_disk K d" "od_nodes d \<subseteq>\<^sub>f od_nodes d'" "H \<subseteq> fset (fmdom (od_nodes d))"
  shows "(parent_rel d')\<^sup>* `` H = (parent_rel d)\<^sup>* `` H"
proof
  show "(parent_rel d)\<^sup>* `` H \<subseteq> (parent_rel d')\<^sup>* `` H"
    using parent_rel_mono [OF assms(2)] rtrancl_mono by blast
  show "(parent_rel d')\<^sup>* `` H \<subseteq> (parent_rel d)\<^sup>* `` H"
  proof
    fix y assume "y \<in> (parent_rel d')\<^sup>* `` H"
    then obtain x where "(x, y) \<in> (parent_rel d')\<^sup>*" "x \<in> H" by blast
    then have "(x, y) \<in> (parent_rel d)\<^sup>* \<and> y |\<in>| fmdom (od_nodes d)"
    proof (induction rule: rtrancl_induct)
      case (step y z)
      then obtain n where n: "fmlookup (od_nodes d) y = Some n" by auto
      with assms(2) have "fmlookup (od_nodes d') y = Some n" by (rule fmsubset_lookup)
      with step n have z: "z |\<in>| op_parents (on_operation n)" by (auto simp: parent_rel_def)
      with n have "(y, z) \<in> parent_rel d" by (auto simp: parent_rel_def)
      with step z wf_diskD(2) [OF assms(1) n] show ?case by (auto intro: rtrancl_into_rtrancl)
    qed (use assms(3) in auto)
    with \<open>x \<in> H\<close> show "y \<in> (parent_rel d)\<^sup>* `` H" by blast
  qed
qed

lemma log_of_persist:
  "wf_disk K disk \<Longrightarrow> log_of K (persist_node n disk) = log_of K disk"
  unfolding log_of_def using wf_diskD(3) [of K disk]
  by (subst reach_stable [of K disk]) auto

text \<open>Publishing replaces all heads by the new node, whose parents they are.\<close>

lemma publish_log:
  assumes K: "collision_free K" and wf: "wf_disk K disk1"
    and state: "fst (load_heads_state K disk1) = state"
    and node: "node = build_node K op (hs_heads state)" "on_id node |\<in>| fmdom (od_nodes disk1)"
  shows "wf_disk K (write_heads_state (next_state state node) disk1) \<and>
    current_heads K (write_heads_state (next_state state node) disk1) = {|on_id node|} \<and>
    log_of K (write_heads_state (next_state state node) disk1) = insert (on_id node) (log_of K disk1)"
proof -
  let ?d = "write_heads_state (next_state state node) disk1"
  have h: "current_heads K disk1 = hs_heads state" using state by (simp add: current_heads_def)
  have ch: "current_heads K ?d = {|on_id node|}" using node(1) by (simp add: next_state_def)
  obtain n where n: "fmlookup (od_nodes disk1) (on_id node) = Some n" using node(2) by auto
  from wf_diskD(1) [OF wf n] have "payload_id K (payload_of (on_operation n))
      = payload_id K (payload_of (op\<lparr>op_parents := hs_heads state\<rparr>))"
    using node(1) by (simp add: node_ok_def)
  with K have "payload_of (on_operation n) = payload_of (op\<lparr>op_parents := hs_heads state\<rparr>)"
    unfolding collision_free_def inj_def by blast
  then have p: "op_parents (on_operation n) = hs_heads state" by (simp add: payload_of_def)
  have wf': "wf_disk K ?d" using wf node(2) unfolding wf_disk_def ch by simp
  have rel: "parent_rel ?d = parent_rel disk1" by (simp add: parent_rel_def)
  have "parent_rel disk1 `` {on_id node} = fset (hs_heads state)"
    using n p by (auto simp: parent_rel_def)
  then have "(parent_rel disk1)\<^sup>* `` {on_id node} = insert (on_id node) ((parent_rel disk1)\<^sup>* `` fset (hs_heads state))"
    by (auto elim: converse_rtranclE intro: converse_rtrancl_into_rtrancl)
  then have "log_of K ?d = insert (on_id node) (log_of K disk1)"
    unfolding log_of_def ch rel h by simp
  with wf' ch show ?thesis by blast
qed

lemma append_attempt_spec:
  assumes K: "collision_free K" and wf: "wf_disk K disk" and "honest K env"
    and a: "append_attempt K (env n) op disk = (ok, disk')"
  shows "wf_disk K disk' \<and> log_of K disk \<subseteq> log_of K disk' \<and> od_nodes disk \<subseteq>\<^sub>f od_nodes disk' \<and>
    (ok \<longrightarrow> (\<exists>hs. current_heads K disk' = {|on_id (build_node K op hs)|}))"
proof -
  define state where "state = fst (load_heads_state K disk)"
  define node where "node = build_node K op (hs_heads state)"
  define disk0 where "disk0 = persist_node node disk"
  define disk1 where "disk1 = env n disk0"
  have lh: "load_heads_state K disk = (state, fingerprint K state)"
    unfolding state_def using load_heads_fingerprint [of K disk] by (cases "load_heads_state K disk") simp
  have ch: "current_heads K disk = hs_heads state" by (simp add: current_heads_def state_def)
  have wf0: "wf_disk K disk0"
    unfolding disk0_def node_def ch [symmetric] by (rule persist_wf [OF wf])
  with assms(3) have wf1: "wf_disk K disk1" and sub: "od_nodes disk0 \<subseteq>\<^sub>f od_nodes disk1"
    and log1: "log_of K disk0 \<subseteq> log_of K disk1"
    unfolding honest_def disk1_def by blast+
  have sub0: "od_nodes disk \<subseteq>\<^sub>f od_nodes disk0" by (simp add: disk0_def)
  have log: "log_of K disk \<subseteq> log_of K disk1" using log1 log_of_persist [OF wf] by (simp add: disk0_def)
  have nodes: "od_nodes disk \<subseteq>\<^sub>f od_nodes disk1"
    using sub0 sub by (rule fmsubset_trans)
  have a': "(ok, disk') = publish_heads_cas K (fingerprint K state) (next_state state node) disk1"
    using a lh by (simp add: append_attempt_def Let_def node_def disk1_def disk0_def)
  show ?thesis
  proof (cases ok)
    case True
    with a' have f: "snd (load_heads_state K disk1) = fingerprint K state"
      and d: "disk' = write_heads_state (next_state state node) disk1"
      by (auto simp: publish_heads_cas_def split: if_splits)
    have "fingerprint K (fst (load_heads_state K disk1)) = fingerprint K state"
      using f load_heads_fingerprint [of K disk1] by (cases "load_heads_state K disk1") simp
    with K have st: "fst (load_heads_state K disk1) = state"
      unfolding collision_free_def inj_def by blast
    have "on_id node |\<in>| fmdom (od_nodes disk0)" by (simp add: disk0_def)
    with sub have "on_id node |\<in>| fmdom (od_nodes disk1)"
      by (rule fmsubset_dom)
    from publish_log [OF K wf1 st node_def this] log nodes show ?thesis
      unfolding d node_def by auto
  next
    case False
    with a' have "disk' = disk1" by (auto simp: publish_heads_cas_def split: if_splits)
    with wf1 log nodes False show ?thesis by simp
  qed
qed

lemma append_loop_spec:
  assumes "collision_free K" and "honest K env" and "wf_disk K disk"
    and "append_loop K env op left attempt disk = (r, disk')"
  shows "wf_disk K disk' \<and> log_of K disk \<subseteq> log_of K disk' \<and>
    (r = Inr () \<longrightarrow> (\<exists>hs. current_heads K disk' = {|on_id (build_node K op hs)|}))"
  using assms(3,4)
proof (induction left arbitrary: attempt disk)
  case (Suc left)
  obtain ok d1 where a: "append_attempt K (env attempt) op disk = (ok, d1)" by force
  note spec = append_attempt_spec [OF assms(1) Suc.prems(1) assms(2) a]
  show ?case
  proof (cases ok)
    case True
    with Suc.prems(2) a have "r = Inr ()" "disk' = write_legacy_projection K d1" by auto
    with spec True show ?thesis by simp
  next
    case False
    with Suc.prems(2) a have "append_loop K env op left (attempt + 1) d1 = (r, disk')" by simp
    from Suc.IH [OF _ this] spec show ?thesis by blast
  qed
qed auto


lemma append_quiet:
  assumes "k < 16" and "\<And>d. load_heads_state K (env k d) = load_heads_state K d"
  shows "fst (oplog_append K env op disk) = Inr ()"
proof -
  have ok: "fst (append_attempt K (env k) op d) = True" for d
    by (simp add: append_attempt_def Let_def publish_heads_cas_def assms(2) split: prod.splits)
  have "fst (append_loop K env op left attempt d) = Inr ()" if "attempt \<le> k" "k < attempt + left" for left attempt d
    using that
  proof (induction left arbitrary: attempt d)
    case (Suc left)
    show ?case
    proof (cases "attempt = k")
      case True
      with ok [of d] show ?thesis by (cases "append_attempt K (env k) op d") simp
    next
      case False
      with Suc show ?thesis by (auto split: prod.splits bool.splits)
    qed
  qed simp
  with assms(1) show ?thesis by (simp add: oplog_append_def max_retry_attempts_def)
qed

text \<open>
  C34. Progress: \<^verbatim>\<open>append\<close> always returns, and it succeeds as soon as one of its sixteen
  attempts finds the head files unchanged; only sixteen interferences in a row make it fail.
\<close>

theorem append_progress:
  assumes "k < 16" and "\<And>d. load_heads_state K (env k d) = load_heads_state K d"
  shows "fst (oplog_append K env op disk) = Inr ()"
  using assms by (rule append_quiet)

section \<open>Reading back\<close>

lemma collect_nodes_spec:
  assumes "\<forall>i n. fmlookup by_id i = Some n \<longrightarrow> fmlookup (od_nodes disk) i = Some n"
    and "expanded (parent_rel disk) (fset (fmdom by_id)) (set stack)"
    and "wf_disk K disk" "set stack \<subseteq> fset (fmdom (od_nodes disk))"
  shows "\<exists>m. collect_nodes disk by_id stack = Inr m \<and>
    (\<forall>i n. fmlookup m i = Some n \<longrightarrow> fmlookup (od_nodes disk) i = Some n) \<and>
    expanded (parent_rel disk) (fset (fmdom m)) {} \<and> fset (fmdom by_id) \<union> set stack \<subseteq> fset (fmdom m) \<and>
    fset (fmdom m) \<subseteq> fset (fmdom by_id) \<union> (parent_rel disk)\<^sup>* `` set stack"
  using assms
proof (induction disk by_id stack rule: collect_nodes.induct)
  case (1 disk by_id)
  then show ?case by auto
next
  case (2 disk by_id i stack)
  let ?r = "parent_rel disk"
  show ?case
  proof (cases "i |\<in>| fmdom by_id")
    case True
    with 2(4) have "expanded ?r (fset (fmdom by_id)) (set stack)" by (auto simp: expanded_def)
    moreover have "set stack \<subseteq> fset (fmdom (od_nodes disk))" using 2(6) by simp
    ultimately obtain m where m: "collect_nodes disk by_id stack = Inr m"
      "\<forall>i n. fmlookup m i = Some n \<longrightarrow> fmlookup (od_nodes disk) i = Some n"
      "expanded ?r (fset (fmdom m)) {}" "fset (fmdom by_id) \<union> set stack \<subseteq> fset (fmdom m)"
      "fset (fmdom m) \<subseteq> fset (fmdom by_id) \<union> ?r\<^sup>* `` set stack"
      using 2(1) [OF True 2(3) _ 2(5)] by blast
    have "?r\<^sup>* `` set stack \<subseteq> ?r\<^sup>* `` set (i # stack)" by auto
    with m True show ?thesis by (intro exI [of _ m]) auto
  next
    case False
    from 2(6) obtain n where n: "fmlookup (od_nodes disk) i = Some n" by auto
    then have ln: "load_node disk i = Inr n" by (simp add: load_node_Inr_iff)
    let ?ps = "rev (sorted_list_of_fset (op_parents (on_operation n)))"
    have ps: "set ?ps = ?r `` {i}" using n by (auto simp: parent_rel_def)
    have "\<forall>j m. fmlookup (fmupd i n by_id) j = Some m \<longrightarrow> fmlookup (od_nodes disk) j = Some m"
      using 2(3) n by simp
    moreover have "expanded ?r (fset (fmdom (fmupd i n by_id))) (set (?ps @ stack))"
      using 2(4) ps by (auto simp: expanded_def)
    moreover have "set (?ps @ stack) \<subseteq> fset (fmdom (od_nodes disk))"
      using 2(6) wf_diskD(2) [OF 2(5) n] by auto
    ultimately obtain m where m: "collect_nodes disk (fmupd i n by_id) (?ps @ stack) = Inr m"
      "\<forall>i n. fmlookup m i = Some n \<longrightarrow> fmlookup (od_nodes disk) i = Some n"
      "expanded ?r (fset (fmdom m)) {}" "fset (fmdom (fmupd i n by_id)) \<union> set (?ps @ stack) \<subseteq> fset (fmdom m)"
      "fset (fmdom m) \<subseteq> fset (fmdom (fmupd i n by_id)) \<union> ?r\<^sup>* `` set (?ps @ stack)"
      using 2(2) [OF False ln _ _ 2(5)] by blast
    have "?r\<^sup>* `` set (?ps @ stack) \<subseteq> ?r\<^sup>* `` set (i # stack)"
      unfolding set_append ps by (auto intro: converse_rtrancl_into_rtrancl)
    moreover have "i \<in> ?r\<^sup>* `` set (i # stack)" by auto
    ultimately have "fset (fmdom m) \<subseteq> fset (fmdom by_id) \<union> ?r\<^sup>* `` set (i # stack)"
      using m(5) unfolding fmdom_fmupd finsert.rep_eq by blast
    with m(1-4) False ln show ?thesis by (intro exI [of _ m]) auto
  qed
qed

lemma load_heads_Some: "od_heads disk = Some st \<Longrightarrow> load_heads_state K disk = (st, fingerprint K st)"
  by (simp add: load_heads_state_def)

text \<open>
  Reading: on a consistent log \<^verbatim>\<open>read_all\<close> returns exactly the operations reachable from the
  published heads, each once, ordered by time and short id.
\<close>

theorem read_all_exact:
  assumes "wf_disk K disk" and "od_heads disk = Some st"
  shows "\<exists>ns. fst (read_all K disk) = Inr (List.map on_operation ns) \<and> distinct ns \<and>
    set ns = {n. \<exists>i \<in> log_of K disk. fmlookup (od_nodes disk) i = Some n} \<and> sorted (List.map op_key ns)"
proof (cases "hs_heads st = {||}")
  case True
  have "is_migrated disk" using assms(2) by (simp add: is_migrated_def)
  with True assms(2) show ?thesis
    by (intro exI [of _ "[]"])
      (simp add: read_all_def read_migrated_def load_heads_Some log_of_def current_heads_def)
next
  case False
  have mig: "is_migrated disk" using assms(2) by (simp add: is_migrated_def)
  have ch: "current_heads K disk = hs_heads st" using assms(2) by (simp add: current_heads_def load_heads_Some)
  let ?st = "rev (sorted_list_of_fset (hs_heads st))"
  have "set ?st \<subseteq> fset (fmdom (od_nodes disk))" using wf_diskD(3) [OF assms(1)] ch by auto
  moreover have "expanded (parent_rel disk) (fset (fmdom (fmempty :: (snapshot_id, operation_node) fmap))) (set ?st)"
    by (simp add: expanded_def)
  ultimately obtain m where m: "collect_nodes disk fmempty ?st = Inr m"
    "\<And>i n. fmlookup m i = Some n \<Longrightarrow> fmlookup (od_nodes disk) i = Some n"
    "expanded (parent_rel disk) (fset (fmdom m)) {}" "set ?st \<subseteq> fset (fmdom m)"
    "fset (fmdom m) \<subseteq> (parent_rel disk)\<^sup>* `` set ?st"
    using collect_nodes_spec [of fmempty disk ?st K] assms(1) by auto
  have dom: "fset (fmdom m) = log_of K disk"
    unfolding log_of_def ch using expanded_closed [OF m(3-5)] by simp
  have look: "fmlookup m i = fmlookup (od_nodes disk) i" if "i |\<in>| fmdom m" for i
    using that m(2) by (metis fmlookup_dom_iff)
  let ?ns = "List.map (\<lambda>i. the (fmlookup m i)) (sorted_list_of_fset (fmdom m))"
  have id: "on_id (the (fmlookup m i)) = i" if i: "i |\<in>| fmdom m" for i
  proof -
    from i obtain n where n: "fmlookup m i = Some n" by auto
    from wf_diskD(1) [OF assms(1) m(2) [OF n]] n show ?thesis by (simp add: node_ok_def)
  qed
  have inj: "inj_on (\<lambda>i. the (fmlookup m i)) (fset (fmdom m))"
    by (rule inj_on_inverseI [where g = on_id]) (rule id)
  have "set ?ns = {n. \<exists>i \<in> log_of K disk. fmlookup (od_nodes disk) i = Some n}"
  proof -
    have "\<exists>i \<in> log_of K disk. fmlookup (od_nodes disk) i = Some (the (fmlookup m j))" if j: "j |\<in>| fmdom m" for j
    proof -
      from j obtain n where n: "fmlookup m j = Some n" by auto
      from m(2) [OF n] n dom j show ?thesis by auto
    qed
    moreover have "n \<in> (\<lambda>i. the (fmlookup m i)) ` fset (fmdom m)"
      if n: "i \<in> log_of K disk" "fmlookup (od_nodes disk) i = Some n" for i n
      using n dom look [of i] by (intro image_eqI [of _ _ i]) auto
    ultimately show ?thesis by auto
  qed
  moreover have "distinct ?ns" using inj by (simp add: distinct_map)
  moreover have "fst (read_all K disk) = Inr (List.map on_operation (sort_key op_key ?ns))"
    using mig False assms(2) m(1)
    by (simp add: read_all_def read_migrated_def load_heads_Some sorted_nodes_def)
  ultimately show ?thesis by (intro exI [of _ "sort_key op_key ?ns"]) simp
qed

text \<open>
  A lost head file hides the log from readers: when only a backup of the heads is left (and no
  old JSON file), \<^verbatim>\<open>load_heads_state\<close> recovers it for the writers but \<^verbatim>\<open>read_all\<close> returns nothing.
\<close>

lemma read_ignores_backup:
  "fst (read_all K \<lparr>od_nodes = nodes, od_heads = None, od_heads_staged = staged, od_heads_bak = bak,
     od_legacy = None, od_migrated = old\<rparr>) = Inr []"
  by (simp add: read_all_def is_migrated_def read_migrated_def)

text \<open>
  Undo: with no other process around, popping right after an append returns the appended
  operation and leaves the log as it was before.
\<close>

theorem pop_undoes_append:
  assumes "collision_free K" and "wf_disk K disk" and "is_migrated disk"
    and "oplog_append K (\<lambda>n d. d) op disk = (r, disk1)"
  shows "r = Inr () \<and> (\<exists>op' disk2. oplog_pop K disk1 = (Inr (Some op'), disk2) \<and>
    payload_of op' = payload_of (op\<lparr>op_parents := current_heads K disk\<rparr>) \<and>
    current_heads K disk2 = current_heads K disk \<and> log_of K disk2 = log_of K disk)"
proof -
  define state where "state = fst (load_heads_state K disk)"
  define node where "node = build_node K op (hs_heads state)"
  define disk0 where "disk0 = persist_node node disk"
  have lh: "load_heads_state K disk = (state, fingerprint K state)"
    unfolding state_def using load_heads_fingerprint [of K disk] by (cases "load_heads_state K disk") simp
  have ch: "current_heads K disk = hs_heads state" by (simp add: current_heads_def state_def)
  have wf0: "wf_disk K disk0"
    unfolding disk0_def node_def ch [symmetric] by (rule persist_wf [OF assms(2)])
  have "append_attempt K (\<lambda>d. d) op disk = (True, write_heads_state (next_state state node) disk0)"
    using lh by (simp add: append_attempt_def Let_def publish_heads_cas_def node_def disk0_def)
  moreover have sixteen: "max_retry_attempts = Suc 15" by (simp add: max_retry_attempts_def)
  ultimately have r: "r = Inr ()"
    and d1: "disk1 = write_legacy_projection K (write_heads_state (next_state state node) disk0)"
    using assms(4) unfolding oplog_append_def sixteen append_loop.simps(2) migrate_id [OF assms(3)] by auto
  have in0: "on_id node |\<in>| fmdom (od_nodes disk0)" by (simp add: disk0_def)
  have st0: "fst (load_heads_state K disk0) = state" using lh by (simp add: disk0_def)
  note pub = publish_log [OF assms(1) wf0 st0 node_def in0]
  obtain n where n: "fmlookup (od_nodes disk0) (on_id node) = Some n" using in0 by auto
  have "payload_id K (payload_of (on_operation n)) = payload_id K (payload_of (op\<lparr>op_parents := hs_heads state\<rparr>))"
    and nid: "on_id n = on_id node"
    using wf_diskD(1) [OF wf0 n] by (simp_all add: node_ok_def node_def)
  with assms(1) have pay: "payload_of (on_operation n) = payload_of (op\<lparr>op_parents := hs_heads state\<rparr>)"
    unfolding collision_free_def inj_def by blast
  then have par: "op_parents (on_operation n) = hs_heads state" by (simp add: payload_of_def)
  have heads1: "hs_heads (fst (load_heads_state K disk1)) = {|on_id node|}"
    using pub by (simp add: d1 current_heads_def)
  have "is_migrated disk1" by (simp add: d1 is_migrated_def write_heads_state_def)
  moreover have "traverse (load_node disk1) [on_id node] = Inr [n]"
    using n by (simp add: d1 load_node_def)
  ultimately have pop: "oplog_pop K disk1 = (Inr (Some (on_operation n)),
      write_legacy_projection K (write_heads_state
        \<lparr>hs_epoch = hs_epoch (fst (load_heads_state K disk1)) + 1, hs_heads = hs_heads state\<rparr> disk1))"
    by (simp add: oplog_pop_def Let_def heads1 nid par)
  have "od_nodes disk \<subseteq>\<^sub>f od_nodes disk1" by (simp add: d1 disk0_def)
  then have "(parent_rel disk1)\<^sup>* `` fset (hs_heads state) = log_of K disk"
    unfolding log_of_def ch using assms(2) wf_diskD(3) [OF assms(2)] ch by (intro reach_stable) auto
  moreover have "parent_rel (write_legacy_projection K (write_heads_state st disk1)) = parent_rel disk1" for st
    by (simp add: parent_rel_def)
  ultimately show ?thesis
    using r pop pay ch by (simp add: log_of_def)
qed

section \<open>Concrete logs\<close>

instance operation_kind :: countable
  by countable_datatype

instance operation_agent :: countable
  by countable_datatype

text \<open>A collision-free toy interface: a value is hashed to as many zero bytes as its number.\<close>

definition counting_crypto :: op_crypto where
  "counting_crypto =
     \<lparr>op_blake3 = (\<lambda>b. b), bincode_payload = (\<lambda>p. replicate (to_nat p) 0),
      bincode_heads = (\<lambda>s. replicate (to_nat (hs_epoch s, hs_heads s)) 0)\<rparr>"

lemma counting_collision_free: "collision_free counting_crypto"
proof -
  have "inj (payload_id counting_crypto)"
    by (rule injI) (simp add: payload_id_def counting_crypto_def)
  moreover have "inj (fingerprint counting_crypto)"
  proof (rule injI)
    fix s t assume "fingerprint counting_crypto s = fingerprint counting_crypto t"
    then have "(hs_epoch s, hs_heads s) = (hs_epoch t, hs_heads t)"
      by (simp add: fingerprint_def counting_crypto_def)
    then show "s = t" by (cases s; cases t) simp
  qed
  ultimately show ?thesis by (simp add: collision_free_def)
qed

definition empty_log :: oplog_disk where
  "empty_log = \<lparr>od_nodes = fmempty, od_heads = None, od_heads_staged = None, od_heads_bak = None,
     od_legacy = None, od_migrated = None\<rparr>"

lemma empty_log_ok: "wf_disk K empty_log" "is_migrated empty_log"
  by (simp_all add: wf_disk_def is_migrated_def current_heads_def load_heads_state_def empty_log_def
      heads_default_def)

definition plain_op :: "string \<Rightarrow> operation" where
  "plain_op command = new_with_timestamp counting_crypto command ''main'' {||} {||} 7"

text \<open>Another process that gets its own operation in during the first attempt.\<close>

definition rival :: "nat \<Rightarrow> oplog_disk \<Rightarrow> oplog_disk" where
  "rival n disk = (if n = 0 then snd (append_attempt counting_crypto (\<lambda>d. d) (plain_op ''merge'') disk) else disk)"

lemma quiet_honest: "honest K (\<lambda>n d. d)"
  by (simp add: honest_def)

lemma rival_honest: "honest counting_crypto rival"
proof -
  have "wf_disk counting_crypto (rival n d) \<and> od_nodes d \<subseteq>\<^sub>f od_nodes (rival n d) \<and>
      log_of counting_crypto d \<subseteq> log_of counting_crypto (rival n d)" if "wf_disk counting_crypto d" for n d
  proof (cases "n = 0")
    case True
    obtain ok d' where a: "append_attempt counting_crypto (\<lambda>d. d) (plain_op ''merge'') d = (ok, d')" by force
    from append_attempt_spec [where n = 0, OF counting_collision_free that quiet_honest a] True a
    show ?thesis by (auto simp: rival_def)
  qed (use that in \<open>simp add: rival_def\<close>)
  then show ?thesis unfolding honest_def by blast
qed


theorem append_progress_witness:
  "fst (oplog_append counting_crypto rival (plain_op ''snap'') empty_log) = Inr ()"
  by (rule append_progress [of 1]) (simp_all add: rival_def)

theorem pop_undoes_append_witness:
  "\<exists>disk1 op' disk2. oplog_append counting_crypto (\<lambda>n d. d) (plain_op ''snap'') empty_log = (Inr (), disk1) \<and>
     oplog_pop counting_crypto disk1 = (Inr (Some op'), disk2) \<and> op_command op' = ''snap'' \<and>
     log_of counting_crypto disk2 = log_of counting_crypto empty_log"
proof -
  obtain r disk1 where a: "oplog_append counting_crypto (\<lambda>n d. d) (plain_op ''snap'') empty_log = (r, disk1)" by force
  from pop_undoes_append [OF counting_collision_free empty_log_ok a]
  obtain op' disk2 where p: "r = Inr ()" "oplog_pop counting_crypto disk1 = (Inr (Some op'), disk2)"
    "payload_of op' = payload_of ((plain_op ''snap'')\<lparr>op_parents := current_heads counting_crypto empty_log\<rparr>)"
    "log_of counting_crypto disk2 = log_of counting_crypto empty_log" by blast
  have "op_command op' = ''snap''"
    using p(3) by (simp add: payload_of_def plain_op_def new_with_timestamp_def Let_def)
  with a p show ?thesis by blast
qed

text \<open>A log of one operation.\<close>

definition one_node_log :: oplog_disk where
  "one_node_log = empty_log\<lparr>
     od_nodes := fmupd (on_id (build_node counting_crypto (plain_op ''snap'') {||}))
       (build_node counting_crypto (plain_op ''snap'') {||}) fmempty,
     od_heads := Some \<lparr>hs_epoch = 1, hs_heads = {|on_id (build_node counting_crypto (plain_op ''snap'') {||})|}\<rparr>\<rparr>"

theorem read_all_exact_witness:
  "\<exists>ns. fst (read_all counting_crypto one_node_log) = Inr (List.map on_operation ns) \<and> distinct ns \<and>
    set ns = {n. \<exists>i \<in> log_of counting_crypto one_node_log. fmlookup (od_nodes one_node_log) i = Some n} \<and>
    sorted (List.map op_key ns)"
proof (rule read_all_exact)
  show "wf_disk counting_crypto one_node_log"
    by (simp add: wf_disk_def one_node_log_def node_ok_def current_heads_def load_heads_state_def)
  show "od_heads one_node_log = Some
      \<lparr>hs_epoch = 1, hs_heads = {|on_id (build_node counting_crypto (plain_op ''snap'') {||})|}\<rparr>"
    by (simp add: one_node_log_def)
qed

end
