(* ===== verification/Spec2Isabelle.thy ===== *)
theory Spec2Isabelle
  imports ContentHash Frontier Commute Inverse Graph Traversal Bisect Revset History Diff Publish Compact Rewrite RotatedFile Checkout
    Ewah Transaction PolicyStore Mappings Net Protocol OplogStore
begin

text \<open>
  A verification development for Arc, a patch-theoretic version control system written in
  Rust (\<^verbatim>\<open>src/crates\<close>).  History is a directed acyclic graph of content-addressed, signed
  \<^emph>\<open>changes\<close>; a change is a list of \<^emph>\<open>atoms\<close> (insert, delete, move, blob, mount, conflict) and
  a view is a set of heads.  The crates below hold the core logic, with the
  repository facade of the command line (\<^verbatim>\<open>arc-cli/src/repo\<close>), whose commands compose them.

  \<^bold>\<open>The parts and their theories.\<close>

  \<^item> \<open>Prelude\<close>: machine integers (\<open>u8\<close> to \<open>u64\<close> are words, \<^verbatim>\<open>usize\<close> a natural number with
    \<open>usize_max\<close>), Rust strings as their UTF-8 bytes, results as sums, the string routines of
    the standard library, finite sets and maps, closed sets of a relation.  \<open>Wire\<close>: big-endian
    integers.
  \<^item> \<open>Ids\<close> (\<^verbatim>\<open>arc-store-types/src/newtypes.rs\<close>), \<open>Atoms\<close> (\<^verbatim>\<open>arc-algebra-types/src/lib.rs\<close>),
    \<open>Changes\<close> (\<^verbatim>\<open>arc-change/src/change.rs\<close>), \<open>ContentHash\<close> (\<^verbatim>\<open>arc-change/src/content_hash.rs\<close>):
    identifiers, atoms and coordinates, changes with their ids and signatures, and the
    canonical encoders.  The id of a change pins its content; every constructor verifies.
  \<^item> \<open>Apply\<close>, \<open>Inverse\<close>, \<open>Commute\<close>, \<open>Sparse\<close> (\<^verbatim>\<open>arc-algebra/src\<close>): replay of changes onto a
    materialised state with the AI permission boundary and the sparse scope, inversion,
    commutation.  Replays of commuting changes converge, an inverse restores the state, and
    the boundary is stated exactly with its hole.
  \<^item> \<open>Frontier\<close> (\<^verbatim>\<open>arc-algebra-types/src/frontier.rs\<close>): the algebra of head sets; gossip
    converges.
  \<^item> \<open>Graph\<close>, \<open>Traversal\<close>, \<open>Bisect\<close> (\<^verbatim>\<open>arc-store-graph/src\<close>): the change graph with its reverse
    edges, Kahn's order, ancestor closure, merge bases, tips, traversal marks, and bisection
    over it.  Bisection only uses the order and the closure of the graph, which is the locale
    \<open>dag_view\<close>, interpreted on the graph as \<open>change_dag\<close>.
  \<^item> \<open>Revset\<close> (\<^verbatim>\<open>arc-revset/src\<close>): queries over the graph, from the parse tree to the lazy
    iterators, against a set-theoretic denotation.
  \<^item> \<open>History\<close> (\<^verbatim>\<open>arc-engine/src/mutator.rs\<close>, \<^verbatim>\<open>spacetime.rs\<close>): squashing and reordering, on top
    of the graph, commutation and replay.
  \<^item> \<open>Transaction\<close> (\<^verbatim>\<open>arc-transaction/src/lib.rs\<close>): checkpoints of a rewrite and the projection
    of ids through it.
  \<^item> \<open>Diff\<close> (\<^verbatim>\<open>arc-diff/src/lib.rs\<close>): the sequence differ; \<open>Ewah\<close> (\<^verbatim>\<open>arc-algebra/src/ewah.rs\<close>):
    compressed bitmaps.
  \<^item> \<open>Policy\<close>, \<open>Mappings\<close> (\<^verbatim>\<open>arc-policy/src\<close>): the policy lattice and conflict aggregation.
    \<open>PolicyStore\<close> (\<^verbatim>\<open>arc-store-policy/src\<close>): the loaders of ignore rules and configuration with their
    include directives, the lattice they fill, and the lossless rewriter.  Recursion over includes
    is on the levels left below the limit of 32.
  \<^item> \<open>Net\<close>, \<open>Protocol\<close> (\<^verbatim>\<open>arc-net/src/sync\<close>): frame codec, adaptive window, session phases,
    capability negotiation and the closure that decides what a peer is sent.
  \<^item> \<open>Oplog\<close>, \<open>OplogStore\<close> (\<^verbatim>\<open>arc-store-view/src/oplog.rs\<close>): operations and their dates; the
    optimistic, content-addressed operation log on a model of its directory.

  \<^item> \<open>Caches\<close>, \<open>TinyCache\<close>, \<open>Cas\<close>, \<open>Publish\<close> (\<^verbatim>\<open>arc-store-cas/src/cas.rs\<close>): the weighted and the
    linked-slot LRU caches against a list of entries by recency, the object store against two
    write-once maps, and publication of an object as a state machine of interleaved writers that
    may fault or crash.  A cached store only uses that a cache answers with what was put: the
    locale \<open>cas_cache\<close>, interpreted as \<open>no_cache\<close>, \<open>weighted_lru\<close> and \<open>tiny_lru\<close>.
  \<^item> \<open>Repository\<close>, \<open>Workspace\<close>, \<open>Merge\<close>, \<open>Gc\<close>, \<open>Compact\<close> (\<^verbatim>\<open>arc-cli/src/repo\<close>): hydration of the graph
    through the epoch map, materialisation, recording, merging, garbage collection and compaction.
    That the order of replay does not matter rests on the locale \<open>commuting_steps\<close>, interpreted
    on replay as \<open>replay_steps\<close>.
  \<^item> \<open>Command\<close>, \<open>UndoRedo\<close>, \<open>Rewrite\<close> (\<^verbatim>\<open>arc-cli/src/repo/core.rs\<close>): commands that keep what they did
    when they fail: undo, redo, abandon, restore, revert, squash, reorder, restack and diffedit, with
    the staging and rollback of their metadata.  Writing the file tree is a parameter there.
  \<^item> \<open>RotatedFile\<close> (\<^verbatim>\<open>core.rs\<close>): the writer of the epoch map and the redo stack as steps any of which
    may fail or crash, and their readers.
  \<^item> \<open>WorkTree\<close>, \<open>Checkout\<close> (\<^verbatim>\<open>core.rs\<close>, \<^verbatim>\<open>snapshot.rs\<close>): the file tree, its delta, its projection and
    switching views.  Recording takes the delta as an argument, which \<open>working_delta\<close> provides.

  \<^bold>\<open>Correspondence.\<close>  A struct is a record, an enum a datatype, a \<^verbatim>\<open>Result\<close> a sum with the error
  on the left, a panic or a failed allocation \<^term>\<open>None\<close>.  A function keeps its name unless it
  clashes; a \<^verbatim>\<open>&mut self\<close> method returns the new state.  Loops are recursive functions over
  what they consume, with a measure where the recursion is not structural: the unvisited part
  of a finite map and the length of a worklist for the traversals, the sum of the in-degrees
  for Kahn's loop, the unread input for decoders.  No definition needs fuel except the string
  trimmers of \<open>Prelude\<close>, which have as much as there are bytes.  A loop that mutates shared
  state between processes (\<^verbatim>\<open>OpLog::append\<close>) takes the interference as an argument.

  \<^bold>\<open>Parameters.\<close>  BLAKE3, bincode, Ed25519, the gitignore matcher, pest's parse tree, the TOML
  parser, the language plugin and the iteration order of hash sets are arguments; theorems name what they need of them
  (\<open>no_collision\<close>, \<open>collision_free\<close>, \<open>set_order_ok\<close>), and a witness instantiates each.

  \<^bold>\<open>What the theorems show.\<close>  Each property is preceded by its claim in words.  Where the code
  does not do what it says, the theorem states what it does: the \<^verbatim>\<open>.agentignore\<close> boundary does
  not see blob atoms, sparse replay drops them, a tombstone re-inserted over a change makes
  the topological sort panic, the squash accepts a merge of unrelated roots, and dates are
  printed a day late for a quarter of the days.  In the repository facade: undoing an amend breaks
  its view, a reorder that leaves the first change in place makes hydration loop, rewrites fail on
  a fresh repository, a diffedit loses its target, garbage collection on a fresh repository
  deletes every blob, compacting twice destroys the history, whole-file conflicts cannot be
  recorded, a crash while saving hides the epoch map, and switching views discards edits of files
  that are no Rust sources.

  \<^bold>\<open>Not modelled.\<close>  Argument parsing and output of the command line, the terminal and editor
  interfaces, daemons and watchers, which are I/O around the modelled crates; the transports of
  synchronisation, which rest on async runtimes; the tree-sitter and syn analyses (\<^verbatim>\<open>arc-lang\<close>,
  \<^verbatim>\<open>arc-ai\<close>), which rest on external parsers and models; the Git bridges; governance rules around
  commands; locks, keyring, derive macros and test tooling.  Failures of the file system are
  modelled in \<open>Publish\<close>, \<open>RotatedFile\<close> and \<open>WorkTree\<close> and not elsewhere; symbolic links and permissions
  are nowhere.  Failures of serialisation are not modelled.
\<close>

end
